(* ===== verification/Cpp_Prelude.thy ===== *)
theory Cpp_Prelude
  imports Main "HOL-Library.Word" "HOL-Library.Signed_Division" "HOL-Library.Monad_Syntax"
begin

text \<open>
  Shared vocabulary of the development: the C++ integer types at their x86-64 width,
  checked memory accesses (an access out of bounds is undefined behaviour and is the
  value \<open>None\<close>), decimal printing, C strings, and the notions of reachable state and
  invariant that the concurrent components share.
\<close>

section \<open>Collections of facts\<close>

named_theorems ub_simps \<open>evaluation of checked memory accesses\<close>
named_theorems text_simps \<open>facts on decimal printing and C strings\<close>

section \<open>Integer types\<close>

type_synonym uchar = "8 word"
type_synonym ushort = "16 word"
type_synonym uint = "32 word"
type_synonym ulong = "64 word"
type_synonym ullong = "64 word"

text \<open>A \<open>long\<close> is kept as its 64 bits; it is read through \<open>sint\<close>.\<close>

type_synonym slong = "64 word"

text \<open>The conversion of a wider value to \<open>int\<close> keeps the low 32 bits.\<close>

definition as_int :: "int \<Rightarrow> int" where
  "as_int z = sint (word_of_int z :: uint)"

lemma as_int_id: "0 \<le> z \<Longrightarrow> z < 2 ^ 31 \<Longrightarrow> as_int z = z"
  by (simp add: as_int_def int_word_sint)

text \<open>Division of non-negative values: truncation and rounding down agree.\<close>

lemma sdiv_nonneg: "0 \<le> (a :: int) \<Longrightarrow> 0 < b \<Longrightarrow> a sdiv b = a div b"
  by (cases "a = 0") (simp_all add: signed_divide_int_def sgn_if)

lemma smod_nonneg: "0 \<le> (a :: int) \<Longrightarrow> 0 < b \<Longrightarrow> a smod b = a mod b"
  by (simp add: signed_modulo_int_def sdiv_nonneg [unfolded signed_divide_int_def]
      minus_div_mult_eq_mod)
    (cases "a = 0"; simp)

section \<open>Checked memory\<close>

definition rd :: "'a list \<Rightarrow> nat \<Rightarrow> 'a option" where
  "rd xs i = (if i < length xs then Some (xs ! i) else None)"

definition wr :: "'a list \<Rightarrow> nat \<Rightarrow> 'a \<Rightarrow> 'a list option" where
  "wr xs i v = (if i < length xs then Some (xs[i := v]) else None)"

lemma rd_Some [ub_simps]: "i < length xs \<Longrightarrow> rd xs i = Some (xs ! i)"
  by (simp add: rd_def)

lemma rd_None [ub_simps]: "length xs \<le> i \<Longrightarrow> rd xs i = None"
  by (simp add: rd_def)

lemma wr_Some [ub_simps]: "i < length xs \<Longrightarrow> wr xs i v = Some (xs[i := v])"
  by (simp add: wr_def)

lemma wr_None [ub_simps]: "length xs \<le> i \<Longrightarrow> wr xs i v = None"
  by (simp add: wr_def)

section \<open>C strings\<close>

text \<open>\<open>std::string(const char *)\<close> and \<open>c_str()\<close> seen by C: up to the first NUL.\<close>

definition c_str :: "string \<Rightarrow> string" where
  "c_str s = takeWhile (\<lambda>c. c \<noteq> CHR 0x00) s"

lemma c_str_no_nul [text_simps]: "CHR 0x00 \<notin> set s \<Longrightarrow> c_str s = s"
  by (auto simp: c_str_def)

lemma c_str_set: "c \<in> set (c_str s) \<Longrightarrow> c \<in> set s \<and> c \<noteq> CHR 0x00"
  by (auto simp: c_str_def dest: set_takeWhileD)

section \<open>Decimal printing\<close>

definition digit_char :: "nat \<Rightarrow> char" where
  "digit_char d = (char_of (48 + d mod 10))"

fun show_nat :: "nat \<Rightarrow> string" where
  "show_nat n = (if n < 10 then [digit_char n] else show_nat (n div 10) @ [digit_char (n mod 10)])"

declare show_nat.simps [simp del]

definition show_int :: "int \<Rightarrow> string" where
  "show_int z = (if z < 0 then CHR ''-'' # show_nat (nat (- z)) else show_nat (nat z))"

text \<open>printf's \<open>%0wd\<close> for a non-negative value: zeros on the left up to width \<open>w\<close>.\<close>

definition pad0 :: "nat \<Rightarrow> string \<Rightarrow> string" where
  "pad0 w s = replicate (w - length s) (CHR ''0'') @ s"

lemma of_char_digit_char: "of_char (digit_char d) = (48 + d mod 10 :: nat)"
proof -
  have "d mod 10 < 10" by simp
  then have "48 + d mod 10 < (256 :: nat)" by linarith
  then show ?thesis by (simp add: digit_char_def)
qed

lemma digit_char_inj [text_simps]:
  "digit_char a = digit_char b \<longleftrightarrow> a mod 10 = b mod 10"
  by (metis of_char_digit_char add_left_cancel digit_char_def)

lemma show_nat_nonempty [text_simps]: "show_nat n \<noteq> []"
  by (subst show_nat.simps) simp

lemma digit_char_is_digit: "of_char (digit_char d) \<in> {48..57 :: nat}"
proof -
  have "d mod 10 < 10" by simp
  then show ?thesis unfolding of_char_digit_char by (simp; linarith)
qed

lemma show_nat_digits: "c \<in> set (show_nat n) \<Longrightarrow> of_char c \<in> {48..57 :: nat}"
proof (induction n rule: show_nat.induct)
  case (1 n)
  show ?case
  proof (cases "n < 10")
    case True
    with "1.prems" show ?thesis
      by (simp add: show_nat.simps [of n] digit_char_is_digit del: atLeastAtMost_iff)
  next
    case False
    with "1.prems" have "c \<in> set (show_nat (n div 10)) \<or> c = digit_char (n mod 10)"
      by (auto simp: show_nat.simps [of n])
    with "1.IH" [OF False] digit_char_is_digit show ?thesis by blast
  qed
qed

lemma show_nat_no_underscore [text_simps]: "CHR ''_'' \<notin> set (show_nat n)"
  using show_nat_digits [of "CHR ''_''" n] by auto

lemma show_nat_no_nul [text_simps]: "CHR 0x00 \<notin> set (show_nat n)"
  using show_nat_digits [of "CHR 0x00" n] by auto

lemma show_nat_length1: "length (show_nat n) = 1 \<longleftrightarrow> n < 10"
  by (subst show_nat.simps) (simp add: text_simps)

lemma show_nat_length: "n < 10 ^ Suc k \<Longrightarrow> length (show_nat n) \<le> Suc k"
proof (induction k arbitrary: n)
  case 0
  then show ?case by (simp add: show_nat.simps [of n])
next
  case (Suc k)
  then have "n div 10 < 10 ^ Suc k" by (simp add: div_less_iff_less_mult)
  then have "length (show_nat (n div 10)) \<le> Suc k" by (rule Suc.IH)
  then show ?case by (simp add: show_nat.simps [of n])
qed

lemma pad0_length: "0 < w \<Longrightarrow> n < 10 ^ w \<Longrightarrow> length (pad0 w (show_nat n)) = w"
  using show_nat_length [of n "w - 1"] by (simp add: pad0_def)

lemma show_nat_inj [text_simps]: "show_nat m = show_nat n \<longleftrightarrow> m = n"
proof
  show "show_nat m = show_nat n \<Longrightarrow> m = n"
  proof (induction m arbitrary: n rule: show_nat.induct)
    case (1 m)
    have small: "m < 10 \<longleftrightarrow> n < 10"
      using "1.prems" show_nat_length1 by metis
    show ?case
    proof (cases "m < 10")
      case True
      with small "1.prems" show ?thesis
        by (simp add: show_nat.simps [of m] show_nat.simps [of n] digit_char_inj)
    next
      case False
      with small "1.prems" have "show_nat (m div 10) = show_nat (n div 10)"
        and "m mod 10 = n mod 10"
        by (simp_all add: show_nat.simps [of m] show_nat.simps [of n] digit_char_inj)
      with "1.IH" [OF False] have "m div 10 = n div 10" and "m mod 10 = n mod 10" by blast+
      then show ?thesis by (metis div_mult_mod_eq)
    qed
  qed
qed simp

text \<open>A separator that does not occur in the tail cuts a string in one way only.\<close>

lemma split_at_first_sep:
  "xs @ c # ys = xs' @ c # ys' \<Longrightarrow> c \<notin> set xs \<Longrightarrow> c \<notin> set xs' \<Longrightarrow> xs = xs' \<and> ys = ys'"
proof (induction xs arbitrary: xs')
  case Nil
  then show ?case by (cases xs') auto
next
  case (Cons x xs)
  then show ?case by (cases xs') auto
qed

lemma split_at_last_sep:
  assumes "a @ c # b = a' @ c # b'" and "c \<notin> set b" and "c \<notin> set b'"
  shows "a = a' \<and> b = b'"
proof -
  have "rev b @ c # rev a = rev b' @ c # rev a'"
    using arg_cong [OF assms(1), of rev] by simp
  then have "rev b = rev b' \<and> rev a = rev a'"
    using assms(2,3) by (intro split_at_first_sep) auto
  then show ?thesis by simp
qed

lemma length_takeWhile_less: "\<exists>x \<in> set xs. \<not> P x \<Longrightarrow> length (takeWhile P xs) < length xs"
  by (induction xs) auto

section \<open>Step relations\<close>

text \<open>The states a machine can be in: the least set with the start states, closed under steps.\<close>

inductive reachable :: "('s \<Rightarrow> bool) \<Rightarrow> ('s \<Rightarrow> 's \<Rightarrow> bool) \<Rightarrow> 's \<Rightarrow> bool"
  for init :: "'s \<Rightarrow> bool" and step :: "'s \<Rightarrow> 's \<Rightarrow> bool" where
  reach_init: "init s \<Longrightarrow> reachable init step s"
| reach_step: "reachable init step s \<Longrightarrow> step s t \<Longrightarrow> reachable init step t"

text \<open>
  The proof obligation of every concurrent component: an invariant that holds initially
  and that each step keeps holds in every reachable state.
\<close>

locale invariant_machine =
  fixes init :: "'s \<Rightarrow> bool"
    and step :: "'s \<Rightarrow> 's \<Rightarrow> bool"
    and inv :: "'s \<Rightarrow> bool"
  assumes inv_init: "init s \<Longrightarrow> inv s"
    and inv_step: "inv s \<Longrightarrow> step s t \<Longrightarrow> inv t"
begin

lemma reachable_inv: "reachable init step s \<Longrightarrow> inv s"
  by (induction rule: reachable.induct) (auto intro: inv_init inv_step)

lemma reachable_step_inv: "reachable init step s \<Longrightarrow> step s t \<Longrightarrow> inv t"
  using reachable_inv inv_step by blast

end

text \<open>
  A machine whose steps all lower a rank: its runs are no longer than the rank of their start,
  and each can be continued to a state in which nothing can move.
\<close>

locale ranked_machine = invariant_machine +
  fixes rank :: "'a \<Rightarrow> nat"
  assumes rank_step: "inv s \<Longrightarrow> step s t \<Longrightarrow> rank t < rank s"
begin

lemma run_bounded: "(step ^^ n) s t \<Longrightarrow> inv s \<Longrightarrow> inv t \<and> rank t + n \<le> rank s"
proof (induction n arbitrary: t)
  case (Suc n)
  then obtain u where "(step ^^ n) s u" "step u t" by auto
  with Suc.IH [of u] Suc.prems(2) inv_step rank_step [of u t] show ?case by fastforce
qed simp

lemma run_ends: "inv s \<Longrightarrow> \<exists>n t. (step ^^ n) s t \<and> (\<forall>u. \<not> step t u)"
proof (induction "rank s" arbitrary: s rule: less_induct)
  case less
  show ?case
  proof (cases "\<exists>u. step s u")
    case False
    then show ?thesis by (intro exI [of _ 0] exI [of _ s]) simp
  next
    case True
    then obtain u where u: "step s u" by blast
    with less.prems inv_step rank_step less.hyps [of u] obtain n t where
      "(step ^^ n) u t" "\<forall>v. \<not> step t v" by blast
    with u have "(step ^^ Suc n) s t" by (meson relpowp_Suc_I2)
    with \<open>\<forall>v. \<not> step t v\<close> show ?thesis by blast
  qed
qed

end

end
