(* ===== verification/Base64.thy ===== *)
theory Base64
  imports Cpp_Prelude
begin

unbundle bit_operations_syntax

text \<open>
  src/Base64.h and src/Base64.cpp. Buffers are lists of bytes; every index is computed in
  \<open>unsigned int\<close> as the code does it and every access is checked, so that a read or a
  write out of bounds is the result \<open>None\<close> (undefined behaviour). The loops over blocks
  are recursion on the number of blocks left.
\<close>

section \<open>Tables and characters\<close>

definition base64 :: "uchar list" where
  "base64 = map of_char ''ABCDEFGHIJKLMNOPQRSTUVWXYZabcdefghijklmnopqrstuvwxyz0123456789+/''"

definition pad_char :: uchar where "pad_char = 61"

definition is_base64_alphabet :: "uchar \<Rightarrow> bool" where
  "is_base64_alphabet ch \<longleftrightarrow>
     (47 < sint ch \<and> sint ch < 58) \<or> (64 < sint ch \<and> sint ch < 91) \<or>
     (96 < sint ch \<and> sint ch < 123) \<or> ch = 43 \<or> ch = 47 \<or> ch = 61"

text \<open>
  The \<open>switch\<close> for the other characters has no \<open>break\<close>: each case that is entered runs on
  into the next one and ends in the default.
\<close>

definition other_value :: "uchar \<Rightarrow> uchar \<Rightarrow> uchar" where
  "other_value ch value =
     (let value = (if ch = 43 then 62 else value);
          value = (if ch = 43 \<or> ch = 47 then 63 else value);
          value = 0
      in value)"

definition get_base64_value :: "uchar \<Rightarrow> uchar" where
  "get_base64_value ch =
     (if 65 \<le> sint ch \<and> sint ch \<le> 90 then ch - 65
      else if 97 \<le> sint ch \<and> sint ch \<le> 122 then ch - 97 + 26
      else if 48 \<le> sint ch \<and> sint ch \<le> 57 then ch - 48 + 52
      else other_value ch 32)"

text \<open>
  \<open>search_str\<close> counts in a variable of type \<open>bool\<close>: \<open>++nCnt\<close> makes it true, and it is
  returned as 0 or 1. The loop is entered with a non-empty pattern only.
\<close>

definition str_find :: "uchar list \<Rightarrow> uchar list \<Rightarrow> nat \<Rightarrow> nat option" where
  "str_find strSrc strSearch pos =
     List.find (\<lambda>i. take (length strSearch) (drop i strSrc) = strSearch) [pos..<length strSrc]"

lemma find_upt_Some: "List.find P [m..<n] = Some k \<Longrightarrow> m \<le> k \<and> k < n \<and> P k"
  by (auto simp: find_Some_iff)

function search_loop :: "uchar list \<Rightarrow> uchar list \<Rightarrow> nat option \<Rightarrow> bool \<Rightarrow> bool" where
  "search_loop strSrc strSearch None nCnt = nCnt"
| "search_loop strSrc strSearch (Some pos) nCnt =
     (if strSearch = [] \<or> length strSrc \<le> pos then nCnt
      else search_loop strSrc strSearch (str_find strSrc strSearch (pos + length strSearch)) True)"
  by pat_completeness auto
termination
proof (relation "measure (\<lambda>(strSrc, strSearch, pos, nCnt).
    case pos of None \<Rightarrow> 0 | Some p \<Rightarrow> Suc (length strSrc - p))")
qed (auto split: option.splits simp: str_find_def dest!: find_upt_Some simp flip: length_greater_0_conv)

definition search_str :: "uchar list \<Rightarrow> uchar list \<Rightarrow> int" where
  "search_str strSrc strSearch =
     (if strSrc = [] \<or> strSearch = [] then of_bool False
      else of_bool (search_loop strSrc strSearch (str_find strSrc strSearch 0) False))"

section \<open>Encoding\<close>

text \<open>An index \<open>i * k + j\<close>, computed in \<open>unsigned int\<close>.\<close>

definition ix :: "uint \<Rightarrow> uint \<Rightarrow> uint \<Rightarrow> nat" where
  "ix i k j = unat (i * k + j)"

definition b64_at :: "uchar \<Rightarrow> uchar option" where
  "b64_at v = rd base64 (unat v)"

definition encrypt_block :: "uchar list \<Rightarrow> uint \<Rightarrow> uchar list \<Rightarrow> uchar list option" where
  "encrypt_block pSrc i pDst = do {
     a \<leftarrow> rd pSrc (ix i 3 0);
     b \<leftarrow> rd pSrc (ix i 3 1);
     c \<leftarrow> rd pSrc (ix i 3 2);
     v \<leftarrow> b64_at (drop_bit 2 a); pDst \<leftarrow> wr pDst (ix i 4 0) v;
     v \<leftarrow> b64_at (push_bit 4 (a AND 3) OR drop_bit 4 b); pDst \<leftarrow> wr pDst (ix i 4 1) v;
     v \<leftarrow> b64_at (push_bit 2 (b AND 15) OR drop_bit 6 c); pDst \<leftarrow> wr pDst (ix i 4 2) v;
     v \<leftarrow> b64_at (c AND 63); wr pDst (ix i 4 3) v
   }"

fun encrypt_loop :: "uchar list \<Rightarrow> nat \<Rightarrow> uint \<Rightarrow> uchar list \<Rightarrow> uchar list option" where
  "encrypt_loop pSrc 0 i pDst = Some pDst"
| "encrypt_loop pSrc (Suc n) i pDst = do {
     pDst \<leftarrow> encrypt_block pSrc i pDst;
     encrypt_loop pSrc n (i + 1) pDst
   }"

definition encrypt_last :: "uchar list \<Rightarrow> uint \<Rightarrow> uint \<Rightarrow> uchar list \<Rightarrow> uchar list option" where
  "encrypt_last pSrc last_id padding_len pDst =
     (if padding_len = 0 then encrypt_block pSrc last_id pDst
      else if padding_len = 1 then do {
        a \<leftarrow> rd pSrc (ix last_id 3 0);
        v \<leftarrow> b64_at (drop_bit 2 a); pDst \<leftarrow> wr pDst (ix last_id 4 0) v;
        v \<leftarrow> b64_at (push_bit 4 (a AND 3)); pDst \<leftarrow> wr pDst (ix last_id 4 1) v;
        pDst \<leftarrow> wr pDst (ix last_id 4 2) pad_char;
        wr pDst (ix last_id 4 3) pad_char
      }
      else if padding_len = 2 then do {
        a \<leftarrow> rd pSrc (ix last_id 3 0);
        b \<leftarrow> rd pSrc (ix last_id 3 1);
        v \<leftarrow> b64_at (drop_bit 2 a); pDst \<leftarrow> wr pDst (ix last_id 4 0) v;
        v \<leftarrow> b64_at (push_bit 4 (a AND 3) OR drop_bit 4 b); pDst \<leftarrow> wr pDst (ix last_id 4 1) v;
        v \<leftarrow> b64_at (push_bit 2 (b AND 15)); pDst \<leftarrow> wr pDst (ix last_id 4 2) v;
        wr pDst (ix last_id 4 3) pad_char
      }
      else Some pDst)"

text \<open>The value returned and the buffer \<open>pDst\<close>, or undefined behaviour.\<close>

definition Base64_encrypt :: "uchar list \<Rightarrow> uint \<Rightarrow> (int \<times> uchar list) option" where
  "Base64_encrypt pSrc len =
     (let padding_len = len mod 3;
          count = (if padding_len \<noteq> 0 then len div 3 + 1 else len div 3);
          pDst = replicate (unat (count * 4 + 1)) 0
      in do {
        pDst \<leftarrow> encrypt_loop pSrc (unat (count - 1)) 0 pDst;
        pDst \<leftarrow> encrypt_last pSrc (count - 1) padding_len pDst;
        Some (0, pDst)
      })"

section \<open>Decoding\<close>

definition decrypt_block :: "uchar list \<Rightarrow> nat \<Rightarrow> nat \<Rightarrow> uchar list \<Rightarrow> uchar list option" where
  "decrypt_block base64_src i4 i3 pDst = do {
     a \<leftarrow> rd base64_src i4;
     b \<leftarrow> rd base64_src (i4 + 1);
     c \<leftarrow> rd base64_src (i4 + 2);
     d \<leftarrow> rd base64_src (i4 + 3);
     pDst \<leftarrow> wr pDst i3 (push_bit 2 a OR drop_bit 4 b);
     pDst \<leftarrow> wr pDst (i3 + 1) (push_bit 4 b OR drop_bit 2 c);
     wr pDst (i3 + 2) (push_bit 6 c OR d)
   }"

fun decrypt_loop :: "uchar list \<Rightarrow> nat \<Rightarrow> uint \<Rightarrow> uchar list \<Rightarrow> uchar list option" where
  "decrypt_loop base64_src 0 i pDst = Some pDst"
| "decrypt_loop base64_src (Suc n) i pDst = do {
     pDst \<leftarrow> decrypt_block base64_src (ix i 4 0) (ix i 3 0) pDst;
     decrypt_loop base64_src n (i + 1) pDst
   }"

text \<open>\<open>last_id\<close> is an \<open>unsigned char\<close>; its multiples are computed in \<open>int\<close>.\<close>

definition decrypt_last :: "uchar list \<Rightarrow> uchar \<Rightarrow> int \<Rightarrow> uchar list \<Rightarrow> uchar list option" where
  "decrypt_last base64_src last_id equal_count pDst =
     (if equal_count = 0 then decrypt_block base64_src (unat last_id * 4) (unat last_id * 3) pDst
      else if equal_count = 1 then do {
        a \<leftarrow> rd base64_src (unat last_id * 4);
        b \<leftarrow> rd base64_src (unat last_id * 4 + 1);
        c \<leftarrow> rd base64_src (unat last_id * 4 + 2);
        pDst \<leftarrow> wr pDst (unat last_id * 3) (push_bit 2 a OR drop_bit 4 b);
        wr pDst (unat last_id * 3 + 1) (push_bit 4 b OR drop_bit 2 c)
      }
      else if equal_count = 2 then do {
        a \<leftarrow> rd base64_src (unat last_id * 4);
        b \<leftarrow> rd base64_src (unat last_id * 4 + 1);
        wr pDst (unat last_id * 3) (push_bit 2 a OR drop_bit 4 b)
      }
      else Some pDst)"

text \<open>\<open>base64_src[strlen(base64_src)] = 0\<close>: without a zero byte \<open>strlen\<close> runs off the array.\<close>

definition terminate :: "uchar list \<Rightarrow> uchar list option" where
  "terminate arr = (if 0 \<in> set arr then wr arr (length (takeWhile (\<lambda>c. c \<noteq> 0) arr)) 0 else None)"

text \<open>
  \<open>heap\<close> is what \<open>new char[]\<close> leaves in the cells that the code does not set; \<open>pSrc\<close> holds
  the characters before the terminating NUL. The result is the value returned and the
  buffer, if one was allocated.
\<close>

definition Base64_decrypt :: "(nat \<Rightarrow> uchar) \<Rightarrow> uchar list \<Rightarrow> (int \<times> uchar list option) option" where
  "Base64_decrypt heap pSrc =
     (if length pSrc mod 4 \<noteq> 0 then Some (-1, None)
      else if \<not> list_all is_base64_alphabet pSrc then Some (-2, None)
      else
        (let equal_count = search_str pSrc [pad_char] in
         if equal_count > 2 then Some (-3, None)
         else
           (let n = nat (int (length pSrc) - equal_count);
                base64_src = map get_base64_value (take n pSrc) @ [heap n];
                count = word_of_nat (length pSrc div 4) :: uint;
                dst_len = (if equal_count = 0 then count * 3
                           else if equal_count = 1 then count * 3 - 1
                           else if equal_count = 2 then count * 3 - 2
                           else 0);
                pDst = replicate (unat (dst_len + 1)) 0
            in do {
              base64_src \<leftarrow> terminate base64_src;
              pDst \<leftarrow> decrypt_loop base64_src (unat (count - 1)) 0 pDst;
              pDst \<leftarrow> decrypt_last base64_src (ucast (count - 1)) equal_count pDst;
              Some (0, Some pDst)
            })))"

section \<open>Bits and tables\<close>

lemma less_8_cases: "n < (8::nat) \<Longrightarrow> n = 0 \<or> n = 1 \<or> n = 2 \<or> n = 3 \<or> n = 4 \<or> n = 5 \<or> n = 6 \<or> n = 7"
  by auto

lemma masks: "(3 :: uchar) = mask 2" "(15 :: uchar) = mask 4" "(63 :: uchar) = mask 6"
  by (simp_all add: mask_eq_exp_minus_1)

text \<open>The four groups of six bits of three bytes, as the code computes them.\<close>

definition sx1 :: "uchar \<Rightarrow> uchar" where "sx1 a = drop_bit 2 a"
definition sx2 :: "uchar \<Rightarrow> uchar \<Rightarrow> uchar" where "sx2 a b = push_bit 4 (a AND 3) OR drop_bit 4 b"
definition sx3 :: "uchar \<Rightarrow> uchar \<Rightarrow> uchar" where "sx3 b c = push_bit 2 (b AND 15) OR drop_bit 6 c"
definition sx4 :: "uchar \<Rightarrow> uchar" where "sx4 c = c AND 63"

lemmas sx_defs = sx1_def sx2_def sx3_def sx4_def

lemma encrypt_block_sx:
  "encrypt_block pSrc i pDst = do {
     a \<leftarrow> rd pSrc (ix i 3 0);
     b \<leftarrow> rd pSrc (ix i 3 1);
     c \<leftarrow> rd pSrc (ix i 3 2);
     v \<leftarrow> b64_at (sx1 a); pDst \<leftarrow> wr pDst (ix i 4 0) v;
     v \<leftarrow> b64_at (sx2 a b); pDst \<leftarrow> wr pDst (ix i 4 1) v;
     v \<leftarrow> b64_at (sx3 b c); pDst \<leftarrow> wr pDst (ix i 4 2) v;
     v \<leftarrow> b64_at (sx4 c); wr pDst (ix i 4 3) v
   }"
  unfolding encrypt_block_def sx_defs by (rule refl)

lemma encrypt_last_sx:
  "encrypt_last pSrc last_id padding_len pDst =
     (if padding_len = 0 then encrypt_block pSrc last_id pDst
      else if padding_len = 1 then do {
        a \<leftarrow> rd pSrc (ix last_id 3 0);
        v \<leftarrow> b64_at (sx1 a); pDst \<leftarrow> wr pDst (ix last_id 4 0) v;
        v \<leftarrow> b64_at (sx2 a 0); pDst \<leftarrow> wr pDst (ix last_id 4 1) v;
        pDst \<leftarrow> wr pDst (ix last_id 4 2) pad_char;
        wr pDst (ix last_id 4 3) pad_char
      }
      else if padding_len = 2 then do {
        a \<leftarrow> rd pSrc (ix last_id 3 0);
        b \<leftarrow> rd pSrc (ix last_id 3 1);
        v \<leftarrow> b64_at (sx1 a); pDst \<leftarrow> wr pDst (ix last_id 4 0) v;
        v \<leftarrow> b64_at (sx2 a b); pDst \<leftarrow> wr pDst (ix last_id 4 1) v;
        v \<leftarrow> b64_at (sx3 b 0); pDst \<leftarrow> wr pDst (ix last_id 4 2) v;
        wr pDst (ix last_id 4 3) pad_char
      }
      else Some pDst)"
proof -
  have z: "drop_bit 4 (0 :: uchar) = 0" "drop_bit 6 (0 :: uchar) = 0" by simp_all
  show ?thesis unfolding encrypt_last_def sx_defs z or.right_neutral by (rule refl)
qed

lemma sextets_first: "push_bit 2 (sx1 a) OR drop_bit 4 (sx2 a b) = a"
  by (rule bit_word_eqI)
     (auto simp: sx_defs masks bit_simps dest!: less_8_cases;
      simp add: numeral_2_eq_2 numeral_3_eq_3)

lemma sextets_second: "push_bit 4 (sx2 a b) OR drop_bit 2 (sx3 b c) = b"
  by (rule bit_word_eqI)
     (auto simp: sx_defs masks bit_simps dest!: less_8_cases dest: bit_imp_le_length)

lemma sextets_third: "push_bit 6 (sx3 b c) OR sx4 c = c"
  by (rule bit_word_eqI)
     (auto simp: sx_defs masks bit_simps dest!: less_8_cases dest: bit_imp_le_length)

lemma sextet_bound: "unat (sx1 a) < 64" "unat (sx2 a b) < 64" "unat (sx3 b c) < 64" "unat (sx4 c) < 64"
proof -
  have *: "unat w < 64" if "take_bit 6 w = w" for w :: uchar
  proof -
    have "unat w = take_bit 6 (unat w)" using that by (metis unsigned_take_bit_eq)
    also have "\<dots> < 2 ^ 6" by (rule take_bit_nat_less_exp)
    finally show ?thesis by simp
  qed
  show "unat (sx1 a) < 64"
    by (rule *, rule bit_word_eqI) (auto simp: sx_defs masks bit_simps dest!: less_8_cases dest: bit_imp_le_length)
  have "n < 6" if "bit (sx2 a b) n" for n
    using that bit_imp_le_length [of b "4 + n"]
    unfolding sx2_def masks bit_or_iff bit_push_bit_iff bit_and_iff bit_drop_bit_eq bit_mask_iff comp_def
    by auto
  then show "unat (sx2 a b) < 64"
    by (intro *) (rule bit_word_eqI, auto simp: bit_take_bit_iff)
  have "n < 6" if "bit (sx3 b c) n" for n
    using that bit_imp_le_length [of c "6 + n"]
    unfolding sx3_def masks bit_or_iff bit_push_bit_iff bit_and_iff bit_drop_bit_eq bit_mask_iff comp_def
    by auto
  then show "unat (sx3 b c) < 64"
    by (intro *) (rule bit_word_eqI, auto simp: bit_take_bit_iff)
  show "unat (sx4 c) < 64"
    by (rule *, rule bit_word_eqI) (auto simp: sx_defs masks bit_simps dest!: less_8_cases)
qed

lemma base64_bytes: "base64 =
   [65, 66, 67, 68, 69, 70, 71, 72, 73, 74, 75, 76, 77, 78, 79, 80,
    81, 82, 83, 84, 85, 86, 87, 88, 89, 90, 97, 98, 99, 100, 101, 102,
    103, 104, 105, 106, 107, 108, 109, 110, 111, 112, 113, 114, 115, 116, 117, 118,
    119, 120, 121, 122, 48, 49, 50, 51, 52, 53, 54, 55, 56, 57, 43, 47]"
  by (simp add: base64_def)

lemma base64_length: "length base64 = 64"
  by (simp add: base64_def)

definition table_entry_ok :: "nat \<Rightarrow> uchar \<Rightarrow> bool" where
  "table_entry_ok v c \<longleftrightarrow> is_base64_alphabet c \<and> c \<noteq> pad_char \<and>
     get_base64_value c = (if v < 62 then word_of_nat v else 0)"

lemma table_ok: "list_all2 table_entry_ok [0..<64] base64"
  unfolding base64_bytes
  by (simp add: upt_conv_Cons table_entry_ok_def is_base64_alphabet_def get_base64_value_def
      other_value_def pad_char_def)

lemma table_facts:
  assumes "v < 64"
  shows "is_base64_alphabet (base64 ! v)" "base64 ! v \<noteq> pad_char"
    "get_base64_value (base64 ! v) = (if v < 62 then word_of_nat v else 0)"
  using list_all2_nthD2 [OF table_ok, of v] assms base64_length
  by (auto simp: table_entry_ok_def)

lemma ix_of_nat:
  assumes "j * unat k + unat l < 2 ^ 32"
  shows "ix (of_nat j) k l = j * unat k + unat l"
proof -
  have "of_nat j * k + l = (of_nat (j * unat k + unat l) :: uint)" by simp
  then have "ix (of_nat j) k l = (j * unat k + unat l) mod 2 ^ 32"
    by (simp only: ix_def unat_of_nat) simp
  then show ?thesis using assms by simp
qed

text \<open>The text that the code writes for a list of bytes.\<close>

definition b64_char :: "uchar \<Rightarrow> uchar" where
  "b64_char v = base64 ! unat v"

fun b64_text :: "uchar list \<Rightarrow> uchar list" where
  "b64_text [] = []"
| "b64_text [a] = [b64_char (sx1 a), b64_char (sx2 a 0), pad_char, pad_char]"
| "b64_text [a, b] = [b64_char (sx1 a), b64_char (sx2 a b), b64_char (sx3 b 0), pad_char]"
| "b64_text (a # b # c # r) =
     b64_char (sx1 a) # b64_char (sx2 a b) # b64_char (sx3 b c) # b64_char (sx4 c) # b64_text r"

lemma b64_at_sextet: "unat v < 64 \<Longrightarrow> b64_at v = Some (b64_char v)"
  by (simp add: b64_at_def b64_char_def rd_def base64_def)

lemma rd_append [ub_simps]: "rd (xs @ x # ys) (length xs) = Some x"
  by (simp add: rd_def)

lemma rd_at: "i < length xs \<Longrightarrow> xs ! i = v \<Longrightarrow> rd xs i = Some v"
  by (simp add: rd_def)

lemma wr_at: "i < length xs \<Longrightarrow> xs[i := v] = ys \<Longrightarrow> wr xs i v = Some ys"
  by (simp add: wr_def)

lemma encrypt_block_ok:
  assumes src: "length sp = 3 * j" and dst: "length dp = 4 * j" and bound: "4 * j + 4 < 2 ^ 32"
  shows "encrypt_block (sp @ a # b # c # sr) (of_nat j) (dp @ w0 # w1 # w2 # w3 # dr) =
     Some (dp @ b64_char (sx1 a) # b64_char (sx2 a b) # b64_char (sx3 b c) # b64_char (sx4 c) # dr)"
proof -
  have i3: "ix (of_nat j) 3 0 = 3 * j" "ix (of_nat j) 3 1 = 3 * j + 1" "ix (of_nat j) 3 2 = 3 * j + 2"
    and i4: "ix (of_nat j) 4 0 = 4 * j" "ix (of_nat j) 4 1 = 4 * j + 1" "ix (of_nat j) 4 2 = 4 * j + 2"
      "ix (of_nat j) 4 3 = 4 * j + 3"
    using bound by (subst ix_of_nat; simp)+
  show ?thesis
    using src dst
    by (simp add: encrypt_block_sx i3 i4 rd_def wr_def nth_append list_update_append b64_at_sextet sextet_bound)
qed

lemma list_3: "3 \<le> length x \<Longrightarrow> \<exists>a b c r. x = a # b # c # r"
  by (cases x; cases "tl x"; cases "tl (tl x)") auto

lemma replicate_4: "replicate (4 + k) x = x # x # x # x # replicate k x"
  by (simp add: numeral_eq_Suc)

lemma encrypt_loop_ok:
  assumes "length sp = 3 * j" and "length dp = 4 * j" and "4 * (j + n) < 2 ^ 32" and "3 * n \<le> length x"
  shows "encrypt_loop (sp @ x) n (of_nat j) (dp @ replicate (4 * n + k) 0) =
     Some (dp @ b64_text (take (3 * n) x) @ replicate k 0)"
  using assms
proof (induction n arbitrary: sp j dp x)
  case (Suc n)
  then obtain a b c r where x: "x = a # b # c # r" using list_3 [of x] by auto
  let ?w = "[b64_char (sx1 a), b64_char (sx2 a b), b64_char (sx3 b c), b64_char (sx4 c)]"
  have rep: "replicate (4 * Suc n + k) (0 :: uchar) = 0 # 0 # 0 # 0 # replicate (4 * n + k) 0"
    using replicate_4 [of "4 * n + k" "0 :: uchar"] by (simp add: add.assoc)
  have blk: "encrypt_block (sp @ x) (of_nat j) (dp @ replicate (4 * Suc n + k) 0) =
      Some ((dp @ ?w) @ replicate (4 * n + k) 0)"
    unfolding x rep using Suc.prems by (subst encrypt_block_ok) auto
  have "encrypt_loop ((sp @ [a, b, c]) @ r) n (of_nat (Suc j)) ((dp @ ?w) @ replicate (4 * n + k) 0) =
      Some ((dp @ ?w) @ b64_text (take (3 * n) r) @ replicate k 0)"
    using Suc.prems x by (intro Suc.IH) auto
  moreover have "take (3 * Suc n) x = a # b # c # take (3 * n) r"
    by (simp add: x numeral_3_eq_3)
  ultimately show ?case using blk x by (simp add: add.commute)
qed simp

section \<open>The encoder writes the reference text\<close>

lemma b64_text_append: "length xs mod 3 = 0 \<Longrightarrow> b64_text (xs @ ys) = b64_text xs @ b64_text ys"
proof (induction xs rule: b64_text.induct)
  case (4 a b c r)
  have "length (a # b # c # r) = length r + 3" by simp
  with "4.prems" have "length r mod 3 = 0" by (metis mod_add_self2)
  with "4.IH" show ?case by simp
qed auto

lemma length_b64_text: "length (b64_text src) = 4 * ((length src + 2) div 3)"
proof (induction src rule: b64_text.induct)
  case (4 a b c r)
  have "(length (a # b # c # r) + 2) div 3 = Suc ((length r + 2) div 3)"
    by (simp; presburger)
  with 4 show ?case by simp
qed auto

lemma count_eq:
  assumes "n < 2 ^ 32"
  shows "(if (of_nat n :: uint) mod 3 \<noteq> 0 then (of_nat n :: uint) div 3 + 1 else of_nat n div 3)
     = of_nat ((n + 2) div 3)"
proof -
  have un: "unat (of_nat n :: uint) = n" using assms by (simp add: unat_of_nat)
  have div: "(of_nat n :: uint) div 3 = of_nat (n div 3)"
    using assms by (simp add: word_unat_eq_iff unat_div un unat_of_nat)
  have md: "(of_nat n :: uint) mod 3 = of_nat (n mod 3)"
    using assms by (simp add: word_unat_eq_iff unat_mod un unat_of_nat)
  have md0: "(of_nat n :: uint) mod 3 = 0 \<longleftrightarrow> n mod 3 = 0"
    unfolding md by (simp add: word_unat_eq_iff unat_of_nat)
  have "(n + 2) div 3 = (if n mod 3 = 0 then n div 3 else n div 3 + 1)" by presburger
  then show ?thesis by (simp add: md0 div)
qed

lemma mod3_eq:
  assumes "n < 2 ^ 32" and "k < 3"
  shows "(of_nat n :: uint) mod 3 = of_nat k \<longleftrightarrow> n mod 3 = k"
  using assms by (simp add: word_unat_eq_iff unat_mod unat_of_nat)

lemma encrypt_last_ok:
  assumes sp: "length sp = 3 * j" and dp: "length dp = 4 * j" and bound: "4 * j + 5 < 2 ^ 32"
    and x: "x \<noteq> []" "length x \<le> 3" and n: "n = length sp + length x" "n < 2 ^ 32"
  shows "encrypt_last (sp @ x) (of_nat j) (of_nat n mod 3) (dp @ replicate 5 0) =
     Some (dp @ b64_text x @ [0])"
proof -
  have i3: "ix (of_nat j) 3 0 = 3 * j" "ix (of_nat j) 3 1 = 3 * j + 1" "ix (of_nat j) 3 2 = 3 * j + 2"
    and i4: "ix (of_nat j) 4 0 = 4 * j" "ix (of_nat j) 4 1 = 4 * j + 1" "ix (of_nat j) 4 2 = 4 * j + 2"
      "ix (of_nat j) 4 3 = 4 * j + 3"
    using bound by (subst ix_of_nat; simp)+
  have rep: "replicate 5 (0 :: uchar) = [0, 0, 0, 0, 0]" by (simp add: numeral_eq_Suc)
  have m0: "(of_nat n :: uint) mod 3 = 0 \<longleftrightarrow> n mod 3 = 0"
    and m1: "(of_nat n :: uint) mod 3 = 1 \<longleftrightarrow> n mod 3 = 1"
    and m2: "(of_nat n :: uint) mod 3 = 2 \<longleftrightarrow> n mod 3 = 2"
    using mod3_eq [OF n(2), of 0] mod3_eq [OF n(2), of 1] mod3_eq [OF n(2), of 2] by simp_all
  have md: "n mod 3 = length x mod 3" using n(1) sp by simp
  from x consider a where "x = [a]" | a b where "x = [a, b]" | a b c where "x = [a, b, c]"
    by (cases x; cases "tl x"; cases "tl (tl x)") auto
  then show ?thesis
  proof cases
    case 1
    then show ?thesis using sp dp
      by (simp add: encrypt_last_sx m0 m1 m2 md i3 i4 rep rd_def wr_def nth_append
          list_update_append b64_at_sextet sextet_bound)
  next
    case 2
    then show ?thesis using sp dp
      by (simp add: encrypt_last_sx m0 m1 m2 md i3 i4 rep rd_def wr_def nth_append
          list_update_append b64_at_sextet sextet_bound)
  next
    case 3
    then show ?thesis using sp dp bound
      by (simp add: encrypt_last_sx m0 md rep encrypt_block_ok)
  qed
qed

lemma encrypt_text:
  assumes ne: "src \<noteq> []" and bound: "4 * ((length src + 2) div 3) + 1 < 2 ^ 32"
  shows "Base64_encrypt src (of_nat (length src)) = Some (0, b64_text src @ [0])"
proof -
  let ?n = "length src"
  define c where "c = (?n + 2) div 3"
  have n: "?n < 2 ^ 32" using bound by linarith
  have c1: "1 \<le> c" using ne unfolding c_def by (cases src) auto
  have cb: "4 * c + 1 < 2 ^ 32" using bound by (simp add: c_def)
  have uc: "unat (of_nat c - 1 :: uint) = c - 1"
  proof -
    have "of_nat c - 1 = (of_nat (c - 1) :: uint)" using c1 by simp
    then have "unat (of_nat c - 1 :: uint) = (c - 1) mod 2 ^ 32" by (simp only: unat_of_nat) simp
    then show ?thesis using cb by simp
  qed
  have ud: "unat (of_nat c * 4 + 1 :: uint) = 4 * c + 1"
  proof -
    have "of_nat c * 4 + 1 = (of_nat (4 * c + 1) :: uint)" by simp
    then show ?thesis using cb by (simp only: unat_of_nat) simp
  qed
  let ?sp = "take (3 * (c - 1)) src" and ?x = "drop (3 * (c - 1)) src"
  have lens: "3 * (c - 1) < ?n" "?n \<le> 3 * (c - 1) + 3" using ne unfolding c_def by (cases src; simp; linarith)+
  have rep: "replicate (4 * c + 1) (0 :: uchar) = [] @ replicate (4 * (c - 1) + 5) 0"
    using c1 by (simp add: algebra_simps)
  have "encrypt_loop ([] @ src) (c - 1) (of_nat 0) ([] @ replicate (4 * (c - 1) + 5) 0) =
      Some ([] @ b64_text ?sp @ replicate 5 0)"
    using cb lens by (intro encrypt_loop_ok) auto
  moreover have "encrypt_last (?sp @ ?x) (of_nat (c - 1)) (of_nat ?n mod 3) (b64_text ?sp @ replicate 5 0) =
      Some (b64_text ?sp @ b64_text ?x @ [0])"
    using lens cb n by (intro encrypt_last_ok) (auto simp: length_b64_text)
  moreover have "b64_text src = b64_text ?sp @ b64_text ?x"
    using lens b64_text_append [of ?sp ?x] by simp
  moreover have "(of_nat c - 1 :: uint) = of_nat (c - 1)" using c1 by simp
  ultimately show ?thesis
    unfolding Base64_encrypt_def Let_def count_eq [OF n] c_def [symmetric] ud uc rep by simp
qed

lemma encrypt_empty: "Base64_encrypt pSrc 0 = None"
proof -
  obtain k where k: "unat (- 1 :: uint) = Suc k" 
    by (cases "unat (- 1 :: uint)") (auto simp: unsigned_minus_1_eq_mask mask_eq_exp_minus_1)
  have "encrypt_block pSrc 0 [0] = None"
    by (auto simp: encrypt_block_sx ix_def wr_def split: bind_splits)
  then show ?thesis by (simp add: Base64_encrypt_def k)
qed

section \<open>What the decoder does\<close>

fun sextets :: "uchar list \<Rightarrow> uchar list" where
  "sextets [] = []"
| "sextets [a] = [sx1 a, sx2 a 0]"
| "sextets [a, b] = [sx1 a, sx2 a b, sx3 b 0]"
| "sextets (a # b # c # r) = sx1 a # sx2 a b # sx3 b c # sx4 c # sextets r"

definition pads :: "nat \<Rightarrow> uchar list" where
  "pads n = (if n mod 3 = 1 then [pad_char, pad_char] else if n mod 3 = 2 then [pad_char] else [])"

lemma b64_text_sextets: "b64_text src = map b64_char (sextets src) @ pads (length src)"
proof (induction src rule: b64_text.induct)
  case (4 a b c r)
  have "length (a # b # c # r) = length r + 3" by simp
  then have "pads (length (a # b # c # r)) = pads (length r)" by (simp only: pads_def mod_add_self2)
  with 4 show ?case by simp
qed (auto simp: pads_def)

lemma sextets_append: "length xs mod 3 = 0 \<Longrightarrow> sextets (xs @ ys) = sextets xs @ sextets ys"
proof (induction xs rule: b64_text.induct)
  case (4 a b c r)
  have "length (a # b # c # r) = length r + 3" by simp
  with "4.prems" have "length r mod 3 = 0" by (metis mod_add_self2)
  with "4.IH" show ?case by simp
qed auto

lemma sextets_bound: "v \<in> set (sextets src) \<Longrightarrow> unat v < 64"
  by (induction src rule: sextets.induct) (auto simp: sextet_bound)

lemma length_sextets: "length (sextets src) + length (pads (length src)) = 4 * ((length src + 2) div 3)"
  using arg_cong [OF b64_text_sextets [of src], of length] length_b64_text [of src] by simp

text \<open>\<open>search_str\<close> for one character says whether it occurs.\<close>

lemma search_loop_True: "search_loop s p pos True = True"
proof (induction s p pos True rule: search_loop.induct)
  case (2 s p pos)
  then show ?case by auto
qed simp

lemma str_find_char: "str_find s [c] 0 = None \<longleftrightarrow> c \<notin> set s"
proof -
  have "take 1 (drop i s) = [c] \<longleftrightarrow> s ! i = c" if "i < length s" for i
    using that by (simp add: take_Suc_conv_app_nth)
  then show ?thesis
    by (auto simp: str_find_def find_None_iff in_set_conv_nth)
qed

lemma search_str_char: "search_str s [c] = of_bool (c \<in> set s)"
proof (cases "str_find s [c] 0")
  case None
  then show ?thesis using str_find_char [of s c] by (auto simp: search_str_def)
next
  case (Some p)
  then have "p < length s" by (auto simp: str_find_def dest: find_upt_Some)
  with Some str_find_char [of s c] show ?thesis
    by (auto simp: search_str_def search_loop_True)
qed

lemma terminate_id:
  assumes "0 \<in> set arr" shows "terminate arr = Some arr"
proof -
  let ?k = "length (takeWhile (\<lambda>c. c \<noteq> 0) arr)"
  have lt: "?k < length arr" using assms by (intro length_takeWhile_less) auto
  moreover have "arr ! ?k = 0" using nth_length_takeWhile [OF lt] by simp
  ultimately show ?thesis using assms by (simp add: terminate_def wr_def) (metis list_update_id)
qed

lemma decrypt_block_ok:
  assumes "length sp = i4" and "length dp = i3"
  shows "decrypt_block (sp @ a # b # c # d # sr) i4 i3 (dp @ w0 # w1 # w2 # dr) =
     Some (dp @ (push_bit 2 a OR drop_bit 4 b) # (push_bit 4 b OR drop_bit 2 c) #
       (push_bit 6 c OR d) # dr)"
  using assms by (auto simp: decrypt_block_def rd_def wr_def nth_append list_update_append)

lemma decrypt_loop_ok:
  assumes "length sp = 4 * j" and "length dp = 3 * j" and "4 * (j + n) < 2 ^ 32" and "3 * n \<le> length x"
  shows "decrypt_loop (sp @ sextets (take (3 * n) x) @ sr) n (of_nat j) (dp @ replicate (3 * n + k) 0) =
     Some (dp @ take (3 * n) x @ replicate k 0)"
  using assms
proof (induction n arbitrary: sp j dp x)
  case (Suc n)
  then obtain a b c r where x: "x = a # b # c # r" using list_3 [of x] by auto
  have tk: "take (3 * Suc n) x = a # b # c # take (3 * n) r"
    by (simp add: x numeral_3_eq_3)
  have rep: "replicate (3 * Suc n + k) (0 :: uchar) = 0 # 0 # 0 # replicate (3 * n + k) 0"
    by (simp add: numeral_3_eq_3)
  have i: "ix (of_nat j) 4 0 = 4 * j" "ix (of_nat j) 3 0 = 3 * j"
    using Suc.prems by (subst ix_of_nat; simp)+
  let ?s = "[sx1 a, sx2 a b, sx3 b c, sx4 c]"
  have blk: "decrypt_block (sp @ sextets (take (3 * Suc n) x) @ sr) (4 * j) (3 * j)
        (dp @ replicate (3 * Suc n + k) 0) = Some ((dp @ [a, b, c]) @ replicate (3 * n + k) 0)"
    using Suc.prems unfolding tk rep
    by (simp add: decrypt_block_ok sextets_first sextets_second sextets_third)
  have "decrypt_loop ((sp @ ?s) @ sextets (take (3 * n) r) @ sr) n (of_nat (Suc j))
      ((dp @ [a, b, c]) @ replicate (3 * n + k) 0) =
      Some ((dp @ [a, b, c]) @ take (3 * n) r @ replicate k 0)"
    using Suc.prems x by (intro Suc.IH) auto
  with blk show ?case unfolding decrypt_loop.simps i tk by (simp add: add.commute)
qed simp

definition tail_zeros :: "nat \<Rightarrow> uchar list" where
  "tail_zeros n = (if n mod 3 = 1 then [0, 0] else [0])"

lemma decrypt_last_ok:
  assumes sp: "length sp = 4 * j" and dp: "length dp = 3 * j" and j: "j < 256"
    and x: "x \<noteq> []" "length x \<le> 3"
  shows "decrypt_last (sp @ sextets x @ (if length x mod 3 = 1 then [0] else []) @ [h]) (of_nat j)
      (of_bool (length x mod 3 \<noteq> 0)) (dp @ replicate (length x + length (tail_zeros (length x))) 0) =
     Some (dp @ x @ tail_zeros (length x))"
proof -
  have uj: "unat (of_nat j :: uchar) = j" using j by (simp add: unat_of_nat)
  have rep: "replicate 3 (0 :: uchar) = [0, 0, 0]" "replicate 4 (0 :: uchar) = [0, 0, 0, 0]"
    by (simp_all add: numeral_eq_Suc)
  have z: "sx3 0 0 = 0" by (simp add: sx_defs)
  have s2: "push_bit 4 (sx2 a 0) = 0" for a
    using sextets_second [of a 0 0] by (simp add: z)
  from x consider a where "x = [a]" | a b where "x = [a, b]" | a b c where "x = [a, b, c]"
    by (cases x; cases "tl x"; cases "tl (tl x)") auto
  then show ?thesis
  proof cases
    case 1
    then show ?thesis using sp dp
      by (simp add: decrypt_last_def uj rd_def wr_def nth_append list_update_append tail_zeros_def
          sextets_first s2 rep mult.commute)
  next
    case 2
    then show ?thesis using sp dp
      by (simp add: decrypt_last_def uj rd_def wr_def nth_append list_update_append tail_zeros_def
          sextets_first sextets_second rep mult.commute)
  next
    case 3
    then show ?thesis using sp dp
      by (simp add: decrypt_last_def uj tail_zeros_def decrypt_block_ok mult.commute
          sextets_first sextets_second sextets_third rep)
  qed
qed

lemma triples_arith:
  fixes n c :: nat
  assumes "1 \<le> n" and "c = (n + 2) div 3"
  shows "3 * (c - 1) < n" "n - 3 * (c - 1) \<le> 3" "(n - 3 * (c - 1)) mod 3 = n mod 3"
    "3 * (c - 1) + (n - 3 * (c - 1)) = n" "n mod 3 = 1 \<longrightarrow> n + 2 = 3 * c" "n mod 3 = 2 \<longrightarrow> n + 1 = 3 * c"
    "n mod 3 = 0 \<longrightarrow> n = 3 * c"
proof -
  define q r where "q = (n - 1) div 3" and "r = (n - 1) mod 3"
  have n: "n = 3 * q + r + 1" and r: "r < 3" using assms(1) by (simp_all add: q_def r_def)
  have "n + 2 = (n - 1) + 3" using assms(1) by simp
  then have c: "c = q + 1" by (simp add: assms(2) q_def)
  have "r = 0 \<or> r = 1 \<or> r = 2" using r by linarith
  then show "3 * (c - 1) < n" "n - 3 * (c - 1) \<le> 3" "(n - 3 * (c - 1)) mod 3 = n mod 3"
    "3 * (c - 1) + (n - 3 * (c - 1)) = n" "n mod 3 = 1 \<longrightarrow> n + 2 = 3 * c" "n mod 3 = 2 \<longrightarrow> n + 1 = 3 * c"
    "n mod 3 = 0 \<longrightarrow> n = 3 * c"
    by (auto simp: n c) presburger
qed

lemma decrypt_text:
  assumes ne: "src \<noteq> []" and len: "length src \<le> 768"
    and low: "\<forall>v \<in> set (sextets src). unat v < 62"
  shows "Base64_decrypt heap (b64_text src) =
    (if 0 \<in> set (sextets src) \<or> length src mod 3 = 1 \<or> heap (length (sextets src)) = 0
     then Some (0, Some (src @ tail_zeros (length src))) else None)"
proof -
  let ?n = "length src" and ?T = "b64_text src" and ?S = "sextets src"
  define c where "c = (?n + 2) div 3"
  define z where "z = (if ?n mod 3 = 1 then [0 :: uchar] else [])"
  define e where "e = (?n mod 3 \<noteq> 0)"
  have c1: "1 \<le> c" "c \<le> 256" using ne len unfolding c_def by (cases src; simp)+
  have lenT: "length ?T = 4 * c" by (simp add: length_b64_text c_def)
  have L: "4 * c = length ?S + length (pads ?n)" by (simp add: length_sextets c_def)
  have val: "get_base64_value (b64_char v) = v" if "v \<in> set ?S" for v
    using table_facts(3) [of "unat v"] low that by (auto simp: b64_char_def)
  have chars: "is_base64_alphabet (b64_char v) \<and> b64_char v \<noteq> pad_char" if "v \<in> set ?S" for v
    using table_facts(1,2) [of "unat v"] sextets_bound that by (auto simp: b64_char_def)
  have alpha: "list_all is_base64_alphabet ?T"
    using chars by (auto simp: b64_text_sextets list_all_iff pads_def pad_char_def is_base64_alphabet_def)
  have eq: "search_str ?T [pad_char] = of_bool e"
  proof -
    have "pad_char \<notin> b64_char ` set ?S" using chars by force
    then show ?thesis by (auto simp: search_str_char b64_text_sextets pads_def e_def)
  qed
  have vpad: "get_base64_value pad_char = 0" by (simp add: get_base64_value_def pad_char_def other_value_def)
  have cut: "nat (int (4 * c) - of_bool e) = 4 * c - of_bool e" by (cases e; simp; arith)
  have take: "map get_base64_value (take (4 * c - of_bool e) ?T) = ?S @ z"
  proof -
    have "take (4 * c - of_bool e) ?T = map b64_char ?S @ (if ?n mod 3 = 1 then [pad_char] else [])"
      unfolding L b64_text_sextets by (auto simp: pads_def e_def)
    then show ?thesis using val vpad by (auto simp: z_def intro: map_idI)
  qed
  let ?Z = "0 \<in> set ?S \<or> ?n mod 3 = 1 \<or> heap (length ?S) = 0"
  have h: "0 \<in> set (?S @ z @ [heap (4 * c - of_bool e)]) \<longleftrightarrow> ?Z"
  proof (cases "?n mod 3 = 1")
    case False
    then have "4 * c - of_bool e = length ?S" unfolding L by (auto simp: pads_def e_def)
    with False show ?thesis by (auto simp: z_def)
  qed (simp add: z_def)
  have fixed: "terminate (?S @ z @ [heap (4 * c - of_bool e)]) =
      (if ?Z then Some (?S @ z @ [heap (4 * c - of_bool e)]) else None)"
    using h terminate_id [of "?S @ z @ [heap (4 * c - of_bool e)]"] by (auto simp: terminate_def)
  have cnt: "(of_nat (4 * c div 4) :: uint) = of_nat c" by simp
  let ?x = "drop (3 * (c - 1)) src"
  have n1: "1 \<le> ?n" using ne by (cases src) auto
  note ar = triples_arith [OF n1 c_def]
  have ml: "length ?x = ?n - 3 * (c - 1)" "length ?x mod 3 = ?n mod 3" "length ?x \<le> 3" "?x \<noteq> []"
    "length (take (3 * (c - 1)) src) = 3 * (c - 1)"
    using ar by auto
  define dl where "dl = 3 * (c - 1) + (length ?x + length (tail_zeros (length ?x)))"
  have "?n mod 3 = 0 \<or> ?n mod 3 = 1 \<or> ?n mod 3 = 2" by linarith
  then have dl: "dl = (if e then 3 * c else 3 * c + 1)"
    using ar(4-7) unfolding dl_def e_def tail_zeros_def ml(2) unfolding ml(1) by auto
  have dst: "unat ((if (of_bool e :: int) = 0 then of_nat c * 3 else if (of_bool e :: int) = 1 then of_nat c * 3 - 1
      else if (of_bool e :: int) = 2 then of_nat c * 3 - 2 else 0) + 1 :: uint) = dl"
  proof -
    have "(if (of_bool e :: int) = 0 then of_nat c * 3 else if (of_bool e :: int) = 1 then of_nat c * 3 - 1
      else if (of_bool e :: int) = 2 then of_nat c * 3 - 2 else 0) + 1 = (of_nat dl :: uint)"
      unfolding dl by (cases e) auto
    then show ?thesis using dl c1 by (simp only: unat_of_nat) (auto split: if_splits)
  qed
  have uc: "(of_nat c - 1 :: uint) = of_nat (c - 1)" using c1 by simp
  have un: "unat (of_nat (c - 1) :: uint) = c - 1" using c1 by (simp only: unat_of_nat) simp
  have ul: "ucast (of_nat (c - 1) :: uint) = (of_nat (c - 1) :: uchar)"
  proof -
    have "ucast (of_nat d :: uint) = (of_nat d :: uchar)" if "d < 256" for d
      using that by (simp add: unsigned_of_nat take_bit_nat_eq_self)
    moreover have "c - 1 < 256" using c1 by simp
    ultimately show ?thesis by blast
  qed
  have ssplit: "?S = sextets (take (3 * (c - 1)) src) @ sextets ?x"
    using sextets_append [of "take (3 * (c - 1)) src" ?x] ml(5) by simp
  let ?h = "heap (4 * c - of_bool e)" and ?k = "length ?x + length (tail_zeros (length ?x))"
  let ?sp = "sextets (take (3 * (c - 1)) src)" and ?dp = "take (3 * (c - 1)) src"
  have lensp: "length ?sp = 4 * (c - 1)"
    using length_sextets [of ?dp] unfolding ml(5) by (simp add: pads_def)
  have zx: "z = (if length ?x mod 3 = 1 then [0] else [])" "of_bool e = (of_bool (length ?x mod 3 \<noteq> 0) :: int)"
    using ml by (simp_all add: z_def e_def)
  have loop: "decrypt_loop (?S @ z @ [?h]) (c - 1) 0 (replicate dl 0) = Some (?dp @ replicate ?k 0)"
    using decrypt_loop_ok [of "[]" 0 "[]" "c - 1" src "sextets ?x @ z @ [?h]" ?k] c1 ml
    unfolding ssplit dl_def by simp
  have last: "decrypt_last (?S @ z @ [?h]) (of_nat (c - 1)) (of_bool e) (?dp @ replicate ?k 0) =
      Some (?dp @ ?x @ tail_zeros (length ?x))"
    unfolding ssplit zx append_assoc 
  proof (rule decrypt_last_ok)
    show "c - 1 < 256" using c1 by linarith
  qed (use lensp ml in auto)
  have tz: "tail_zeros (length ?x) = tail_zeros ?n" by (simp only: tail_zeros_def ml(2))
  have e2: "\<not> (2 :: int) < of_bool e" by simp
  have dx: "?dp @ ?x @ t = src @ t" for t by (metis append_assoc append_take_drop_id)
  show ?thesis
  proof (cases ?Z)
    case True
    then show ?thesis
      unfolding Base64_decrypt_def Let_def lenT eq cut take append_assoc dst cnt uc un ul
      using alpha e2 by (simp only: fixed loop last [unfolded tz] tz dx if_False if_True not_True_eq_False simp_thms
          Option.bind.bind_lunit mult_is_0 mod_mult_self1_is_0 mod_mult_self2_is_0)
  next
    case False
    then show ?thesis
      unfolding Base64_decrypt_def Let_def lenT eq cut take append_assoc dst cnt uc un ul
      using alpha e2 by (simp only: fixed if_False if_True not_True_eq_False simp_thms
          Option.bind.bind_lzero mult_is_0 mod_mult_self1_is_0 mod_mult_self2_is_0)
  qed
qed

text \<open>Where the decoder writes: the cells outside the blocks it decodes keep their value.\<close>

lemma wr_frame: "wr xs i v = Some ys \<Longrightarrow> length ys = length xs \<and> (\<forall>k. k \<noteq> i \<longrightarrow> ys ! k = xs ! k)"
  by (auto simp: wr_def split: if_splits)

lemma decrypt_block_frame:
  assumes "decrypt_block arr i4 i3 dst = Some dst'"
  shows "length dst' = length dst \<and> (\<forall>k. i3 + 3 \<le> k \<longrightarrow> dst' ! k = dst ! k)"
proof -
  from assms obtain v1 v2 v3 d1 d2 where "wr dst i3 v1 = Some d1" "wr d1 (i3 + 1) v2 = Some d2"
    "wr d2 (i3 + 2) v3 = Some dst'"
    by (auto simp: decrypt_block_def bind_eq_Some_conv)
  from this [THEN wr_frame] show ?thesis by auto
qed

lemma decrypt_loop_frame:
  assumes "decrypt_loop arr n (of_nat j) dst = Some dst'" and "3 * (j + n) < 2 ^ 32"
  shows "length dst' = length dst \<and> (\<forall>k. 3 * (j + n) \<le> k \<longrightarrow> dst' ! k = dst ! k)"
  using assms
proof (induction n arbitrary: j dst)
  case (Suc n)
  have i: "ix (of_nat j) 3 0 = 3 * j" using Suc.prems by (subst ix_of_nat; simp)
  from Suc.prems obtain d where blk: "decrypt_block arr (ix (of_nat j) 4 0) (3 * j) dst = Some d"
    and rec: "decrypt_loop arr n (of_nat (Suc j)) d = Some dst'"
    by (auto simp: i add.commute split: bind_splits)
  from decrypt_block_frame [OF blk] Suc.IH [OF rec] Suc.prems show ?case by auto
qed simp

lemma decrypt_block_total:
  "i4 + 3 < length arr \<Longrightarrow> i3 + 2 < length dst \<Longrightarrow> \<exists>d. decrypt_block arr i4 i3 dst = Some d"
  by (simp add: decrypt_block_def rd_def wr_def)

lemma decrypt_loop_total:
  assumes "4 * (j + n) \<le> length arr" and "3 * (j + n) \<le> length dst" and "4 * (j + n) < 2 ^ 32"
  shows "\<exists>d. decrypt_loop arr n (of_nat j) dst = Some d"
  using assms
proof (induction n arbitrary: j dst)
  case (Suc n)
  have i: "ix (of_nat j) 4 0 = 4 * j" "ix (of_nat j) 3 0 = 3 * j"
    using Suc.prems by (subst ix_of_nat; simp)+
  obtain d where blk: "decrypt_block arr (4 * j) (3 * j) dst = Some d"
    using decrypt_block_total [of "4 * j" arr "3 * j" dst] Suc.prems by auto
  have "length d = length dst" using decrypt_block_frame [OF blk] by simp
  then obtain d' where "decrypt_loop arr n (of_nat (Suc j)) d = Some d'"
    using Suc.IH [of "Suc j" d] Suc.prems by auto
  with blk show ?case by (simp add: i add.commute)
qed simp

lemma decrypt_no_pads:
  assumes len: "length T = 4 * c" and c: "256 < c" "c < 2 ^ 30" and pad: "pad_char \<notin> set T"
    and alpha: "list_all is_base64_alphabet T" and z: "heap (4 * c) = 0"
  shows "\<exists>dst. Base64_decrypt heap T = Some (0, Some dst) \<and> length dst = 3 * c + 1 \<and>
    (\<forall>k. 3 * (c - 1) \<le> k \<and> k < 3 * c \<longrightarrow> dst ! k = 0)"
proof -
  have uc: "(of_nat c - 1 :: uint) = of_nat (c - 1)" using c(1) by simp
  have un: "unat (of_nat (c - 1) :: uint) = c - 1" using c(2) by (simp only: unat_of_nat) simp
  have ud: "unat (of_nat c * 3 + 1 :: uint) = 3 * c + 1"
  proof -
    have "of_nat c * 3 + 1 = (of_nat (3 * c + 1) :: uint)" by simp
    then have "unat (of_nat c * 3 + 1 :: uint) = (3 * c + 1) mod 2 ^ 32" by (simp only: unat_of_nat) simp
    then show ?thesis using c(2) by simp
  qed
  have cnt: "(of_nat (4 * c div 4) :: uint) = of_nat c" by simp
  define l where "l = (ucast (of_nat (c - 1) :: uint) :: uchar)"
  let ?arr = "map get_base64_value T @ [heap (4 * c)]"
  have "unat l < 2 ^ LENGTH(8)" by (rule unsigned_less)
  then have lb: "unat l * 3 + 3 \<le> 3 * (c - 1)" using c(1) by simp
  have eq: "search_str T [pad_char] = 0" using pad by (simp add: search_str_char)
  have arr: "map get_base64_value (take (nat (int (4 * c) - 0)) T) @ [heap (nat (int (4 * c) - 0))] = ?arr"
  proof -
    have "nat (int (4 * c) - 0) = 4 * c" by arith
    then show ?thesis using len by simp
  qed
  have fixed: "terminate ?arr = Some ?arr" using z by (intro terminate_id) simp
  have "\<exists>d. decrypt_loop ?arr (c - 1) (of_nat 0) (replicate (3 * c + 1) 0) = Some d"
  proof (rule decrypt_loop_total)
    show "4 * (0 + (c - 1)) \<le> length ?arr" using len by (simp; linarith)
  qed (use c in auto)
  then obtain d where loop: "decrypt_loop ?arr (c - 1) (of_nat 0) (replicate (3 * c + 1) 0) = Some d"
    by blast
  have d: "length d = 3 * c + 1" "\<forall>k. 3 * (c - 1) \<le> k \<longrightarrow> d ! k = replicate (3 * c + 1) 0 ! k"
    using decrypt_loop_frame [OF loop] c(2) by auto
  have "\<exists>dst. decrypt_block ?arr (unat l * 4) (unat l * 3) d = Some dst"
  proof (rule decrypt_block_total)
    have "unat l * 4 + 4 \<le> 4 * (c - 1)" using lb by linarith
    then show "unat l * 4 + 3 < length ?arr" using len c(1) by (simp; linarith)
    show "unat l * 3 + 2 < length d" using lb d(1) by linarith
  qed
  then obtain dst where blk: "decrypt_block ?arr (unat l * 4) (unat l * 3) d = Some dst" by blast
  have last: "decrypt_last ?arr l 0 d = Some dst" using blk by (simp add: decrypt_last_def l_def)
  have "Base64_decrypt heap T = Some (0, Some dst)"
    unfolding Base64_decrypt_def Let_def len cnt uc un eq arr l_def [symmetric]
    using alpha loop last by (simp add: fixed ud del: of_nat_diff)
  moreover have "length dst = 3 * c + 1 \<and> (\<forall>k. 3 * (c - 1) \<le> k \<and> k < 3 * c \<longrightarrow> dst ! k = 0)"
    using decrypt_block_frame [OF blk] lb d by auto
  ultimately show ?thesis by blast
qed

lemma decrypt_cases:
  "Base64_decrypt heap T \<in>
     (if length T mod 4 \<noteq> 0 then {Some (-1, None)}
      else if \<not> list_all is_base64_alphabet T then {Some (-2, None)}
      else insert None {Some (0, Some dst) | dst. True})"
proof -
  have "\<not> (2 :: int) < search_str T [pad_char]" by (simp add: search_str_char)
  then have "\<exists>dst. r = (0, Some dst)"
    if "Base64_decrypt heap T = Some r" "length T mod 4 = 0" "list_all is_base64_alphabet T" for r
    using that by (auto simp: Base64_decrypt_def Let_def bind_eq_Some_conv)
  moreover have "\<not> list_all is_base64_alphabet T \<Longrightarrow> length T mod 4 = 0 \<Longrightarrow>
      Base64_decrypt heap T = Some (-2, None)"
    and "length T mod 4 \<noteq> 0 \<Longrightarrow> Base64_decrypt heap T = Some (-1, None)"
    by (simp_all only: Base64_decrypt_def if_True if_False not_False_eq_True simp_thms)
  ultimately show ?thesis by (cases "Base64_decrypt heap T") auto
qed

definition plus_slash_to_A :: "uchar \<Rightarrow> uchar" where
  "plus_slash_to_A ch = (if ch = 43 \<or> ch = 47 then 65 else ch)"

lemma decrypt_plus_slash: "Base64_decrypt heap (map plus_slash_to_A T) = Base64_decrypt heap T"
proof -
  have a: "is_base64_alphabet (plus_slash_to_A ch) = is_base64_alphabet ch" for ch
    by (simp add: plus_slash_to_A_def is_base64_alphabet_def)
  have v: "get_base64_value (plus_slash_to_A ch) = get_base64_value ch" for ch
    by (cases "ch = 43 \<or> ch = 47") (auto simp: plus_slash_to_A_def get_base64_value_def other_value_def)
  have p: "pad_char \<in> set (map plus_slash_to_A T) \<longleftrightarrow> pad_char \<in> set T"
    by (auto simp: plus_slash_to_A_def pad_char_def image_iff)
  have t: "map get_base64_value (take n (map plus_slash_to_A T)) = map get_base64_value (take n T)" for n
    by (simp add: take_map v comp_def)
  have al: "list_all is_base64_alphabet (map plus_slash_to_A T) = list_all is_base64_alphabet T"
    by (simp add: list_all_iff a)
  show ?thesis
    unfolding Base64_decrypt_def search_str_char p t al length_map by (rule refl)
qed

lemma decrypt_empty: "Base64_decrypt heap [] = None"
proof -
  obtain k where k: "unat (- 1 :: uint) = Suc k"
    by (cases "unat (- 1 :: uint)") (auto simp: unsigned_minus_1_eq_mask mask_eq_exp_minus_1)
  show ?thesis
    by (auto simp: Base64_decrypt_def search_str_char k terminate_def decrypt_block_def ix_def rd_def wr_def
        split: bind_splits)
qed

section \<open>The reference\<close>

text \<open>
  RFC 4648, section 4, without a word of the code: three bytes are a number of 24 bits, its four
  digits to the base 64 are characters of the alphabet; the bits that one or two bytes at the
  end leave open are zero, and \<open>=\<close> (61) fills the group of four. The alphabet is that of table 1.
\<close>

definition rfc_char :: "nat \<Rightarrow> uchar" where
  "rfc_char v = word_of_nat (if v < 26 then 65 + v else if v < 52 then 97 + (v - 26)
     else if v < 62 then 48 + (v - 52) else if v = 62 then 43 else 47)"

definition rfc_group :: "nat \<Rightarrow> nat \<Rightarrow> nat \<Rightarrow> nat list" where
  "rfc_group a b c = (let g = 65536 * a + 256 * b + c in [g div 262144, g div 4096 mod 64, g div 64 mod 64, g mod 64])"

fun rfc_digits :: "nat list \<Rightarrow> nat list" where
  "rfc_digits [] = []"
| "rfc_digits [a] = take 2 (rfc_group a 0 0)"
| "rfc_digits [a, b] = take 3 (rfc_group a b 0)"
| "rfc_digits (a # b # c # r) = rfc_group a b c @ rfc_digits r"

definition rfc4648 :: "uchar list \<Rightarrow> uchar list" where
  "rfc4648 src = map rfc_char (rfc_digits (map unat src)) @ replicate ((3 - length src mod 3) mod 3) 61"

lemma rfc_group_split:
  assumes "r < 4" and "s < 16" and "t < 16" and "u < 4" and "w < 64"
  shows "rfc_group (4 * q + r) (16 * s + t) (64 * u + w) = [q, 16 * r + s, 4 * t + u, w]"
proof -
  let ?g = "65536 * (4 * q + r) + 256 * (16 * s + t) + (64 * u + w)"
  have "?g div 262144 = q" by (rule div_nat_eqI) (use assms in simp_all)
  moreover have "?g div 4096 = 64 * q + (16 * r + s)" by (rule div_nat_eqI) (use assms in simp_all)
  moreover have "?g div 64 = 64 * (64 * q + (16 * r + s)) + (4 * t + u)" by (rule div_nat_eqI) (use assms in simp_all)
  moreover have "?g = 64 * (64 * (64 * q + (16 * r + s)) + (4 * t + u)) + w" by simp
  then have "?g mod 64 = w" using assms(5) by (metis mod_mult_self4 mod_less)
  moreover have "(64 * q + (16 * r + s)) mod 64 = 16 * r + s" using assms by simp
  moreover have "(64 * (64 * q + (16 * r + s)) + (4 * t + u)) mod 64 = 4 * t + u"
    using assms by (subst mod_mult_self4) simp
  ultimately show ?thesis unfolding rfc_group_def Let_def by simp
qed

lemma or_add:
  fixes w :: uchar
  assumes "unat v < 2 ^ k"
  shows "push_bit k w OR v = push_bit k w + v"
proof -
  have "\<not> bit v n" if "k \<le> n" for n
  proof -
    have "unat v < 2 ^ n" using assms that by (meson less_le_trans one_le_numeral power_increasing)
    then have "\<not> bit (unat v) n" by (simp add: bit_iff_odd)
    then show ?thesis by (auto simp: bit_unsigned_iff dest: bit_imp_le_length)
  qed
  then show ?thesis by (intro disjunctive_add [symmetric]) (auto simp: bit_push_bit_iff not_le)
qed

lemma unat_groups:
  "unat (drop_bit 2 (w :: uchar)) = unat w div 4" "unat (drop_bit 4 w) = unat w div 16"
  "unat (drop_bit 6 w) = unat w div 64" "unat (w AND 3) = unat w mod 4"
  "unat (w AND 15) = unat w mod 16" "unat (w AND 63) = unat w mod 64"
proof -
  show "unat (drop_bit 2 w) = unat w div 4" "unat (drop_bit 4 w) = unat w div 16"
    "unat (drop_bit 6 w) = unat w div 64" by (simp_all add: drop_bit_eq_div unat_div)
  have m: "unat (w AND mask n) = unat w mod 2 ^ n" for n
    by (metis take_bit_eq_mask take_bit_eq_mod unsigned_take_bit_eq)
  show "unat (w AND 3) = unat w mod 4" using m [of 2] by (simp add: masks)
  show "unat (w AND 15) = unat w mod 16" using m [of 4] by (simp add: masks)
  show "unat (w AND 63) = unat w mod 64" using m [of 6] by (simp add: masks)
qed
lemma unat_sextets:
  assumes "unat a = 4 * q + r" and "r < 4" and "unat b = 16 * s + t" and "t < 16" and "unat c = 64 * u + w" and "w < 64"
  shows "unat (sx1 a) = q" "unat (sx2 a b) = 16 * r + s" "unat (sx3 b c) = 4 * t + u" "unat (sx4 c) = w"
proof -
  have byte: "unat x < 256" for x :: uchar using unsigned_less [of x] by simp
  have s: "s < 16" and u: "u < 4" using byte [of b] byte [of c] assms by simp_all
  show "unat (sx1 a) = q" "unat (sx4 c) = w" using assms by (simp_all add: sx_defs unat_groups)
  have "unat (drop_bit 4 b) = s" "unat (a AND 3) = r" using assms s by (simp_all add: unat_groups)
  then show "unat (sx2 a b) = 16 * r + s"
    using or_add [of "drop_bit 4 b" 4 "a AND 3"] s assms(2)
    by (simp add: sx2_def push_bit_eq_mult unat_word_ariths)
  have "unat (drop_bit 6 c) = u" "unat (b AND 15) = t" using assms u by (simp_all add: unat_groups)
  then show "unat (sx3 b c) = 4 * t + u"
    using or_add [of "drop_bit 6 c" 2 "b AND 15"] u assms(4)
    by (simp add: sx3_def push_bit_eq_mult unat_word_ariths)
qed

lemma rfc_group_sextets:
  "rfc_group (unat a) (unat b) (unat c) = map unat [sx1 a, sx2 a b, sx3 b c, sx4 c]"
proof -
  have parts: "unat a = 4 * (unat a div 4) + unat a mod 4" "unat b = 16 * (unat b div 16) + unat b mod 16"
    "unat c = 64 * (unat c div 64) + unat c mod 64" by simp_all
  have small: "unat a mod 4 < 4" "unat b mod 16 < 16" "unat c mod 64 < 64" "unat b div 16 < 16" "unat c div 64 < 4"
    using unsigned_less [of b, where ?'a = nat] unsigned_less [of c, where ?'a = nat] by simp_all
  note r = rfc_group_split [OF small(1,4,2,5,3), of "unat a div 4", folded parts]
  show ?thesis
    unfolding r using unat_sextets [OF parts(1) small(1) parts(2) small(2) parts(3) small(3)]
    by (simp only: list.map)
qed

lemma rfc_digits_sextets: "rfc_digits (map unat src) = map unat (sextets src)"
proof (induction src rule: sextets.induct)
  case (2 a)
  then show ?case using rfc_group_sextets [of a 0 0] by (simp add: numeral_2_eq_2)
next
  case (3 a b)
  then show ?case using rfc_group_sextets [of a b 0] by (simp add: numeral_3_eq_3)
next
  case (4 a b c r)
  then show ?case using rfc_group_sextets [of a b c] by simp
qed simp

lemma rfc_char_table: "map rfc_char [0..<64] = base64"
  unfolding base64_bytes by (simp add: upt_conv_Cons rfc_char_def)

lemma rfc_char_b64: "unat v < 64 \<Longrightarrow> rfc_char (unat v) = b64_char v"
  unfolding b64_char_def rfc_char_table [symmetric] by simp

lemma rfc_pads: "replicate ((3 - n mod 3) mod 3) 61 = pads n"
proof -
  have "n mod 3 < 3" by simp
  then consider "n mod 3 = 0" | "n mod 3 = 1" | "n mod 3 = 2" by linarith
  then show ?thesis by cases (simp_all add: pads_def pad_char_def numeral_2_eq_2)
qed

lemma rfc4648_b64: "rfc4648 src = b64_text src"
proof -
  have "map rfc_char (rfc_digits (map unat src)) = map b64_char (sextets src)"
    unfolding rfc_digits_sextets map_map comp_def by (rule map_cong) (simp_all add: sextets_bound rfc_char_b64)
  then show ?thesis unfolding rfc4648_def b64_text_sextets rfc_pads by simp
qed

section \<open>Properties\<close>

text \<open>
  C17: the encoder writes the RFC 4648 text of its input, NUL-terminated, and returns 0, for
  every non-empty input whose text fits in 32 bits; no access is out of bounds. The reference
  shares nothing with the code: it has its own alphabet and takes the digits of numbers.
\<close>

theorem Base64_encrypt_correct:
  assumes "src \<noteq> []" and "4 * ((length src + 2) div 3) + 1 < 2 ^ 32"
  shows "Base64_encrypt src (of_nat (length src)) = Some (0, rfc4648 src @ [0])"
  using encrypt_text [OF assms] by (simp add: rfc4648_b64)

theorem Base64_encrypt_correct_witness:
  "Base64_encrypt [72, 105, 33, 10] 4 = Some (0, map of_char ''SGkhCg=='' @ [0])"
proof -
  have "rfc4648 [72, 105, 33, 10] = map of_char ''SGkhCg==''"
    by (simp add: rfc4648_def rfc_group_def rfc_char_def Let_def) (simp add: numeral_2_eq_2)
  with Base64_encrypt_correct [of "[72, 105, 33, 10]"] show ?thesis by simp
qed

text \<open>
  C16: decoding undoes encoding, where it is defined: for an input of 1 to 768 bytes without a group of
  six bits equal to 62 or 63, the decoder returns the input, followed by its terminating NUL
  (and one further NUL where the text ends in two padding characters), exactly if the working array
  has a zero byte: a group of six bits that is zero, a padding character decoded as one, or the
  byte after the array's contents, which the code never sets and \<open>new\<close> leaves as it was
  (\<open>heap\<close>). Without one, the behaviour is undefined: \<open>strlen\<close> runs past the array.
\<close>

theorem Base64_roundtrip:
  assumes "src \<noteq> []" and "length src \<le> 768"
    and "\<forall>v \<in> set (rfc_digits (map unat src)). v < 62"
  shows "\<exists>code. Base64_encrypt src (of_nat (length src)) = Some (0, code @ [0]) \<and>
     Base64_decrypt heap code =
       (if 0 \<in> set (rfc_digits (map unat src)) \<or> length src mod 3 = 1
           \<or> heap (length (rfc_digits (map unat src))) = 0
        then Some (0, Some (src @ (if length src mod 3 = 1 then [0, 0] else [0]))) else None)"
proof -
  have "4 * ((length src + 2) div 3) + 1 < 2 ^ 32" using assms(2) by simp
  note e = encrypt_text [OF assms(1) this]
  have "\<forall>v \<in> set (sextets src). unat v < 62" using assms(3) by (simp add: rfc_digits_sextets)
  note d = decrypt_text [OF assms(1,2) this, of heap]
  have z: "0 \<in> set (rfc_digits (map unat src)) \<longleftrightarrow> 0 \<in> set (sextets src)"
    "length (rfc_digits (map unat src)) = length (sextets src)"
    by (auto simp: rfc_digits_sextets image_iff unat_eq_0)
  show ?thesis using e d unfolding z tail_zeros_def by blast
qed

theorem Base64_roundtrip_witness:
  "\<exists>code. Base64_encrypt [72, 105] 2 = Some (0, code @ [0]) \<and>
     Base64_decrypt (\<lambda>_. 0) code = Some (0, Some [72, 105, 0]) \<and> Base64_decrypt (\<lambda>_. 1) code = None"
proof -
  have "rfc_digits (map unat [72 :: uchar, 105]) = [18, 6, 36]"
    by (simp add: rfc_group_def Let_def)
  then have f: "\<forall>v \<in> set (rfc_digits (map unat [72 :: uchar, 105])). v < 62"
    "0 \<notin> set (rfc_digits (map unat [72 :: uchar, 105]))" by (simp_all only:) simp_all
  have e: "Base64_encrypt [72, 105] 2 = Some (0, map of_char ''SGk='' @ [0])" by code_simp
  have "(2 :: nat) mod 3 = 2" by simp
  with Base64_roundtrip [of "[72, 105]" "\<lambda>_. 0"] Base64_roundtrip [of "[72, 105]" "\<lambda>_. 1"] e f
  show ?thesis by (auto simp: numeral_2_eq_2)
qed

text \<open>
  C36: The decoder classifies its input: -1 exactly when the length is not a multiple of
  four, else -2 exactly when a character is not of the alphabet, and otherwise it never
  reports an error: the test for more than two padding characters cannot fail, because
  \<open>search_str\<close> counts in a \<open>bool\<close>.
\<close>

theorem Base64_decrypt_errors:
  "Base64_decrypt heap text \<in>
     (if length text mod 4 \<noteq> 0 then {Some (-1, None)}
      else if \<not> list_all is_base64_alphabet text then {Some (-2, None)}
      else insert None {Some (0, Some dst) | dst. True})"
  by (rule decrypt_cases)

text \<open>
  The decoder does not tell \<open>+\<close> and \<open>/\<close> from \<open>A\<close>: the \<open>switch\<close> that should give them
  62 and 63 falls through to 0. So every input with such a group of bits is decoded wrongly.
\<close>

lemma Base64_decrypt_loses_62_63:
  "Base64_decrypt heap (map plus_slash_to_A text) = Base64_decrypt heap text \<and>
   Base64_encrypt [255, 255, 255] 3 = Some (0, [47, 47, 47, 47, 0]) \<and>
   Base64_decrypt heap [47, 47, 47, 47] = Some (0, Some [0, 0, 0, 0])"
proof -
  have e: "Base64_encrypt [255, 255, 255] 3 = Some (0, [47, 47, 47, 47, 0])" by code_simp
  have t: "b64_text [0, 0, 0] = map plus_slash_to_A [47, 47, 47, 47]" by code_simp
  have z: "tail_zeros (length [0 :: uchar, 0, 0]) = [0]" by code_simp
  have "0 \<in> set (sextets [0, 0, 0])" "\<forall>v \<in> set (sextets [0, 0, 0]). unat v < 62" by (simp_all add: sx_defs)
  then have "Base64_decrypt heap (b64_text [0, 0, 0]) = Some (0, Some ([0, 0, 0] @ tail_zeros (length [0 :: uchar, 0, 0])))"
    using decrypt_text [of "[0, 0, 0]" heap] by simp
  then have "Base64_decrypt heap [47, 47, 47, 47] = Some (0, Some [0, 0, 0, 0])"
    unfolding t z decrypt_plus_slash by simp
  with e decrypt_plus_slash show ?thesis by blast
qed

text \<open>
  The index of the last block is kept in an \<open>unsigned char\<close>. A text of more than 256
  blocks without padding is decoded to a buffer of the right length whose last three bytes
  are zero, whatever the text says: the last block is written over an earlier one.
\<close>

lemma Base64_decrypt_long_text:
  assumes "length text = 4 * c" and "256 < c" and "c < 2 ^ 30" and "pad_char \<notin> set text"
    and "list_all is_base64_alphabet text" and "heap (4 * c) = 0"
  shows "\<exists>dst. Base64_decrypt heap text = Some (0, Some dst) \<and> length dst = 3 * c + 1 \<and>
     (\<forall>k. 3 * (c - 1) \<le> k \<and> k < 3 * c \<longrightarrow> dst ! k = 0)"
  using assms by (rule decrypt_no_pads)

theorem Base64_decrypt_long_text_witness:
  "\<exists>dst. Base64_decrypt (\<lambda>_. 0) (replicate 1028 122) = Some (0, Some dst) \<and> dst ! 770 = 0"
proof -
  have "\<exists>dst. Base64_decrypt (\<lambda>_. 0) (replicate 1028 122) = Some (0, Some dst) \<and> length dst = 3 * 257 + 1 \<and>
     (\<forall>k. 3 * (257 - 1) \<le> k \<and> k < 3 * 257 \<longrightarrow> dst ! k = 0)"
    by (rule Base64_decrypt_long_text) (simp_all add: pad_char_def list_all_iff is_base64_alphabet_def)
  then show ?thesis by auto
qed

text \<open>Neither direction handles the empty input: both run over the end of a buffer.\<close>

lemma Base64_empty_undefined: "Base64_encrypt pSrc 0 = None \<and> Base64_decrypt heap [] = None"
  using encrypt_empty decrypt_empty by blast

end
