(* ===== verification/Printf.thy ===== *)
theory Printf
  imports Cpp_Prelude
begin

text \<open>
  The part of C's \<open>printf\<close> that the sources use: strings, decimal and hexadecimal numbers, a
  minimum width, zeros on the left, and the length modifiers \<open>l\<close> and \<open>ll\<close>. A directive without an
  argument of its type is undefined behaviour; a signed argument may stand for an unsigned one of
  the same size, and the other way round, if the value is one of both types. Second, the type
  system of these formats, and that it is exact.
\<close>

section \<open>Hexadecimal printing\<close>

definition hex_char :: "nat \<Rightarrow> char" where
  "hex_char d = (if d < 10 then char_of (48 + d) else char_of (87 + d))"

fun show_hex :: "nat \<Rightarrow> string" where
  "show_hex n = (if n < 16 then [hex_char n] else show_hex (n div 16) @ [hex_char (n mod 16)])"

declare show_hex.simps [simp del]

lemma show_hex_length: "n < 16 ^ Suc k \<Longrightarrow> length (show_hex n) \<le> Suc k"
proof (induction k arbitrary: n)
  case 0
  then show ?case by (simp add: show_hex.simps [of n])
next
  case (Suc k)
  then have "n div 16 < 16 ^ Suc k" by (simp add: div_less_iff_less_mult)
  then have "length (show_hex (n div 16)) \<le> Suc k" by (rule Suc.IH)
  then show ?case by (simp add: show_hex.simps [of n])
qed

section \<open>Formats\<close>

text \<open>An argument carries its type after the promotions: a \<open>short\<close> has become an \<open>int\<close>.\<close>

datatype printf_arg = P_str string | P_int int | P_uint nat | P_long int | P_ulong nat | P_ullong nat

text \<open>Padding on the left; zeros go between the sign and the digits.\<close>

definition pad_left :: "bool \<Rightarrow> nat \<Rightarrow> string \<Rightarrow> string" where
  "pad_left zero w s =
     (if \<not> zero then replicate (w - length s) (CHR '' '') @ s
      else if s \<noteq> [] \<and> hd s = CHR ''-'' then CHR ''-'' # pad0 (w - 1) (tl s)
      else pad0 w s)"

fun read_width :: "nat \<Rightarrow> string \<Rightarrow> nat \<times> string" where
  "read_width w [] = (w, [])"
| "read_width w (c # s) =
     (if of_char c \<in> {48..57 :: nat} then read_width (10 * w + (of_char c - 48)) s else (w, c # s))"

text \<open>
  What stands after a \<open>%\<close>: whether to pad with zeros, the width, the number of \<open>l\<close>s, the conversion, and
  the rest.
\<close>

definition parse_directive :: "string \<Rightarrow> (bool \<times> nat \<times> nat \<times> char \<times> string) option" where
  "parse_directive s =
     (let zero = (s \<noteq> [] \<and> hd s = CHR ''0'');
          (w, s) = read_width 0 s;
          ls = length (takeWhile (\<lambda>c. c = CHR ''l'') s);
          s = dropWhile (\<lambda>c. c = CHR ''l'') s
      in case s of [] \<Rightarrow> None | c # s \<Rightarrow> Some (zero, w, ls, c, s))"

text \<open>The value of an argument as a signed or an unsigned number of the size that \<open>ls\<close> says.\<close>

fun signed_arg :: "nat \<Rightarrow> printf_arg \<Rightarrow> int option" where
  "signed_arg ls (P_str s) = None"
| "signed_arg ls (P_int i) = (if ls = 0 then Some i else None)"
| "signed_arg ls (P_uint n) = (if ls = 0 \<and> n < 2 ^ 31 then Some (int n) else None)"
| "signed_arg ls (P_long i) = (if ls = 1 then Some i else None)"
| "signed_arg ls (P_ulong n) = (if ls = 1 \<and> n < 2 ^ 63 then Some (int n) else None)"
| "signed_arg ls (P_ullong n) = (if ls = 2 \<and> n < 2 ^ 63 then Some (int n) else None)"

fun unsigned_arg :: "nat \<Rightarrow> printf_arg \<Rightarrow> nat option" where
  "unsigned_arg ls (P_str s) = None"
| "unsigned_arg ls (P_int i) = (if ls = 0 \<and> 0 \<le> i then Some (nat i) else None)"
| "unsigned_arg ls (P_uint n) = (if ls = 0 then Some n else None)"
| "unsigned_arg ls (P_long i) = (if ls = 1 \<and> 0 \<le> i then Some (nat i) else None)"
| "unsigned_arg ls (P_ulong n) = (if ls = 1 then Some n else None)"
| "unsigned_arg ls (P_ullong n) = (if ls = 2 then Some n else None)"

definition convert :: "bool \<Rightarrow> nat \<Rightarrow> nat \<Rightarrow> char \<Rightarrow> printf_arg \<Rightarrow> string option" where
  "convert zero w ls c a =
     (if c = CHR ''s'' then
        (case a of P_str s \<Rightarrow> if ls = 0 then Some (pad_left False w (c_str s)) else None | _ \<Rightarrow> None)
      else if c = CHR ''d'' then map_option (\<lambda>i. pad_left zero w (show_int i)) (signed_arg ls a)
      else if c = CHR ''u'' then map_option (\<lambda>n. pad_left zero w (show_nat n)) (unsigned_arg ls a)
      else if c = CHR ''x'' then map_option (\<lambda>n. pad_left zero w (show_hex n)) (unsigned_arg ls a)
      else None)"

lemma read_width_length: "length (snd (read_width w s)) \<le> length s"
  by (induction w s rule: read_width.induct) auto

lemma parse_directive_length:
  "parse_directive s = Some (zero, w, ls, c, rest) \<Longrightarrow> length rest < length s"
  using read_width_length [of 0 s] length_dropWhile_le [of "\<lambda>c. c = CHR ''l''" "snd (read_width 0 s)"]
  by (auto simp: parse_directive_def Let_def split: prod.splits list.splits)

function printf_text :: "string \<Rightarrow> printf_arg list \<Rightarrow> string option" where
  "printf_text [] args = Some []"
| "printf_text (c # fmt) args =
     (if c \<noteq> CHR ''%'' then map_option (\<lambda>t. c # t) (printf_text fmt args)
      else
        (case parse_directive fmt of
           None \<Rightarrow> None
         | Some (zero, w, ls, conv, rest) \<Rightarrow>
             (if conv = CHR ''%'' then map_option (\<lambda>t. conv # t) (printf_text rest args)
              else
                (case args of
                   [] \<Rightarrow> None
                 | a # args \<Rightarrow>
                     (case convert zero w ls conv a of
                        None \<Rightarrow> None
                      | Some s \<Rightarrow> map_option (\<lambda>t. s @ t) (printf_text rest args))))))"
  by pat_completeness auto
termination
  by (relation "measure (\<lambda>(fmt, args). length fmt)") (auto dest: parse_directive_length)

text \<open>\<open>vsnprintf\<close> of C99: the length of the text, and what of it fits before the final NUL.\<close>

definition vsnprintf :: "string \<Rightarrow> nat \<Rightarrow> int \<times> string" where
  "vsnprintf text sz = (int (length text), take (sz - 1) text)"

section \<open>No text holds a NUL\<close>

lemma of_char_hex_char: "d < 16 \<Longrightarrow> of_char (hex_char d) = (if d < 10 then 48 + d else 87 + d :: nat)"
  by (simp add: hex_char_def)

lemma show_hex_digits: "c \<in> set (show_hex n) \<Longrightarrow> \<exists>d < 16. c = hex_char d"
proof (induction n rule: show_hex.induct)
  case (1 n)
  then show ?case
    by (cases "n < 16") (auto simp: show_hex.simps [of n] intro: exI [of _ "n mod 16"])
qed

lemma show_hex_no_nul [text_simps]: "CHR 0x00 \<notin> set (show_hex n)"
proof
  assume "CHR 0x00 \<in> set (show_hex n)"
  then obtain d where d: "d < 16" "CHR 0x00 = hex_char d" using show_hex_digits by blast
  from of_char_hex_char [OF d(1)] show False unfolding d(2) [symmetric] by (simp split: if_splits)
qed

lemma pad_left_set: "set (pad_left zero w s) \<subseteq> set s \<union> {CHR '' '', CHR ''0'', CHR ''-''}"
  by (cases s) (auto simp: pad_left_def pad0_def)

lemma convert_no_nul: "convert zero w ls c a = Some t \<Longrightarrow> CHR 0x00 \<notin> set t"
proof -
  have pad: "CHR 0x00 \<notin> set s \<Longrightarrow> CHR 0x00 \<notin> set (pad_left z k s)" for z k s
    using pad_left_set [of z k s] by auto
  assume "convert zero w ls c a = Some t"
  then show ?thesis
    by (auto simp: convert_def show_int_def text_simps intro!: pad dest: c_str_set
        split: printf_arg.splits if_splits)
qed

lemma parse_directive_set: "parse_directive s = Some (zero, w, ls, c, rest) \<Longrightarrow> set (c # rest) \<subseteq> set s"
proof -
  have r: "set (snd (read_width k s)) \<subseteq> set s" for k
    by (induction k s rule: read_width.induct) auto
  assume p: "parse_directive s = Some (zero, w, ls, c, rest)"
  then have "dropWhile (\<lambda>c. c = CHR ''l'') (snd (read_width 0 s)) = c # rest"
    by (auto simp: parse_directive_def Let_def split: prod.splits list.splits)
  then show ?thesis using r [of 0] set_dropWhileD by (metis subsetI subsetD)
qed

lemma printf_text_no_nul:
  "printf_text fmt args = Some t \<Longrightarrow> CHR 0x00 \<notin> set fmt \<Longrightarrow> CHR 0x00 \<notin> set t"
proof (induction fmt args arbitrary: t rule: printf_text.induct)
  case (2 c fmt args)
  show ?case
  proof (cases "c = CHR ''%''")
    case True
    with 2(4) obtain zero w ls conv rest where p: "parse_directive fmt = Some (zero, w, ls, conv, rest)"
      by (auto split: option.splits)
    with parse_directive_set [OF p] 2(5) have n: "conv \<noteq> CHR 0x00" "CHR 0x00 \<notin> set rest" by auto
    show ?thesis
    proof (cases "conv = CHR ''%''")
      case True
      with \<open>c = CHR ''%''\<close> p 2(2) 2(4) n show ?thesis by auto
    next
      case False
      with \<open>c = CHR ''%''\<close> p 2(4) obtain a as s u where a: "args = a # as" "convert zero w ls conv a = Some s"
          "printf_text rest as = Some u" "t = s @ u"
        by (auto split: list.splits option.splits)
      from 2(3) [of "(zero, w, ls, conv, rest)" zero "(w, ls, conv, rest)" w "(ls, conv, rest)" ls "(conv, rest)" conv rest a as s u]
      show ?thesis using False \<open>c = CHR ''%''\<close> p a n convert_no_nul [OF a(2)] by auto
    qed
  next
    case False
    with 2(1) 2(4,5) show ?thesis by auto
  qed
qed simp

section \<open>The types of a format\<close>

text \<open>The types of arguments as the sources pass them, and the values of each.\<close>

datatype c_type = T_str | T_int | T_ushort | T_uint | T_long | T_ulong | T_ullong

fun has_type :: "printf_arg \<Rightarrow> c_type \<Rightarrow> bool" where
  "has_type (P_str s) t = (t = T_str)"
| "has_type (P_int i) t = (t = T_int \<and> - (2 ^ 31) \<le> i \<and> i < 2 ^ 31 \<or> t = T_ushort \<and> 0 \<le> i \<and> i < 2 ^ 16)"
| "has_type (P_uint n) t = (t = T_uint \<and> n < 2 ^ 32)"
| "has_type (P_long i) t = (t = T_long \<and> - (2 ^ 63) \<le> i \<and> i < 2 ^ 63)"
| "has_type (P_ulong n) t = (t = T_ulong \<and> n < 2 ^ 64)"
| "has_type (P_ullong n) t = (t = T_ullong \<and> n < 2 ^ 64)"

text \<open>The directives of a format, each with its number of \<open>l\<close>s; \<open>None\<close> for an unfinished one.\<close>

function directives :: "string \<Rightarrow> (nat \<times> char) list option" where
  "directives [] = Some []"
| "directives (c # fmt) =
     (if c \<noteq> CHR ''%'' then directives fmt
      else
        (case parse_directive fmt of
           None \<Rightarrow> None
         | Some (zero, w, ls, conv, rest) \<Rightarrow>
             (if conv = CHR ''%'' then directives rest
              else map_option (\<lambda>ds. (ls, conv) # ds) (directives rest))))"
  by pat_completeness auto
termination
  by (relation "measure length") (auto dest: parse_directive_length)

fun fits :: "nat \<times> char \<Rightarrow> c_type \<Rightarrow> bool" where
  "fits (ls, c) t =
     (if c = CHR ''s'' then ls = 0 \<and> t = T_str
      else if c = CHR ''d'' then ls = 0 \<and> (t = T_int \<or> t = T_ushort) \<or> ls = 1 \<and> t = T_long
      else if c = CHR ''u'' \<or> c = CHR ''x'' then
        ls = 0 \<and> (t = T_uint \<or> t = T_ushort) \<or> ls = 1 \<and> t = T_ulong \<or> ls = 2 \<and> t = T_ullong
      else False)"

text \<open>Arguments beyond the last directive are ignored.\<close>

definition well_typed :: "string \<Rightarrow> c_type list \<Rightarrow> bool" where
  "well_typed fmt tys =
     (case directives fmt of
        None \<Rightarrow> False
      | Some ds \<Rightarrow> length ds \<le> length tys \<and> list_all2 fits ds (take (length ds) tys))"

lemma fits_converts: "fits (ls, c) t \<Longrightarrow> has_type a t \<Longrightarrow> convert zero w ls c a \<noteq> None"
  by (cases a) (auto simp: convert_def split: if_splits)

text \<open>Each type that does not fit has a value that is not printed.\<close>

fun bad_arg :: "c_type \<Rightarrow> printf_arg" where
  "bad_arg T_str = P_str []"
| "bad_arg T_int = P_int (- 1)"
| "bad_arg T_ushort = P_int 0"
| "bad_arg T_uint = P_uint (2 ^ 31)"
| "bad_arg T_long = P_long (- 1)"
| "bad_arg T_ulong = P_ulong (2 ^ 63)"
| "bad_arg T_ullong = P_ullong (2 ^ 63)"

lemma bad_arg_type: "has_type (bad_arg t) t"
  by (cases t) simp_all

lemma misfit_stuck: "\<not> fits (ls, c) t \<Longrightarrow> convert zero w ls c (bad_arg t) = None"
  by (cases t) (auto simp: convert_def)

definition printable :: "nat \<times> char \<Rightarrow> printf_arg \<Rightarrow> bool" where
  "printable d a \<longleftrightarrow> convert False 0 (fst d) (snd d) a \<noteq> None"

lemma convert_printable: "convert zero w ls c a = None \<longleftrightarrow> \<not> printable (ls, c) a"
  by (auto simp: printable_def convert_def split: printf_arg.splits)

lemma printf_defined:
  "printf_text fmt args \<noteq> None \<longleftrightarrow>
     (\<exists>ds. directives fmt = Some ds \<and> length ds \<le> length args
        \<and> list_all2 printable ds (take (length ds) args))"
proof (induction fmt args rule: printf_text.induct)
  case (2 c fmt args)
  show ?case
  proof (cases "c = CHR ''%''")
    case False
    with 2(1) show ?thesis by simp
  next
    case True
    show ?thesis
    proof (cases "parse_directive fmt")
      case None
      with True show ?thesis by simp
    next
      case (Some x)
      then obtain zero w ls conv rest where p: "parse_directive fmt = Some (zero, w, ls, conv, rest)"
        by (cases x) auto
      show ?thesis
      proof (cases "conv = CHR ''%''")
        case pc: True
        with True p 2(2) show ?thesis by simp
      next
        case pc: False
        show ?thesis
        proof (cases args)
          case Nil
          with True p pc show ?thesis by (auto split: option.splits)
        next
          case (Cons a as)
          show ?thesis
          proof (cases "convert zero w ls conv a")
            case None
            then have "\<not> printable (ls, conv) a" by (simp add: convert_printable)
            with None True p pc Cons show ?thesis by auto
          next
            case (Some t)
            then have "printable (ls, conv) a" by (metis convert_printable option.distinct(1))
            moreover have "printf_text rest as \<noteq> None \<longleftrightarrow> (\<exists>ds. directives rest = Some ds
                \<and> length ds \<le> length as \<and> list_all2 printable ds (take (length ds) as))"
              using 2(3) True p pc Cons Some by blast
            ultimately show ?thesis using Some True p pc Cons by auto
          qed
        qed
      qed
    qed
  qed
qed simp

text \<open>
  The types are exact: a format prints all arguments of some types if and only if it is well typed for
  them.
\<close>

lemma well_typed_prints:
  assumes "well_typed fmt tys" and "list_all2 has_type args tys"
  shows "printf_text fmt args \<noteq> None"
proof -
  from assms(1) obtain ds where ds: "directives fmt = Some ds" "length ds \<le> length tys"
      "list_all2 fits ds (take (length ds) tys)"
    by (auto simp: well_typed_def split: option.splits)
  have n: "length args = length tys" using assms(2) by (rule list_all2_lengthD)
  have "printable (ds ! i) (args ! i)" if "i < length ds" for i
  proof -
    have "fits (ds ! i) (tys ! i)" "has_type (args ! i) (tys ! i)"
      using ds(2,3) assms(2) that by (auto simp: list_all2_conv_all_nth)
    then show ?thesis
      using fits_converts [of "fst (ds ! i)" "snd (ds ! i)"] by (simp add: printable_def del: fits.simps)
  qed
  then have "list_all2 printable ds (take (length ds) args)"
    using ds(2) n by (simp add: list_all2_conv_all_nth)
  with ds n show ?thesis unfolding printf_defined by auto
qed

lemma ill_typed_stuck:
  assumes "\<not> well_typed fmt tys"
  shows "list_all2 has_type (map bad_arg tys) tys \<and> printf_text fmt (map bad_arg tys) = None"
proof
  show "list_all2 has_type (map bad_arg tys) tys"
    by (simp add: list_all2_conv_all_nth bad_arg_type)
  show "printf_text fmt (map bad_arg tys) = None"
  proof (rule ccontr)
    assume "printf_text fmt (map bad_arg tys) \<noteq> None"
    then obtain ds where d: "directives fmt = Some ds" "length ds \<le> length tys"
        "list_all2 printable ds (take (length ds) (map bad_arg tys))"
      unfolding printf_defined by auto
    have "fits (ds ! i) (tys ! i)" if "i < length ds" for i
    proof (rule ccontr)
      assume "\<not> fits (ds ! i) (tys ! i)"
      moreover have "printable (ds ! i) (bad_arg (tys ! i))"
        using d(2,3) that by (simp add: list_all2_conv_all_nth)
      ultimately show False by (cases "ds ! i") (auto simp: printable_def misfit_stuck)
    qed
    with d(1,2) assms show False by (simp add: well_typed_def list_all2_conv_all_nth)
  qed
qed

end
