(* ===== verification/StringUtils.thy ===== *)
theory StringUtils
  imports Printf
begin

text \<open>
  src/StringUtils.h and src/StringUtils.cpp: trimming, splitting at a character (with a
  bound on the number of segments) and at a set of characters (with \<open>strtok_r\<close>), and
  formatting into a buffer that grows until the text fits.
\<close>

section \<open>Searching a std::string\<close>

definition find_if_from :: "(char \<Rightarrow> bool) \<Rightarrow> string \<Rightarrow> nat \<Rightarrow> nat option" where
  "find_if_from P s pos = List.find (\<lambda>i. P (s ! i)) [pos..<length s]"

definition find_last_if :: "(char \<Rightarrow> bool) \<Rightarrow> string \<Rightarrow> nat option" where
  "find_last_if P s = List.find (\<lambda>i. P (s ! i)) (rev [0..<length s])"

definition substr :: "string \<Rightarrow> nat \<Rightarrow> nat \<Rightarrow> string" where
  "substr s pos n = take n (drop pos s)"

lemma find_if_from_iff:
  "pos \<le> length s \<Longrightarrow> find_if_from P s pos =
     (if \<exists>c \<in> set (drop pos s). P c then Some (pos + length (takeWhile (\<lambda>c. \<not> P c) (drop pos s)))
      else None)"
proof (induction "length s - pos" arbitrary: pos)
  case 0
  then show ?case by (simp add: find_if_from_def)
next
  case (Suc n)
  then have lt: "pos < length s" by simp
  then have up: "[pos..<length s] = pos # [Suc pos..<length s]" by (rule upt_conv_Cons)
  have dr: "drop pos s = s ! pos # drop (Suc pos) s" using lt by (simp add: Cons_nth_drop_Suc)
  from Suc.hyps(1) [of "Suc pos"] Suc.hyps(2) lt
  have IH: "find_if_from P s (Suc pos) =
     (if \<exists>c \<in> set (drop (Suc pos) s). P c
      then Some (Suc pos + length (takeWhile (\<lambda>c. \<not> P c) (drop (Suc pos) s))) else None)"
    by simp
  then show ?case by (simp add: find_if_from_def up dr)
qed

lemma find_last_if_iff:
  "find_last_if P s =
     (if \<exists>c \<in> set s. P c then Some (length (rev (dropWhile (\<lambda>c. \<not> P c) (rev s))) - 1) else None)"
proof (induction s rule: rev_induct)
  case Nil
  then show ?case by (simp add: find_last_if_def)
next
  case (snoc c s)
  have "List.find (\<lambda>i. P ((s @ [c]) ! i)) (rev [0..<length s]) = find_last_if P s"
    unfolding find_last_if_def by (rule find_cong) (auto simp: nth_append)
  with snoc show ?case by (simp add: find_last_if_def)
qed

section \<open>trim\<close>

definition whiteSpace :: string where
  "whiteSpace = [CHR '' '', CHR 0x09, CHR 0x0D, CHR 0x0A]"

definition StringUtils_trim :: "string \<Rightarrow> string" where
  "StringUtils_trim s =
     (if s = [] then s
      else case find_if_from (\<lambda>c. c \<notin> set whiteSpace) s 0 of
             None \<Rightarrow> ''''
           | Some b \<Rightarrow>
               (case find_last_if (\<lambda>c. c \<notin> set whiteSpace) s of
                  None \<Rightarrow> ''''
                | Some e \<Rightarrow> substr s b (e - b + 1)))"

definition strip :: "string \<Rightarrow> string" where
  "strip s = rev (dropWhile (\<lambda>c. c \<in> set whiteSpace) (rev (dropWhile (\<lambda>c. c \<in> set whiteSpace) s)))"

lemma dropWhile_rev_dropWhile:
  assumes "\<exists>c \<in> set s. \<not> P c"
  shows "rev (dropWhile P (rev (dropWhile P s))) =
    take (length (dropWhile P (rev s)) - length (takeWhile P s)) (dropWhile P s)"
proof -
  have split: "s = takeWhile P s @ dropWhile P s" by simp
  have ex: "\<exists>c \<in> set (dropWhile P s). \<not> P c"
    using assms by (metis split UnE set_append set_takeWhileD)
  then have "dropWhile P (rev s) = dropWhile P (rev (dropWhile P s)) @ rev (takeWhile P s)"
    by (subst split, simp only: rev_append) (metis dropWhile_append1 set_rev)
  then have len: "length (dropWhile P (rev s)) - length (takeWhile P s)
      = length (dropWhile P (rev (dropWhile P s)))" by simp
  have "dropWhile P s = rev (dropWhile P (rev (dropWhile P s))) @ rev (takeWhile P (rev (dropWhile P s)))"
    by (metis rev_append rev_rev_ident takeWhile_dropWhile_id)
  then have "take (length (dropWhile P (rev (dropWhile P s)))) (dropWhile P s)
      = rev (dropWhile P (rev (dropWhile P s)))"
    by (metis append_eq_conv_conj length_rev)
  with len show ?thesis by simp
qed

lemma trim_eq_strip: "StringUtils_trim s = strip s"
proof (cases "\<exists>c \<in> set s. c \<notin> set whiteSpace")
  case True
  let ?W = "\<lambda>c. c \<in> set whiteSpace"
  have "length (takeWhile ?W s) < length (dropWhile ?W (rev s))"
  proof -
    have "strip s \<noteq> []" using True
      by (simp add: strip_def) (metis dropWhile_eq_Nil_conv hd_dropWhile hd_in_set)
    then show ?thesis using dropWhile_rev_dropWhile [of s ?W] True
      by (auto simp: strip_def)
  qed
  then have "length (dropWhile ?W (rev s)) - Suc 0 - length (takeWhile ?W s) + 1 =
      length (dropWhile ?W (rev s)) - length (takeWhile ?W s)" by simp
  moreover have "find_if_from (\<lambda>c. c \<notin> set whiteSpace) s 0 = Some (length (takeWhile ?W s))"
    using True by (simp add: find_if_from_iff)
  moreover have "find_last_if (\<lambda>c. c \<notin> set whiteSpace) s = Some (length (dropWhile ?W (rev s)) - 1)"
    using True by (simp add: find_last_if_iff)
  moreover have "s \<noteq> []" using True by auto
  ultimately have "StringUtils_trim s =
      take (length (dropWhile ?W (rev s)) - length (takeWhile ?W s)) (dropWhile ?W s)"
    by (simp add: StringUtils_trim_def substr_def dropWhile_eq_drop [of ?W s])
  then show ?thesis
    using dropWhile_rev_dropWhile [of s ?W] True by (simp add: strip_def)
next
  case False
  then have "StringUtils_trim s = []"
    by (auto simp: StringUtils_trim_def find_if_from_iff)
  moreover have "dropWhile (\<lambda>c. c \<in> set whiteSpace) s = []" using False by simp
  ultimately show ?thesis by (simp only: strip_def) simp
qed

section \<open>Splitting at a character\<close>

text \<open>
  The loop of the template: \<open>i\<close> counts the segments, \<open>left\<close> is where the next one starts.
  It returns the output, \<open>i\<close> and \<open>left\<close> as they are when the loop ends.
\<close>

function split_loop :: "string \<Rightarrow> char \<Rightarrow> nat \<Rightarrow> nat \<Rightarrow> nat \<Rightarrow> string list \<Rightarrow> string list \<times> nat \<times> nat" where
  "split_loop s delimiter maxSegments i left out =
     (if i < maxSegments then
        (case find_if_from (\<lambda>c. c = delimiter) s left of
           None \<Rightarrow> (out, i, left)
         | Some right \<Rightarrow>
             split_loop s delimiter maxSegments (i + 1) (right + 1) (out @ [substr s left (right - left)]))
      else (out, i, left))"
  by pat_completeness auto
termination
  by (relation "measure (\<lambda>(s, delimiter, maxSegments, i, left, out). maxSegments - i)") auto

declare split_loop.simps [simp del]

definition StringUtils_split_to :: "string list \<Rightarrow> string \<Rightarrow> char \<Rightarrow> uint \<Rightarrow> string list \<times> nat" where
  "StringUtils_split_to output s delimiter maxSegments =
     (let (out, i, left) = split_loop s delimiter (unat maxSegments) 1 0 output
      in (out @ [drop left s], i))"

text \<open>The overload for a vector empties the vector first.\<close>

definition StringUtils_split_char :: "string list \<Rightarrow> string \<Rightarrow> char \<Rightarrow> uint \<Rightarrow> string list \<times> nat" where
  "StringUtils_split_char v s delimiter maxSegments = StringUtils_split_to [] s delimiter maxSegments"

text \<open>Reference: at most \<open>n\<close> cuts, each at the first delimiter that is left.\<close>

fun cut_at :: "char \<Rightarrow> nat \<Rightarrow> string \<Rightarrow> string list" where
  "cut_at d 0 s = [s]"
| "cut_at d (Suc n) s =
     (if d \<in> set s then takeWhile (\<lambda>c. c \<noteq> d) s # cut_at d n (tl (dropWhile (\<lambda>c. c \<noteq> d) s)) else [s])"

fun join_with :: "char \<Rightarrow> string list \<Rightarrow> string" where
  "join_with d [] = []"
| "join_with d [x] = x"
| "join_with d (x # xs) = x @ d # join_with d xs"

lemma cut_at_nonempty [simp]: "cut_at d n s \<noteq> []"
  by (cases n) auto

lemma join_cut_at: "join_with d (cut_at d n s) = s"
proof (induction d n s rule: cut_at.induct)
  case (2 d n s)
  have step: "x @ d # join_with d xs = join_with d (x # xs)" if "xs \<noteq> []" for x xs
    using that by (cases xs) auto
  show ?case
  proof (cases "d \<in> set s")
    case True
    let ?t = "dropWhile (\<lambda>c. c \<noteq> d) s"
    have ne: "?t \<noteq> []" using True by simp
    moreover from hd_dropWhile [OF ne] have "hd ?t = d" by simp
    ultimately have "d # tl ?t = ?t" by (metis list.collapse)
    moreover have "join_with d (cut_at d (Suc n) s) =
        takeWhile (\<lambda>c. c \<noteq> d) s @ d # join_with d (cut_at d n (tl ?t))"
      using True step by simp
    ultimately show ?thesis using "2.IH" [OF True] by simp
  qed simp
qed simp

lemma cut_at_length: "length (cut_at d n s) \<le> Suc n"
  by (induction d n s rule: cut_at.induct) auto

lemma cut_at_butlast: "x \<in> set (butlast (cut_at d n s)) \<Longrightarrow> d \<notin> set x"
  by (induction d n s rule: cut_at.induct) (auto split: if_splits dest: set_takeWhileD)

lemma cut_at_last:
  "length (cut_at d n s) < Suc n \<Longrightarrow> d \<notin> set (last (cut_at d n s))"
  by (induction d n s rule: cut_at.induct) (auto split: if_splits)

lemma split_loop_cut_at:
  assumes "left \<le> length s" and "1 \<le> i"
  shows "\<exists>i' left' out'. split_loop s d m i left out = (out', i', left') \<and>
     out' @ [drop left' s] = out @ cut_at d (m - i) (drop left s) \<and>
     i' = i + length (cut_at d (m - i) (drop left s)) - 1 \<and> left' \<le> length s"
  using assms
proof (induction s d m i left out rule: split_loop.induct)
  case (1 s d m i left out)
  show ?case
  proof (cases "i < m \<and> d \<in> set (drop left s)")
    case True
    then obtain n where n: "m - i = Suc n" "m - (i + 1) = n"
      by (metis Suc_diff_Suc add.commute plus_1_eq_Suc)
    let ?tok = "takeWhile (\<lambda>c. c \<noteq> d) (drop left s)"
    let ?right = "left + length ?tok"
    have find: "find_if_from (\<lambda>c. c = d) s left = Some ?right"
      using True "1.prems" by (auto simp: find_if_from_iff)
    have lt: "length ?tok < length (drop left s)"
      using True by (intro length_takeWhile_less) auto
    have right: "?right + 1 \<le> length s" using lt by simp
    have tail: "drop (?right + 1) s = tl (dropWhile (\<lambda>c. c \<noteq> d) (drop left s))"
    proof -
      have "dropWhile (\<lambda>c. c \<noteq> d) (drop left s) = drop ?right s"
        by (simp only: dropWhile_eq_drop drop_drop add.commute)
      then show ?thesis by (simp only: tl_drop drop_Suc Suc_eq_plus1 [symmetric])
    qed
    have tok: "substr s left (?right - left) = ?tok"
      by (simp add: substr_def flip: takeWhile_eq_take)
    obtain i' left' out' where rec:
      "split_loop s d m (i + 1) (?right + 1) (out @ [?tok]) = (out', i', left')"
      "out' @ [drop left' s] = out @ [?tok] @ cut_at d n (tl (dropWhile (\<lambda>c. c \<noteq> d) (drop left s)))"
      "i' = i + 1 + length (cut_at d n (tl (dropWhile (\<lambda>c. c \<noteq> d) (drop left s)))) - 1"
      "left' \<le> length s"
      using "1.IH" [OF _ find, of] True right unfolding tok n tail by auto
    have "split_loop s d m i left out = (out', i', left')"
      using True find rec(1) tok by (simp add: split_loop.simps [of s d m i left out])
    moreover have "cut_at d (m - i) (drop left s) =
        ?tok # cut_at d n (tl (dropWhile (\<lambda>c. c \<noteq> d) (drop left s)))"
      using True n by simp
    ultimately show ?thesis using rec(2-4) by auto
  next
    case False
    then have "cut_at d (m - i) (drop left s) = [drop left s]"
      by (cases "m - i") auto
    moreover have "split_loop s d m i left out = (out, i, left)"
      using False "1.prems" by (auto simp: split_loop.simps [of s d m i left out] find_if_from_iff)
    ultimately show ?thesis using "1.prems" by auto
  qed
qed

lemma split_to_cut_at:
  "StringUtils_split_to out s d m =
     (out @ cut_at d (unat m - 1) s, length (cut_at d (unat m - 1) s))"
proof -
  obtain i' left' out' where
    "split_loop s d (unat m) 1 0 out = (out', i', left')"
    "out' @ [drop left' s] = out @ cut_at d (unat m - 1) s"
    "i' = length (cut_at d (unat m - 1) s)"
    using split_loop_cut_at [of 0 s 1 d "unat m" out] by auto
  then show ?thesis by (simp add: StringUtils_split_to_def)
qed

section \<open>Splitting at a set of characters\<close>

text \<open>
  \<open>strtok_r\<close> on a C string: \<open>None\<close> when only delimiters are left, otherwise the token
  and what is left behind the delimiter that ends it.
\<close>

definition strtok_r :: "string \<Rightarrow> string \<Rightarrow> (string \<times> string) option" where
  "strtok_r delim s =
     (let t = dropWhile (\<lambda>c. c \<in> set delim) s in
      if t = [] then None
      else Some (takeWhile (\<lambda>c. c \<notin> set delim) t, drop 1 (dropWhile (\<lambda>c. c \<notin> set delim) t)))"

fun tok_size :: "(string \<times> string) option \<Rightarrow> nat" where
  "tok_size None = 0"
| "tok_size (Some (tok, rest)) = Suc (length rest)"

lemma strtok_r_size: "tok_size (strtok_r delim s) \<le> length s"
proof (cases "dropWhile (\<lambda>c. c \<in> set delim) s")
  case Nil
  then show ?thesis by (simp add: strtok_r_def)
next
  case (Cons c t)
  then have c: "c \<notin> set delim" by (metis dropWhile_eq_Cons_conv)
  have "length (c # t) \<le> length s" by (metis Cons length_dropWhile_le)
  moreover have "length (dropWhile (\<lambda>c. c \<notin> set delim) t) \<le> length t"
    by (rule length_dropWhile_le)
  ultimately show ?thesis using Cons c by (simp add: strtok_r_def Let_def)
qed

text \<open>
  The loop of both overloads: \<open>token\<close> is the current token with the save pointer's text,
  \<open>n\<close> the number of tokens pushed; the next token is fetched before the bound is tested.
\<close>

function tok_loop :: "string \<Rightarrow> int \<Rightarrow> int \<Rightarrow> (string \<times> string) option \<Rightarrow> string list \<Rightarrow> string list" where
  "tok_loop delim num n None out = out"
| "tok_loop delim num n (Some (tok, rest)) out =
     (let next = strtok_r delim rest in
      if n + 1 = num then out @ [tok] else tok_loop delim num (n + 1) next (out @ [tok]))"
  by pat_completeness auto
termination
proof (relation "measure (\<lambda>(delim, num, n, token, out). tok_size token)")
qed (auto simp: less_Suc_eq_le strtok_r_size)

definition StringUtils_split_vec :: "string \<Rightarrow> string \<Rightarrow> string list \<Rightarrow> int \<Rightarrow> string list" where
  "StringUtils_split_vec str delim vecStr num =
     (if str = [] \<or> delim = [] then vecStr
      else tok_loop (c_str delim) num 0 (strtok_r (c_str delim) (c_str str)) vecStr)"

definition StringUtils_split_list :: "string \<Rightarrow> string \<Rightarrow> string list \<Rightarrow> int \<Rightarrow> string list" where
  "StringUtils_split_list str delim lstStr num =
     (if str = [] \<or> delim = [] then lstStr
      else tok_loop (c_str delim) num 0 (strtok_r (c_str delim) (c_str str)) lstStr)"

text \<open>Reference: the non-empty fields between the delimiters.\<close>

fun fields :: "string \<Rightarrow> string \<Rightarrow> string list" where
  "fields delim [] = [[]]"
| "fields delim (c # s) =
     (if c \<in> set delim then [] # fields delim s
      else (c # hd (fields delim s)) # tl (fields delim s))"

definition tokens :: "string \<Rightarrow> string \<Rightarrow> string list" where
  "tokens delim s = filter (\<lambda>t. t \<noteq> []) (fields delim s)"

lemma fields_nonempty [simp]: "fields delim s \<noteq> []"
  by (cases s) auto

lemma tokens_skip: "tokens delim (dropWhile (\<lambda>c. c \<in> set delim) s) = tokens delim s"
  by (induction s) (auto simp: tokens_def)

lemma fields_no_delim:
  "s = a @ b \<Longrightarrow> set a \<inter> set delim = {} \<Longrightarrow> fields delim s = (a @ hd (fields delim b)) # tl (fields delim b)"
  by (induction a arbitrary: s) (auto simp: disjoint_iff)

lemma strtok_r_tokens:
  "tokens delim s = (case strtok_r delim s of None \<Rightarrow> [] | Some (tok, rest) \<Rightarrow> tok # tokens delim rest)"
proof (cases "dropWhile (\<lambda>c. c \<in> set delim) s")
  case Nil
  have "tokens delim s = tokens delim []" by (metis Nil tokens_skip)
  with Nil show ?thesis by (simp add: strtok_r_def tokens_def)
next
  case (Cons c t)
  let ?t = "c # t"
  let ?tok = "takeWhile (\<lambda>c. c \<notin> set delim) ?t"
  let ?dr = "dropWhile (\<lambda>c. c \<notin> set delim) ?t"
  have c: "c \<notin> set delim" using Cons by (metis dropWhile_eq_Cons_conv)
  have split: "?t = ?tok @ ?dr" by (rule takeWhile_dropWhile_id [symmetric])
  have dis: "set ?tok \<inter> set delim = {}" using set_takeWhileD by fastforce
  have "fields delim ?t = (?tok @ hd (fields delim ?dr)) # tl (fields delim ?dr)"
    by (rule fields_no_delim [OF split dis])
  moreover have "hd (fields delim u) = [] \<and> filter (\<lambda>t. t \<noteq> []) (tl (fields delim u)) = tokens delim (drop 1 u)"
    if "u = [] \<or> hd u \<in> set delim" for u
    using that by (cases u) (auto simp: tokens_def)
  moreover have "?dr = [] \<or> hd ?dr \<in> set delim"
    using hd_dropWhile [of "\<lambda>c. c \<notin> set delim" ?t] by blast
  moreover have "?tok \<noteq> []" using c by simp
  ultimately have "tokens delim ?t = ?tok # tokens delim (drop 1 ?dr)"
    unfolding tokens_def [of delim ?t] by simp
  moreover have "tokens delim s = tokens delim ?t" by (metis Cons tokens_skip)
  ultimately show ?thesis using Cons by (simp add: strtok_r_def)
qed

lemma tok_loop_tokens:
  "num \<le> n \<or> n + 1 \<le> num \<Longrightarrow>
   tok_loop delim num n token out =
     out @ (let ts = (case token of None \<Rightarrow> [] | Some (tok, rest) \<Rightarrow> tok # tokens delim rest)
            in if n < num then take (nat (num - n)) ts else ts)"
proof (induction delim num n token out rule: tok_loop.induct)
  case (2 delim num n tok rest out)
  show ?case
  proof (cases "n + 1 = num")
    case True
    then have "nat (num - n) = Suc 0" by simp
    with True show ?thesis by simp
  next
    case False
    have len: "nat (num - n) = Suc (nat (num - (n + 1)))" if "n < num"
      using that by simp
    from 2 False have "tok_loop delim num (n + 1) (strtok_r delim rest) (out @ [tok]) =
       (out @ [tok]) @ (if n + 1 < num then take (nat (num - (n + 1))) (tokens delim rest) else tokens delim rest)"
      unfolding strtok_r_tokens [of delim rest] by (simp add: Let_def)
    with False len show ?thesis by (auto simp: Let_def)
  qed
qed simp

lemma split_vec_tokens:
  assumes "delim \<noteq> []"
  shows "StringUtils_split_vec str delim vecStr num =
     vecStr @ (if 0 < num then take (nat num) (tokens (c_str delim) (c_str str))
               else tokens (c_str delim) (c_str str))"
proof (cases "str = []")
  case True
  then show ?thesis by (simp add: StringUtils_split_vec_def tokens_def c_str_def)
next
  case False
  have "num \<le> 0 \<or> 0 + 1 \<le> num" by arith
  from tok_loop_tokens [OF this] assms False show ?thesis
    unfolding strtok_r_tokens [of "c_str delim" "c_str str"]
    by (simp add: StringUtils_split_vec_def)
qed

lemma split_list_vec: "StringUtils_split_list = StringUtils_split_vec"
  by (simp add: fun_eq_iff StringUtils_split_list_def StringUtils_split_vec_def)

lemma fields_in: "t \<in> set (fields delim s) \<Longrightarrow> set t \<inter> set delim = {}"
proof (induction s arbitrary: t)
  case (Cons c s)
  have "hd (fields delim s) \<in> set (fields delim s)" by simp
  moreover have "set (tl (fields delim s)) \<subseteq> set (fields delim s)"
    by (cases "fields delim s") auto
  ultimately show ?case using Cons.prems Cons.IH [of "hd (fields delim s)"] Cons.IH [of t]
    by (auto split: if_splits)
qed simp

lemma concat_fields: "concat (fields delim s) = filter (\<lambda>c. c \<notin> set delim) s"
proof (induction s)
  case (Cons c s)
  have "concat (fields delim s) = hd (fields delim s) @ concat (tl (fields delim s))"
    by (cases "fields delim s") auto
  with Cons show ?case by simp
qed simp

lemma concat_tokens: "concat (tokens delim s) = filter (\<lambda>c. c \<notin> set delim) s"
proof -
  have "concat (filter (\<lambda>t. t \<noteq> []) xs) = concat xs" for xs :: "string list"
    by (induction xs) auto
  then show ?thesis by (simp add: tokens_def concat_fields)
qed

section \<open>Formatting\<close>

text \<open>
  \<open>vform\<close>: \<open>vsn sz\<close> is what \<open>vsnprintf\<close> returns for a buffer of \<open>sz\<close> bytes, with the
  text it left in the buffer. The loop ends only when the text fits, so not returning is
  the value \<open>None\<close>.
\<close>

partial_function (option) vform_loop :: "(nat \<Rightarrow> int \<times> string) \<Rightarrow> nat \<Rightarrow> string option" where
  "vform_loop vsn sz =
     (let n = fst (vsn sz) in
      if n > -1 \<and> nat n < sz then Some (c_str (snd (vsn sz)))
      else vform_loop vsn (if n > -1 then nat n + 1 else sz * 2))"

definition StringUtils_vform :: "(nat \<Rightarrow> int \<times> string) \<Rightarrow> string option" where
  "StringUtils_vform vsn = vform_loop vsn 1024"

text \<open>
  The documented behaviour of \<open>vsnprintf\<close> for a text without NUL: when the buffer is
  larger than the text, the text and its length; otherwise its length (C99) or -1 (older C
  libraries), as the comments of the loop have it.
\<close>

definition vsnprintf_spec :: "(nat \<Rightarrow> int \<times> string) \<Rightarrow> string \<Rightarrow> bool" where
  "vsnprintf_spec vsn text \<longleftrightarrow>
     CHR 0x00 \<notin> set text \<and>
     (\<forall>sz. length text < sz \<longrightarrow> vsn sz = (int (length text), text)) \<and>
     (\<forall>sz. sz \<le> length text \<longrightarrow> fst (vsn sz) = int (length text) \<or> fst (vsn sz) = -1)"

lemma vform_loop_fits:
  assumes "vsnprintf_spec vsn text" and "length text < sz"
  shows "vform_loop vsn sz = Some text"
  using assms by (subst vform_loop.simps) (simp add: vsnprintf_spec_def text_simps)

lemma vform_loop_grows:
  assumes "vsnprintf_spec vsn text" and "0 < sz"
  shows "vform_loop vsn sz = Some text"
  using assms(2)
proof (induction "Suc (length text) - sz" arbitrary: sz rule: less_induct)
  case less
  show ?case
  proof (cases "length text < sz")
    case True
    then show ?thesis by (rule vform_loop_fits [OF assms(1)])
  next
    case False
    then have small: "sz \<le> length text" by simp
    from assms(1) small consider "fst (vsn sz) = int (length text)" | "fst (vsn sz) = -1"
      unfolding vsnprintf_spec_def by blast
    then show ?thesis
    proof cases
      case 1
      with small have "vform_loop vsn sz = vform_loop vsn (length text + 1)"
        by (subst vform_loop.simps) simp
      also have "\<dots> = Some text" by (rule vform_loop_fits [OF assms(1)]) simp
      finally show ?thesis .
    next
      case 2
      then have "vform_loop vsn sz = vform_loop vsn (sz * 2)"
        by (subst vform_loop.simps) simp
      also have "\<dots> = Some text"
        using less.prems small by (intro less.hyps) auto
      finally show ?thesis .
    qed
  qed
qed

text \<open>\<open>format\<close> with the \<open>vsnprintf\<close> of C99; \<open>to_string\<close> with the operator \<open><<\<close> of a string stream.\<close>

definition StringUtils_format :: "string \<Rightarrow> printf_arg list \<Rightarrow> string option" where
  "StringUtils_format fmt args =
     (case printf_text (c_str fmt) args of
        None \<Rightarrow> None
      | Some t \<Rightarrow> StringUtils_vform (vsnprintf t))"

definition StringUtils_to_string :: "(string \<Rightarrow> 'a \<Rightarrow> string) \<Rightarrow> 'a \<Rightarrow> string" where
  "StringUtils_to_string put n = (let stm = []; stm = put stm n in stm)"

lemma vsnprintf_keeps_spec: "CHR 0x00 \<notin> set text \<Longrightarrow> vsnprintf_spec (vsnprintf text) text"
  by (simp add: vsnprintf_spec_def vsnprintf_def)

text \<open>Whatever its length, the text is returned whole.\<close>

lemma format_text: "StringUtils_format fmt args = printf_text (c_str fmt) args"
proof (cases "printf_text (c_str fmt) args")
  case (Some t)
  have "CHR 0x00 \<notin> set (c_str fmt)" by (auto dest: c_str_set)
  from vsnprintf_keeps_spec [OF printf_text_no_nul [OF Some this]] show ?thesis
    using Some vform_loop_grows [of "vsnprintf t" t 1024]
    by (simp add: StringUtils_format_def StringUtils_vform_def)
qed (simp add: StringUtils_format_def)

text \<open>The text that \<open>format("%s_%u", ...)\<close> builds: the key of a peer.\<close>

definition format_s_u :: "string \<Rightarrow> nat \<Rightarrow> string" where
  "format_s_u ip port = c_str ip @ CHR ''_'' # show_nat port"

lemma format_s_u_inj: "format_s_u ip p = format_s_u ip' p' \<longleftrightarrow> c_str ip = c_str ip' \<and> p = p'"
  using split_at_last_sep [of "c_str ip" "CHR ''_''" "show_nat p" "c_str ip'" "show_nat p'"]
  by (auto simp: format_s_u_def text_simps)

section \<open>Properties\<close>

text \<open>
  \<open>trim\<close> removes exactly the blanks, tabs, carriage returns and newlines at both ends:
  it equals stripping from the left and from the right, leaves no such character at either
  end, and trimming again changes nothing.
\<close>

lemma trim_correct:
  "StringUtils_trim s = strip s \<and>
   (StringUtils_trim s \<noteq> [] \<longrightarrow>
      hd (StringUtils_trim s) \<notin> set whiteSpace \<and> last (StringUtils_trim s) \<notin> set whiteSpace) \<and>
   StringUtils_trim (StringUtils_trim s) = StringUtils_trim s"
proof -
  let ?W = "\<lambda>c. c \<in> set whiteSpace"
  let ?t = "dropWhile ?W (rev (dropWhile ?W s))"
  have hd: "hd (strip s) \<notin> set whiteSpace" if "strip s \<noteq> []"
  proof -
    have pre: "dropWhile ?W s = strip s @ rev (takeWhile ?W (rev (dropWhile ?W s)))"
      unfolding strip_def by (metis rev_append rev_rev_ident takeWhile_dropWhile_id)
    with that have "hd (strip s) = hd (dropWhile ?W s)" by (metis hd_append2)
    moreover have "dropWhile ?W s \<noteq> []" using that by (subst pre) (simp only: append_is_Nil_conv simp_thms)
    ultimately show ?thesis by (metis hd_dropWhile)
  qed
  have last: "last (strip s) \<notin> set whiteSpace" if "strip s \<noteq> []"
    using that hd_dropWhile [of ?W "rev (dropWhile ?W s)"] by (simp add: strip_def last_rev)
  have "strip (strip s) = strip s"
  proof (cases "strip s = []")
    case False
    with hd have "dropWhile ?W (strip s) = strip s"
      by (metis dropWhile.simps(2) list.collapse)
    moreover from False last have "dropWhile ?W (rev (strip s)) = rev (strip s)"
      by (metis dropWhile.simps(2) hd_rev list.collapse rev_is_Nil_conv)
    ultimately show ?thesis by (simp add: strip_def [of "strip s"])
  next
    case True
    have "strip [] = []" by (simp add: strip_def)
    with True show ?thesis by simp
  qed
  with hd last show ?thesis by (simp add: trim_eq_strip)
qed

theorem trim_correct_witness:
  "StringUtils_trim '' ab '' = ''ab'' \<and> hd (StringUtils_trim '' ab '') \<notin> set whiteSpace"
proof -
  have t: "StringUtils_trim '' ab '' = ''ab''" by code_simp
  then have "StringUtils_trim '' ab '' \<noteq> []" by simp
  with trim_correct [of "'' ab ''"] t show ?thesis by blast
qed

text \<open>
  C37: splitting at a character cuts at the first \<open>maxSegments - 1\<close> delimiters and nowhere
  else: joining the segments with the delimiter gives the text back, only the last segment
  may hold a delimiter, and only if the bound was reached; the value returned is the number
  of segments, at most \<open>maxSegments\<close>, except that the bound 0 gives one segment, where the header
  promises at most \<open>maxSegments\<close>. What was in the vector is dropped.
\<close>

theorem split_char_correct:
  "(let (segs, n) = StringUtils_split_char v s d m in
      segs = cut_at d (unat m - 1) s \<and>
      join_with d segs = s \<and>
      n = length segs \<and> 1 \<le> n \<and> n \<le> max 1 (unat m) \<and>
      (\<forall>x. x \<in> set (butlast segs) \<longrightarrow> d \<notin> set x) \<and>
      (n < unat m \<longrightarrow> d \<notin> set (last segs)))"
proof -
  let ?c = "cut_at d (unat m - 1) s"
  have "length ?c \<le> Suc (unat m - 1)" by (rule cut_at_length)
  then have "length ?c \<le> max 1 (unat m)" by linarith
  moreover have "length ?c < Suc (unat m - 1)" if "length ?c < unat m" using that by linarith
  ultimately show ?thesis
    using cut_at_butlast [of _ d "unat m - 1" s] cut_at_last [of d "unat m - 1" s]
    by (auto simp: StringUtils_split_char_def split_to_cut_at join_cut_at Suc_le_eq)
qed

theorem split_char_correct_witness:
  "StringUtils_split_char [] ''a,b,c'' CHR '','' 2 = ([''a'', ''b,c''], 2) \<and>
   join_with CHR '','' [''a'', ''b,c''] = ''a,b,c''"
proof -
  have "StringUtils_split_char [] ''a,b,c'' CHR '','' 2 = ([''a'', ''b,c''], 2)" by code_simp
  with split_char_correct [of "[]" "''a,b,c''" "CHR '',''" 2] show ?thesis by simp
qed

text \<open>
  C38: Splitting at a set of characters appends the non-empty fields between delimiters to
  the container, in order, all of them unless \<open>num\<close> is positive, then the first \<open>num\<close>; no
  token is empty or holds a delimiter, and together they hold every other character of the
  text. Both overloads agree.
\<close>

theorem split_tokens_correct:
  assumes "delim \<noteq> []"
  shows "StringUtils_split_vec str delim vecStr num =
       vecStr @ (if 0 < num then take (nat num) (tokens (c_str delim) (c_str str))
                 else tokens (c_str delim) (c_str str)) \<and>
     StringUtils_split_list str delim vecStr num = StringUtils_split_vec str delim vecStr num \<and>
     (\<forall>t \<in> set (tokens (c_str delim) (c_str str)). t \<noteq> [] \<and> set t \<inter> set (c_str delim) = {}) \<and>
     concat (tokens (c_str delim) (c_str str)) = filter (\<lambda>c. c \<notin> set (c_str delim)) (c_str str)"
proof (intro conjI ballI)
  show "StringUtils_split_vec str delim vecStr num =
       vecStr @ (if 0 < num then take (nat num) (tokens (c_str delim) (c_str str))
                 else tokens (c_str delim) (c_str str))"
    by (rule split_vec_tokens [OF assms])
  show "StringUtils_split_list str delim vecStr num = StringUtils_split_vec str delim vecStr num"
    by (simp only: split_list_vec)
  fix t assume "t \<in> set (tokens (c_str delim) (c_str str))"
  then have "t \<in> set (fields (c_str delim) (c_str str))" and ne: "t \<noteq> []"
    by (auto simp: tokens_def)
  then show "set t \<inter> set (c_str delim) = {}" by (intro fields_in)
  show "t \<noteq> []" by (rule ne)
qed (rule concat_tokens)

theorem split_tokens_correct_witness:
  "StringUtils_split_vec ''a//b/c'' ''/'' [''z''] 2 = [''z'', ''a'', ''b'']"
proof -
  have "tokens (c_str ''/'') (c_str ''a//b/c'') = [''a'', ''b'', ''c'']" by code_simp
  with split_tokens_correct [of "''/''" "''a//b/c''" "[''z'']" 2] show ?thesis by simp
qed

lemma format_peer_key: "StringUtils_format ''%s_%u'' [P_str ip, P_int (int port)] = Some (format_s_u ip port)"
  by (simp add: format_text c_str_def parse_directive_def Let_def convert_def pad_left_def format_s_u_def)

text \<open>
  \<open>vform\<close> returns, with the whole text, whatever its length, for any \<open>vsnprintf\<close> that behaves as
  documented: the buffer grows until the text fits. So \<open>format\<close> returns exactly the text that
  its format and arguments denote, and the keys that the pool, the sessions and the UDP reactor
  build with it tell any two peers apart.
\<close>

lemma format_correct:
  "(\<forall>vsn text. vsnprintf_spec vsn text \<longrightarrow> StringUtils_vform vsn = Some text)
   \<and> StringUtils_format fmt args = printf_text (c_str fmt) args
   \<and> StringUtils_format ''%s_%u'' [P_str ip, P_int (int port)] = Some (format_s_u ip port)
   \<and> (format_s_u ip port = format_s_u ip2 port2 \<longleftrightarrow> c_str ip = c_str ip2 \<and> port = port2)"
  using vform_loop_grows [of _ _ 1024] format_text format_peer_key format_s_u_inj
  by (simp add: StringUtils_vform_def)

lemma format_correct_witness:
  "StringUtils_vform (\<lambda>sz. if 3000 < sz then (3000, replicate 3000 (CHR ''x'')) else (-1, []))
     = Some (replicate 3000 (CHR ''x''))
   \<and> StringUtils_format ''[%04d|%5u]'' [P_int (- 7), P_uint 42] = Some ''[-007|   42]''"
proof -
  have "vsnprintf_spec (\<lambda>sz. if 3000 < sz then (3000, replicate 3000 (CHR ''x'')) else (-1, []))
      (replicate 3000 (CHR ''x''))"
    by (auto simp: vsnprintf_spec_def)
  from conjunct1 [OF format_correct, THEN spec, THEN spec, THEN mp, OF this]
  have "StringUtils_vform (\<lambda>sz. if 3000 < sz then (3000, replicate 3000 (CHR ''x'')) else (-1, []))
     = Some (replicate 3000 (CHR ''x''))" .
  moreover have "printf_text (c_str ''[%04d|%5u]'') [P_int (- 7), P_uint 42] = Some ''[-007|   42]''"
    by code_simp
  then have "StringUtils_format ''[%04d|%5u]'' [P_int (- 7), P_uint 42] = Some ''[-007|   42]''"
    using conjunct1 [OF conjunct2 [OF format_correct]] by metis
  ultimately show ?thesis by (rule conjI)
qed

end
