(* ===== verification/Posix.thy ===== *)
theory Posix
  imports Cpp_Prelude
begin

text \<open>
  The operating system as the library sees it. The kernel, the POSIX thread library and
  the callbacks that an application overrides are not part of the repository: they are a
  parameter \<open>os\<close> that says what reply the \<open>n\<close>-th outside call of a run gets, if the
  program makes that call then. Every operation of the model takes the log of the calls
  made so far and returns it extended, so that a theorem can speak of the calls an
  operation makes, in their order, whatever the replies are.
\<close>

section \<open>Calls and replies\<close>

datatype sock_kind = SOCK_STREAM | SOCK_DGRAM

datatype sock_opt =
    TCP_NODELAY | TCP_QUICKACK | SO_REUSEADDR | SO_KEEPALIVE | SO_RCVBUF | SO_SNDBUF
  | SO_RCVTIMEO | SO_SNDTIMEO

datatype ep_op = EPOLL_CTL_ADD | EPOLL_CTL_DEL

datatype (plugins only: code size) call =
    C_socket sock_kind
  | C_connect int string ushort
  | C_bind int string ushort
  | C_listen int int
  | C_accept int
  | C_close int
  | C_setsockopt int sock_opt int
  | C_getsockopt_error int
  | C_getfl int
  | C_setfl int uint
  | C_getsockname int
  | C_getpeername int
  | C_epoll_create int
  | C_epoll_ctl int ep_op int uint
  | C_epoll_wait int int int
  | C_select int slong slong
  | C_recv int uint
  | C_recvfrom int uint
  | C_send int "uchar list" int
  | C_sendto int "uchar list" "(string \<times> ushort) option"
  | C_gettimeofday
  | C_clock_gettime
  | C_time
  | C_usleep slong
  | C_getrlimit int
  | C_sigaddset int
  | C_sigmask int "int list"
  | C_attr_init
  | C_attr_setstacksize uint
  | C_attr_destroy
  | C_set_name string
  | C_thread_create
  | C_thread_detach int
  | C_thread_join int
  | C_mutex_init
  | C_mutex_lock
  | C_mutex_unlock
  | C_mutex_destroy
  | C_cond_init
  | C_cond_destroy
  | C_cond_wait
  | C_cond_timedwait int int
  | C_cond_signal
  | C_cond_broadcast
  | C_rwlock_init
  | C_rwlock_destroy
  | C_rwlock_rdlock
  | C_rwlock_wrlock
  | C_rwlock_unlock
  | H_prepare
  | H_do_init
  | H_svc
  | H_renew nat
  | H_delete nat
  | H_accept nat int
  | H_input nat int
  | H_output nat int
  | H_exception nat int
  | H_close nat int
  | H_input_udp nat string ushort "uchar list"
  | H_close_udp nat string ushort
  | H_timeout nat

text \<open>
  A reply: the value returned, \<open>errno\<close>, and what the call stores through its pointer
  arguments (numbers, bytes, a peer address, the ready events of \<open>epoll_wait\<close>). \<open>exited\<close> tells
  what other threads did meanwhile: one of the threads that the object of the caller has started
  came to its end and set the status of the object, after the caller's last step and before the
  call returned.
\<close>

record reply =
  rv :: int
  err :: int
  nums :: "int list"
  bytes :: "uchar list"
  peer :: "string \<times> ushort"
  ready :: "(int \<times> uint) list"
  exited :: bool

type_synonym log = "(call \<times> reply) list"
type_synonym os = "nat \<Rightarrow> call \<Rightarrow> reply"

definition ok_reply :: "int \<Rightarrow> reply" where
  "ok_reply v = \<lparr>rv = v, err = 0, nums = [], bytes = [], peer = ('''', 0), ready = [],
     exited = False\<rparr>"

definition syscall :: "os \<Rightarrow> call \<Rightarrow> log \<Rightarrow> reply \<times> log" where
  "syscall os c l = (let r = os (length l) c in (r, l @ [(c, r)]))"

text \<open>A call whose result the code throws away.\<close>

definition do_call :: "os \<Rightarrow> call \<Rightarrow> log \<Rightarrow> log" where
  "do_call os c l = snd (syscall os c l)"

definition EINTR :: int where "EINTR = 4"
definition EAGAIN :: int where "EAGAIN = 11"
definition EBUSY :: int where "EBUSY = 16"
definition EINVAL :: int where "EINVAL = 22"
definition ETIMEDOUT :: int where "ETIMEDOUT = 110"
definition EINPROGRESS :: int where "EINPROGRESS = 115"

definition EPOLLIN :: uint where "EPOLLIN = 1"
definition EPOLLPRI :: uint where "EPOLLPRI = 2"
definition EPOLLOUT :: uint where "EPOLLOUT = 4"

lemma syscall_log: "snd (syscall os c l) = l @ [(c, fst (syscall os c l))]"
  by (simp add: syscall_def Let_def)

lemma syscall_pair: "syscall os c l = (r, l') \<longleftrightarrow> r = os (length l) c \<and> l' = l @ [(c, r)]"
  by (auto simp: syscall_def Let_def)

lemma do_call_eq: "do_call os c l = l @ [(c, os (length l) c)]"
  by (simp add: do_call_def syscall_def Let_def)

section \<open>Open descriptors\<close>

text \<open>
  The descriptors that the calls of a log opened and did not close. A socket, an accepted
  connection or an epoll instance is open from the call that returned it until \<open>close\<close>.
\<close>

definition fd_effect :: "call \<times> reply \<Rightarrow> int set \<Rightarrow> int set" where
  "fd_effect e S = (case fst e of
       C_socket k \<Rightarrow> (if rv (snd e) < 0 then S else insert (rv (snd e)) S)
     | C_accept f \<Rightarrow> (if rv (snd e) < 0 then S else insert (rv (snd e)) S)
     | C_epoll_create n \<Rightarrow> (if rv (snd e) < 0 then S else insert (rv (snd e)) S)
     | C_close f \<Rightarrow> S - {f}
     | _ \<Rightarrow> S)"

definition open_fds :: "log \<Rightarrow> int set \<Rightarrow> int set" where
  "open_fds l S = fold fd_effect l S"

lemma open_fds_Nil [simp]: "open_fds [] S = S"
  by (simp add: open_fds_def)

lemma open_fds_append [simp]: "open_fds (l @ m) S = open_fds m (open_fds l S)"
  by (simp add: open_fds_def)

lemma open_fds_Cons [simp]: "open_fds (e # l) S = open_fds l (fd_effect e S)"
  by (simp add: open_fds_def)

text \<open>
  What the kernel promises about descriptors: a descriptor it hands out is not one that is
  open. \<open>fresh_fds S l\<close> says so of a log that starts with \<open>S\<close> open.
\<close>

definition new_fd :: "call \<times> reply \<Rightarrow> int option" where
  "new_fd e = (case fst e of
       C_socket k \<Rightarrow> (if rv (snd e) < 0 then None else Some (rv (snd e)))
     | C_accept f \<Rightarrow> (if rv (snd e) < 0 then None else Some (rv (snd e)))
     | C_epoll_create n \<Rightarrow> (if rv (snd e) < 0 then None else Some (rv (snd e)))
     | _ \<Rightarrow> None)"

fun fresh_fds :: "int set \<Rightarrow> log \<Rightarrow> bool" where
  "fresh_fds S [] = True"
| "fresh_fds S (e # l) =
     ((case new_fd e of None \<Rightarrow> True | Some f \<Rightarrow> f \<notin> S) \<and> fresh_fds (fd_effect e S) l)"

lemma fresh_fds_append:
  "fresh_fds S (l @ m) \<longleftrightarrow> fresh_fds S l \<and> fresh_fds (open_fds l S) m"
  by (induction l arbitrary: S) auto

text \<open>Pieces of a log that open and close nothing.\<close>

definition neutral_log :: "log \<Rightarrow> bool" where
  "neutral_log m \<longleftrightarrow> (\<forall>S. open_fds m S = S \<and> fresh_fds S m)"

lemma neutral_Nil [simp]: "neutral_log []"
  by (simp add: neutral_log_def)

lemma neutral_append: "neutral_log m \<Longrightarrow> neutral_log n \<Longrightarrow> neutral_log (m @ n)"
  by (simp add: neutral_log_def fresh_fds_append)

lemma neutral_Cons: "neutral_log [e] \<Longrightarrow> neutral_log m \<Longrightarrow> neutral_log (e # m)"
  using neutral_append [of "[e]" m] by simp

end
