(* ===== verification/TimeStamp.thy ===== *)
theory TimeStamp
  imports Posix
begin

text \<open>
  src/TimeStamp.h and src/TimeStamp.cpp: a moment as seconds and microseconds, each a
  64-bit \<open>long\<close>. The differences and sums of the class are computed modulo \<open>2 ^ 64\<close> (the
  constructor takes \<open>unsigned long\<close>), the comparisons are signed.
\<close>

section \<open>The class\<close>

datatype timestamp = TimeStamp (getSeconds: slong) (getUSeconds: slong)

definition ToUSeconds :: "timestamp \<Rightarrow> slong" where
  "ToUSeconds t = getSeconds t * 1000000 + getUSeconds t"

text \<open>Division of a \<open>long\<close> truncates towards zero.\<close>

definition long_div :: "slong \<Rightarrow> int \<Rightarrow> slong" where
  "long_div a n = word_of_int (sint a sdiv n)"

definition getMSeconds :: "timestamp \<Rightarrow> slong" where
  "getMSeconds t = long_div (getUSeconds t) 1000"

definition ToMSeconds :: "timestamp \<Rightarrow> slong" where
  "ToMSeconds t = getSeconds t * 1000 + long_div (getUSeconds t) 1000"

definition setSeconds :: "timestamp \<Rightarrow> slong \<Rightarrow> timestamp" where
  "setSeconds t v = TimeStamp v (getUSeconds t)"

definition setUSeconds :: "timestamp \<Rightarrow> slong \<Rightarrow> timestamp" where
  "setUSeconds t v = TimeStamp (getSeconds t) v"

definition ts_assign :: "timestamp \<Rightarrow> timestamp \<Rightarrow> timestamp" where
  "ts_assign this other = TimeStamp (getSeconds other) (getUSeconds other)"

definition ts_minus :: "timestamp \<Rightarrow> timestamp \<Rightarrow> timestamp" where
  "ts_minus this other =
     TimeStamp (getSeconds this - getSeconds other) (getUSeconds this - getUSeconds other)"

definition ts_gt :: "timestamp \<Rightarrow> timestamp \<Rightarrow> bool" where
  "ts_gt this other \<longleftrightarrow> sint (ToUSeconds this) > sint (ToUSeconds other)"

definition ts_lt :: "timestamp \<Rightarrow> timestamp \<Rightarrow> bool" where
  "ts_lt this other \<longleftrightarrow> sint (ToUSeconds this) < sint (ToUSeconds other)"

text \<open>The default constructor reads the clock with \<open>gettimeofday\<close>.\<close>

definition ts_of_reply :: "reply \<Rightarrow> timestamp" where
  "ts_of_reply r = TimeStamp (word_of_int (nums r ! 0)) (word_of_int (nums r ! 1))"

definition TimeStamp_now :: "os \<Rightarrow> log \<Rightarrow> timestamp \<times> log" where
  "TimeStamp_now os l = (let (r, l1) = syscall os C_gettimeofday l in (ts_of_reply r, l1))"

text \<open>
  \<open>getFormatTimeStamp\<close>: \<open>localtime_r\<close> breaks the seconds down (\<open>None\<close> when it fails);
  \<open>snprintf\<close> keeps at most 31 characters of the line.
\<close>

record tm =
  tm_year :: int
  tm_mon :: int
  tm_mday :: int
  tm_hour :: int
  tm_min :: int
  tm_sec :: int

definition fmt_02d :: "int \<Rightarrow> string" where
  "fmt_02d z = (if z < 0 then show_int z else pad0 2 (show_nat (nat z)))"

definition fmt_04d :: "int \<Rightarrow> string" where
  "fmt_04d z = (if z < 0 then CHR ''-'' # pad0 3 (show_nat (nat (- z))) else pad0 4 (show_nat (nat z)))"

definition getFormatTimeStamp :: "(slong \<Rightarrow> tm option) \<Rightarrow> timestamp \<Rightarrow> string" where
  "getFormatTimeStamp localtime_r t =
     (case localtime_r (getSeconds t) of
        None \<Rightarrow> ''''
      | Some m \<Rightarrow>
          take 31 (fmt_04d (tm_year m + 1900) @ fmt_02d (tm_mon m + 1) @ fmt_02d (tm_mday m) @ '' ''
            @ fmt_02d (tm_hour m) @ fmt_02d (tm_min m) @ fmt_02d (tm_sec m) @ ''.''
            @ show_nat (unat (getUSeconds t))))"

section \<open>The comparison operators form a preorder\<close>

instantiation timestamp :: preorder
begin

definition less_timestamp :: "timestamp \<Rightarrow> timestamp \<Rightarrow> bool" where
  "less_timestamp a b \<longleftrightarrow> ts_lt a b"

definition less_eq_timestamp :: "timestamp \<Rightarrow> timestamp \<Rightarrow> bool" where
  "less_eq_timestamp a b \<longleftrightarrow> \<not> ts_lt b a"

instance
  by standard (auto simp: less_timestamp_def less_eq_timestamp_def ts_lt_def)

end

lemma ts_gt_less: "ts_gt a b \<longleftrightarrow> b < a"
  by (simp add: less_timestamp_def ts_lt_def ts_gt_def)

section \<open>Arithmetic\<close>

text \<open>The difference of two moments, in microseconds, is the difference of the moments.\<close>

lemma ToUSeconds_minus: "ToUSeconds (ts_minus a b) = ToUSeconds a - ToUSeconds b"
  by (simp add: ToUSeconds_def ts_minus_def algebra_simps)

lemma ts_fields_set [simp]:
  "getSeconds (setSeconds t v) = v" "getUSeconds (setSeconds t v) = getUSeconds t"
  "getUSeconds (setUSeconds t v) = v" "getSeconds (setUSeconds t v) = getSeconds t"
  by (simp_all add: setSeconds_def setUSeconds_def)

text \<open>A reading of the clock as an unbounded number of microseconds.\<close>

definition usec_of :: "timestamp \<Rightarrow> int" where
  "usec_of t = sint (getSeconds t) * 1000000 + sint (getUSeconds t)"

definition sane_ts :: "timestamp \<Rightarrow> bool" where
  "sane_ts t \<longleftrightarrow> \<bar>sint (getSeconds t)\<bar> < 2 ^ 41 \<and> \<bar>sint (getUSeconds t)\<bar> < 2 ^ 41"

lemma sint_word_of_int_64:
  assumes "- (2 ^ 63) \<le> z" and "z < 2 ^ 63"
  shows "sint (word_of_int z :: slong) = z"
  using assms by (simp add: sint_sbintrunc' signed_take_bit_int_eq_self)

lemma sint_ToUSeconds:
  assumes "sane_ts t" shows "sint (ToUSeconds t) = usec_of t"
proof -
  have eq: "ToUSeconds t = word_of_int (usec_of t)"
    by (simp add: ToUSeconds_def usec_of_def)
  from assms have "- (2 ^ 63) \<le> usec_of t" and "usec_of t < 2 ^ 63"
    by (auto simp: usec_of_def sane_ts_def)
  then show ?thesis unfolding eq by (rule sint_word_of_int_64)
qed

lemma ts_lt_usec: "sane_ts a \<Longrightarrow> sane_ts b \<Longrightarrow> ts_lt a b \<longleftrightarrow> usec_of a < usec_of b"
  by (simp add: ts_lt_def sint_ToUSeconds)

lemma ts_gt_usec: "sane_ts a \<Longrightarrow> sane_ts b \<Longrightarrow> ts_gt a b \<longleftrightarrow> usec_of b < usec_of a"
  by (simp add: ts_gt_def sint_ToUSeconds)

lemma usec_of_bound: "sane_ts t \<Longrightarrow> \<bar>usec_of t\<bar> < 2 ^ 62"
  by (auto simp: usec_of_def sane_ts_def)

lemma sint_ToUSeconds_minus:
  assumes "sane_ts a" and "sane_ts b"
  shows "sint (ToUSeconds (ts_minus a b)) = usec_of a - usec_of b"
proof -
  have "ToUSeconds (ts_minus a b) = word_of_int (usec_of a - usec_of b)"
    by (simp add: ToUSeconds_minus) (simp add: ToUSeconds_def usec_of_def)
  moreover have "- (2 ^ 63) \<le> usec_of a - usec_of b" and "usec_of a - usec_of b < 2 ^ 63"
    using usec_of_bound [OF assms(1)] usec_of_bound [OF assms(2)] by auto
  ultimately show ?thesis by (simp only: sint_word_of_int_64)
qed

lemmas ts_simps = ToUSeconds_minus ts_gt_less sint_ToUSeconds sint_ToUSeconds_minus


section \<open>Comparison, difference and printing\<close>

text \<open>A broken-down time with a year of four digits.\<close>

definition tm_ok :: "tm \<Rightarrow> bool" where
  "tm_ok m \<longleftrightarrow> 0 \<le> tm_year m + 1900 \<and> tm_year m + 1900 < 10000 \<and> 0 \<le> tm_mon m \<and> tm_mon m < 12
     \<and> 0 \<le> tm_mday m \<and> tm_mday m < 32 \<and> 0 \<le> tm_hour m \<and> tm_hour m < 24
     \<and> 0 \<le> tm_min m \<and> tm_min m < 60 \<and> 0 \<le> tm_sec m \<and> tm_sec m < 62"

lemma fmt_02d_length: "0 \<le> z \<Longrightarrow> z < 100 \<Longrightarrow> length (fmt_02d z) = 2"
  by (simp add: fmt_02d_def pad0_length)

lemma fmt_04d_length: "0 \<le> z \<Longrightarrow> z < 10000 \<Longrightarrow> length (fmt_04d z) = 4"
  by (simp add: fmt_04d_def pad0_length)

text \<open>
  On readings of a clock, \<open><\<close>, \<open>>\<close> and \<open>-\<close> of \<open>TimeStamp\<close> are the order and the difference of
  the moments in microseconds, with no overflow. The printed form is 16 characters for the
  date and the time to the second, and then the microseconds in as few digits as they need:
  nothing is cut off, and nothing is padded, so the text does not sort as the times do.
\<close>

lemma timestamp_correct:
  assumes "sane_ts a" and "sane_ts b"
  shows "(ts_lt a b \<longleftrightarrow> usec_of a < usec_of b) \<and> (ts_gt a b \<longleftrightarrow> usec_of b < usec_of a)
    \<and> sint (ToUSeconds (ts_minus a b)) = usec_of a - usec_of b
    \<and> (\<forall>localtime_r m. localtime_r (getSeconds a) = Some m \<and> tm_ok m \<and> unat (getUSeconds a) < 1000000
        \<longrightarrow> (\<exists>date. length date = 16
              \<and> getFormatTimeStamp localtime_r a = date @ show_nat (unat (getUSeconds a))))"
proof (intro conjI allI impI)
  fix localtime_r m
  assume a: "localtime_r (getSeconds a) = Some m \<and> tm_ok m \<and> unat (getUSeconds a) < 1000000"
  let ?d = "fmt_04d (tm_year m + 1900) @ fmt_02d (tm_mon m + 1) @ fmt_02d (tm_mday m) @ '' ''
            @ fmt_02d (tm_hour m) @ fmt_02d (tm_min m) @ fmt_02d (tm_sec m) @ ''.''"
  have len: "length ?d = 16"
    using a by (simp add: tm_ok_def fmt_02d_length fmt_04d_length)
  have "length (show_nat (unat (getUSeconds a))) \<le> 6"
    using show_nat_length [of "unat (getUSeconds a)" 5] a by simp
  then have "take 31 (?d @ show_nat (unat (getUSeconds a))) = ?d @ show_nat (unat (getUSeconds a))"
    using len by simp
  then have "getFormatTimeStamp localtime_r a = ?d @ show_nat (unat (getUSeconds a))"
    using a by (simp only: getFormatTimeStamp_def option.case append_assoc)
  with len show "\<exists>date. length date = 16
      \<and> getFormatTimeStamp localtime_r a = date @ show_nat (unat (getUSeconds a))" by blast
qed (use assms in \<open>simp_all add: ts_lt_usec ts_gt_usec sint_ToUSeconds_minus\<close>)

lemma timestamp_correct_witness:
  "ts_lt (TimeStamp 100 99999) (TimeStamp 100 100000)
   \<and> sint (ToUSeconds (ts_minus (TimeStamp 101 5) (TimeStamp 100 7))) = 999998"
  using timestamp_correct [of "TimeStamp 100 99999" "TimeStamp 100 100000"]
    timestamp_correct [of "TimeStamp 101 5" "TimeStamp 100 7"]
  by (simp add: sane_ts_def usec_of_def)

end
