(* ===== verification/CondVar.thy ===== *)
theory CondVar
  imports Cpp_Prelude
begin

text \<open>
  The condition variable of an object, as its threads see it: the threads that are blocked on it.
  The calls behind it are in theory ThreadSync (ThreadCond.cpp); here is what they do to the
  threads, for the classes that block: \<open>wait\<close> blocks the caller and gives the mutex up,
  \<open>broadcast\<close> unblocks all, and a wake-up that nobody asked for, or a timeout, unblocks one.
\<close>

type_synonym blocked_threads = "nat set"

definition cond_wait :: "nat \<Rightarrow> blocked_threads \<Rightarrow> blocked_threads" where
  "cond_wait i w = insert i w"

definition cond_broadcast :: "blocked_threads \<Rightarrow> blocked_threads" where
  "cond_broadcast w = {}"

definition cond_wake_up :: "nat \<Rightarrow> blocked_threads \<Rightarrow> blocked_threads" where
  "cond_wake_up i w = w - {i}"

lemmas cond_defs = cond_wait_def cond_broadcast_def cond_wake_up_def

end
