(* ===== verification/TQueue.thy ===== *)
theory TQueue
  imports TimeStamp CondVar
begin

text \<open>
  src/TVector.h and src/TQueue.h: two queues with a bound on their length and a limit on
  the number of elements taken per second. They differ in the container only. Every method
  runs under the object's mutex; the methods are functions on the state that the mutex
  guards, given the clock readings they take. The state includes the condition variable, that
  is the threads blocked on it. A wait gives the mutex up: what the state is after it is a
  parameter of the sequential methods, and the interleavings of several threads are the step
  relation of the last section.
\<close>

section \<open>State\<close>

record 'a bqueue =
  lst_item :: "'a list"
  max_size :: uint
  wake_up_ts :: timestamp
  rate_limit :: uint
  try_pop_cnt :: uint
  cond :: blocked_threads

definition TVector_new :: "uint \<Rightarrow> uint \<Rightarrow> timestamp \<Rightarrow> 'a bqueue" where
  "TVector_new max_sz rate now =
     \<lparr>lst_item = [], max_size = max_sz, wake_up_ts = now, rate_limit = rate, try_pop_cnt = 0,
       cond = {}\<rparr>"

definition TVector_size :: "'a bqueue \<Rightarrow> uint" where
  "TVector_size q = of_nat (length (lst_item q))"

definition TVector_empty :: "'a bqueue \<Rightarrow> bool" where
  "TVector_empty q \<longleftrightarrow> lst_item q = []"

definition TVector_full :: "'a bqueue \<Rightarrow> bool" where
  "TVector_full q \<longleftrightarrow> max_size q > 0 \<and> length (lst_item q) > unat (max_size q)"

text \<open>
  The rate limiter of \<open>pop\<close>, after the element is taken: \<open>last_pop_ts\<close> is the time read on
  entry, \<open>pop_ts\<close> the time read after taking the element. It returns the new state and the
  new \<open>last_pop_ts\<close>.
\<close>

definition rate_step :: "'a bqueue \<Rightarrow> timestamp \<Rightarrow> timestamp \<Rightarrow> 'a bqueue \<times> timestamp" where
  "rate_step q last_pop_ts pop_ts =
     (if rate_limit q > 0 then
        (let q = q\<lparr>try_pop_cnt := try_pop_cnt q + 1\<rparr> in
         if ts_lt (wake_up_ts q) pop_ts then
           (let delta_cond_wait = ts_minus pop_ts (wake_up_ts q) in
            if sint (ToUSeconds delta_cond_wait) sdiv 1000000 > 1 then
              (q\<lparr>try_pop_cnt := 1,
                 wake_up_ts := setUSeconds (setSeconds (wake_up_ts q) (getMSeconds pop_ts - 1)) 0\<rparr>,
               last_pop_ts)
            else if try_pop_cnt q \<ge> rate_limit q then
              (let w = setUSeconds (setSeconds (wake_up_ts q) (getSeconds pop_ts + 1)) 0
               in (q\<lparr>try_pop_cnt := 0, wake_up_ts := w\<rparr>, w))
            else (q, last_pop_ts))
         else (q, pop_ts))
      else (q, last_pop_ts))"

text \<open>What follows without the lock: the argument of \<open>usleep\<close>, if the thread sleeps.\<close>

definition pop_sleep :: "'a bqueue \<Rightarrow> timestamp \<Rightarrow> uint option" where
  "pop_sleep q last_pop_ts =
     (if rate_limit q > 0 \<and> ts_gt (wake_up_ts q) last_pop_ts
      then Some (ucast (ToUSeconds (ts_minus (wake_up_ts q) last_pop_ts))) else None)"

text \<open>
  The part of \<open>pop\<close> under the lock once the queue is not empty (\<open>None\<close> if it is): the
  element, the state, and \<open>last_pop_ts\<close>.
\<close>

definition TVector_take :: "timestamp \<Rightarrow> timestamp \<Rightarrow> 'a bqueue \<Rightarrow> ('a \<times> 'a bqueue \<times> timestamp) option" where
  "TVector_take last_pop_ts pop_ts q =
     (case lst_item q of
        [] \<Rightarrow> None
      | item # rest \<Rightarrow>
          (let (q, last_ts) = rate_step (q\<lparr>lst_item := rest\<rparr>) last_pop_ts pop_ts
           in Some (item, q, last_ts)))"

text \<open>
  \<open>while(empty) wait()\<close>: \<open>waits n\<close> is the state the thread finds after its \<open>n\<close>-th wake-up.
  A thread that is never woken to a non-empty queue does not return: \<open>None\<close>.
\<close>

partial_function (option) wait_nonempty :: "(nat \<Rightarrow> 'a bqueue) \<Rightarrow> nat \<Rightarrow> 'a bqueue \<Rightarrow> 'a bqueue option" where
  "wait_nonempty waits n q =
     (if lst_item q = [] then wait_nonempty waits (n + 1) (waits n) else Some q)"

definition TVector_pop :: "(nat \<Rightarrow> 'a bqueue) \<Rightarrow> timestamp \<Rightarrow> timestamp \<Rightarrow> 'a bqueue
    \<Rightarrow> (int \<times> 'a \<times> 'a bqueue \<times> uint option) option" where
  "TVector_pop waits last_pop_ts pop_ts q =
     do { q \<leftarrow> wait_nonempty waits 0 q;
          (item, q, last_ts) \<leftarrow> TVector_take last_pop_ts pop_ts q;
          Some (0, item, q, pop_sleep q last_ts) }"

text \<open>\<open>waited\<close>: the state after the one timed wait, which is made only if the queue is empty.\<close>

definition TVector_pop_timed :: "('a bqueue \<Rightarrow> 'a bqueue) \<Rightarrow> timestamp \<Rightarrow> timestamp \<Rightarrow> 'a bqueue
    \<Rightarrow> int \<times> 'a option \<times> 'a bqueue \<times> uint option" where
  "TVector_pop_timed waited last_pop_ts pop_ts q =
     (let q = (if lst_item q = [] then waited q else q) in
      if lst_item q = [] then (-1, None, q, None)
      else case TVector_take last_pop_ts pop_ts q of
             None \<Rightarrow> (-1, None, q, None)
           | Some (item, q, last_ts) \<Rightarrow> (0, Some item, q, pop_sleep q last_ts))"

text \<open>\<open>push\<close> returns -1 when the queue counts as full, else appends and wakes every waiter.\<close>

definition TVector_push :: "'a bqueue \<Rightarrow> 'a \<Rightarrow> int \<times> 'a bqueue" where
  "TVector_push q item =
     (if max_size q > 0 \<and> length (lst_item q) > unat (max_size q) then (-1, q)
      else
        (let q = q\<lparr>lst_item := lst_item q @ [item]\<rparr>;
             q = q\<lparr>cond := cond_broadcast (cond q)\<rparr>
         in (0, q)))"

section \<open>TQueue\<close>

definition TQueue_new :: "uint \<Rightarrow> uint \<Rightarrow> timestamp \<Rightarrow> 'a bqueue" where
  "TQueue_new max_sz rate now =
     \<lparr>lst_item = [], max_size = max_sz, wake_up_ts = now, rate_limit = rate, try_pop_cnt = 0,
       cond = {}\<rparr>"

definition TQueue_size :: "'a bqueue \<Rightarrow> uint" where
  "TQueue_size q = of_nat (length (lst_item q))"

definition TQueue_empty :: "'a bqueue \<Rightarrow> bool" where
  "TQueue_empty q \<longleftrightarrow> lst_item q = []"

definition TQueue_full :: "'a bqueue \<Rightarrow> bool" where
  "TQueue_full q \<longleftrightarrow> max_size q > 0 \<and> length (lst_item q) > unat (max_size q)"

definition TQueue_take :: "timestamp \<Rightarrow> timestamp \<Rightarrow> 'a bqueue \<Rightarrow> ('a \<times> 'a bqueue \<times> timestamp) option" where
  "TQueue_take last_pop_ts pop_ts q =
     (if lst_item q = [] then None
      else
        (let item = hd (lst_item q);
             q = q\<lparr>lst_item := tl (lst_item q)\<rparr>;
             (q, last_ts) = rate_step q last_pop_ts pop_ts
         in Some (item, q, last_ts)))"

definition TQueue_pop :: "(nat \<Rightarrow> 'a bqueue) \<Rightarrow> timestamp \<Rightarrow> timestamp \<Rightarrow> 'a bqueue
    \<Rightarrow> (int \<times> 'a \<times> 'a bqueue \<times> uint option) option" where
  "TQueue_pop waits last_pop_ts pop_ts q =
     do { q \<leftarrow> wait_nonempty waits 0 q;
          (item, q, last_ts) \<leftarrow> TQueue_take last_pop_ts pop_ts q;
          Some (0, item, q, pop_sleep q last_ts) }"

definition TQueue_pop_timed :: "('a bqueue \<Rightarrow> 'a bqueue) \<Rightarrow> timestamp \<Rightarrow> timestamp \<Rightarrow> 'a bqueue
    \<Rightarrow> int \<times> 'a option \<times> 'a bqueue \<times> uint option" where
  "TQueue_pop_timed waited last_pop_ts pop_ts q =
     (let q = (if lst_item q = [] then waited q else q) in
      if lst_item q = [] then (-1, None, q, None)
      else case TQueue_take last_pop_ts pop_ts q of
             None \<Rightarrow> (-1, None, q, None)
           | Some (item, q, last_ts) \<Rightarrow> (0, Some item, q, pop_sleep q last_ts))"

definition TQueue_push :: "'a bqueue \<Rightarrow> 'a \<Rightarrow> int \<times> 'a bqueue" where
  "TQueue_push q item =
     (if max_size q > 0 \<and> length (lst_item q) > unat (max_size q) then (-1, q)
      else
        (let q = q\<lparr>lst_item := lst_item q @ [item]\<rparr>;
             q = q\<lparr>cond := cond_broadcast (cond q)\<rparr>
         in (0, q)))"

section \<open>The two containers are the same machine\<close>

lemma TQueue_new_eq: "TQueue_new = TVector_new"
  by (simp add: fun_eq_iff TQueue_new_def TVector_new_def)

lemma TQueue_take_eq: "TQueue_take l p q = TVector_take l p q"
  by (auto simp: TQueue_take_def TVector_take_def split: list.splits)

lemma TQueue_push_eq: "TQueue_push q x = TVector_push q x"
  by (simp add: TQueue_push_def TVector_push_def)

lemma TQueue_pop_eq: "TQueue_pop w l p q = TVector_pop w l p q"
  by (simp add: TQueue_pop_def TVector_pop_def TQueue_take_eq)

lemma TQueue_pop_timed_eq: "TQueue_pop_timed w l p q = TVector_pop_timed w l p q"
  by (simp add: TQueue_pop_timed_def TVector_pop_timed_def TQueue_take_eq Let_def)

lemmas TQueue_TVector =
  TQueue_new_eq TQueue_take_eq TQueue_push_eq TQueue_pop_eq TQueue_pop_timed_eq

section \<open>The rate limiter\<close>

lemma rate_step_items [simp]: "lst_item (fst (rate_step q l p)) = lst_item q"
  by (simp add: rate_step_def Let_def)

lemma rate_step_max [simp]: "max_size (fst (rate_step q l p)) = max_size q"
  by (simp add: rate_step_def Let_def)

lemma rate_step_cond [simp]: "cond (fst (rate_step q l p)) = cond q"
  by (simp add: rate_step_def Let_def)

lemma rate_step_limit [simp]: "rate_limit (fst (rate_step q l p)) = rate_limit q"
  by (simp add: rate_step_def Let_def)

lemma TVector_take_Some:
  "TVector_take l p q = Some (x, q', t) \<longleftrightarrow>
     (\<exists>rest. lst_item q = x # rest \<and> rate_step (q\<lparr>lst_item := rest\<rparr>) l p = (q', t))"
  by (auto simp: TVector_take_def split: list.splits prod.splits)

lemma wait_nonempty_Some:
  assumes "wait_nonempty waits n q = Some q'"
  shows "lst_item q' \<noteq> []"
proof (rule wait_nonempty.raw_induct [of "\<lambda>_ _ _ r. lst_item r \<noteq> []", OF _ assms])
  fix rec :: "(nat \<Rightarrow> 'a bqueue) \<Rightarrow> nat \<Rightarrow> 'a bqueue \<Rightarrow> 'a bqueue option"
  fix waits :: "nat \<Rightarrow> 'a bqueue" and n q r
  assume "\<And>w m p y. rec w m p = Some y \<Longrightarrow> lst_item y \<noteq> []"
    and "(if lst_item q = [] then rec waits (n + 1) (waits n) else Some q) = Some r"
  then show "lst_item r \<noteq> []" by (auto split: if_splits)
qed

lemma wait_nonempty_returns:
  "lst_item (waits (n + k)) \<noteq> [] \<Longrightarrow> \<exists>q'. wait_nonempty waits n q = Some q'"
proof (induction k arbitrary: n q)
  case 0
  then show ?case by (subst wait_nonempty.simps) (auto simp: wait_nonempty.simps)
next
  case (Suc k)
  from Suc.IH [of "n + 1" "waits n"] Suc.prems show ?case
    by (subst wait_nonempty.simps) auto
qed


text \<open>
  A reading of a clock that is set: later than the first 1001 seconds of 1970, no overflow,
  microseconds below a million.
\<close>

definition clock_ts :: "timestamp \<Rightarrow> bool" where
  "clock_ts t \<longleftrightarrow> 1001 \<le> sint (getSeconds t) \<and> sint (getSeconds t) < 2 ^ 40
     \<and> 0 \<le> sint (getUSeconds t) \<and> sint (getUSeconds t) < 1000000"

lemma clock_ts_sane: "clock_ts t \<Longrightarrow> sane_ts t"
  by (auto simp: clock_ts_def sane_ts_def)

definition at_second :: "int \<Rightarrow> timestamp" where
  "at_second z = TimeStamp (word_of_int z) 0"

lemma set_at_second: "setUSeconds (setSeconds t v) 0 = at_second (sint v)"
  by (simp add: setSeconds_def setUSeconds_def at_second_def)

lemma sint_next_second:
  assumes "clock_ts t" shows "sint (getSeconds t + 1) = sint (getSeconds t) + 1"
proof -
  have "getSeconds t + 1 = word_of_int (sint (getSeconds t) + 1)" by simp
  moreover have "- (2 ^ 63) \<le> sint (getSeconds t) + 1" and "sint (getSeconds t) + 1 < 2 ^ 63"
    using assms by (auto simp: clock_ts_def)
  ultimately show ?thesis by (simp only: sint_word_of_int_64)
qed

lemma sint_getMSeconds:
  assumes "clock_ts t"
  shows "sint (getMSeconds t) = sint (getUSeconds t) div 1000"
    and "sint (getMSeconds t - 1) = sint (getUSeconds t) div 1000 - 1"
proof -
  let ?u = "sint (getUSeconds t)"
  have b: "0 \<le> ?u div 1000" "?u div 1000 < 1000" using assms by (auto simp: clock_ts_def)
  have m: "getMSeconds t = word_of_int (?u div 1000)"
    using assms by (simp add: getMSeconds_def long_div_def sdiv_nonneg clock_ts_def)
  show "sint (getMSeconds t) = ?u div 1000"
    unfolding m using b by (simp add: sint_word_of_int_64)
  have "getMSeconds t - 1 = word_of_int (?u div 1000 - 1)" by (simp add: m)
  moreover have "- (2 ^ 63) \<le> ?u div 1000 - 1" and "?u div 1000 - 1 < 2 ^ 63" using b by auto
  ultimately show "sint (getMSeconds t - 1) = ?u div 1000 - 1"
    by (simp only: sint_word_of_int_64)
qed

text \<open>The reference: the limiter on unbounded microseconds.\<close>

definition rate_ref :: "'a bqueue \<Rightarrow> timestamp \<Rightarrow> timestamp \<Rightarrow> 'a bqueue \<times> timestamp" where
  "rate_ref q l p =
     (let n = try_pop_cnt q + 1 in
      if rate_limit q = 0 then (q, l)
      else if usec_of p \<le> usec_of (wake_up_ts q) then (q\<lparr>try_pop_cnt := n\<rparr>, p)
      else if usec_of p - usec_of (wake_up_ts q) \<ge> 2000000 then
        (q\<lparr>try_pop_cnt := 1, wake_up_ts := at_second (sint (getUSeconds p) div 1000 - 1)\<rparr>, l)
      else if rate_limit q \<le> n then
        (let w = at_second (sint (getSeconds p) + 1) in (q\<lparr>try_pop_cnt := 0, wake_up_ts := w\<rparr>, w))
      else (q\<lparr>try_pop_cnt := n\<rparr>, l))"

lemma rate_step_ref:
  assumes "sane_ts (wake_up_ts q)" and "clock_ts p"
  shows "rate_step q l p = rate_ref q l p"
proof -
  note s = clock_ts_sane [OF assms(2)]
  have lt: "ts_lt (wake_up_ts q) p \<longleftrightarrow> usec_of (wake_up_ts q) < usec_of p"
    using assms(1) s by (simp add: ts_lt_usec)
  have gap: "usec_of (wake_up_ts q) < usec_of p \<Longrightarrow>
      1 < sint (ToUSeconds (ts_minus p (wake_up_ts q))) sdiv 1000000
      \<longleftrightarrow> 2000000 \<le> usec_of p - usec_of (wake_up_ts q)"
    using sint_ToUSeconds_minus [OF s assms(1)] by (simp add: sdiv_nonneg) linarith
  have pos: "rate_limit q > 0 \<longleftrightarrow> rate_limit q \<noteq> 0" by (simp add: word_greater_zero_iff)
  show ?thesis
    unfolding rate_step_def rate_ref_def Let_def pos
    using gap by (simp add: lt set_at_second sint_getMSeconds [OF assms(2)] sint_next_second [OF assms(2)])
qed


lemma at_second_usec: "- 1 \<le> z \<Longrightarrow> z \<le> 2 ^ 40 \<Longrightarrow> usec_of (at_second z) = z * 1000000"
  by (simp add: usec_of_def at_second_def sint_word_of_int_64)

lemma at_second_sane: "- 1 \<le> z \<Longrightarrow> z \<le> 2 ^ 40 \<Longrightarrow> sane_ts (at_second z)"
  by (simp add: sane_ts_def at_second_def sint_word_of_int_64)

lemma clock_ts_bounds:
  assumes "clock_ts p"
  shows "1001 \<le> sint (getSeconds p)" and "sint (getSeconds p) + 1 \<le> 2 ^ 40"
    and "sint (getSeconds p) * 1000000 \<le> usec_of p"
    and "usec_of p < (sint (getSeconds p) + 1) * 1000000"
    and "- 1 \<le> sint (getUSeconds p) div 1000 - 1" and "sint (getUSeconds p) div 1000 \<le> 999"
    and "1001000000 \<le> usec_of p"
  using assms by (auto simp: clock_ts_def usec_of_def)

lemma pop_sleep_usec:
  assumes "sane_ts (wake_up_ts q)" and "sane_ts t"
  shows "pop_sleep q t =
    (if rate_limit q \<noteq> 0 \<and> usec_of t < usec_of (wake_up_ts q)
     then Some (word_of_int (usec_of (wake_up_ts q) - usec_of t)) else None)"
proof -
  have "(ucast (ToUSeconds (ts_minus (wake_up_ts q) t)) :: uint)
      = word_of_int (sint (ToUSeconds (ts_minus (wake_up_ts q) t)))"
    by (rule bit_word_eqI) (auto simp: bit_simps)
  then show ?thesis
    using sint_ToUSeconds_minus [OF assms] ts_gt_usec [OF assms]
    by (simp add: pop_sleep_def word_greater_zero_iff)
qed



text \<open>The sleeps of a run of pops, each given by its two clock readings.\<close>

fun pop_run :: "(timestamp \<times> timestamp) list \<Rightarrow> 'a bqueue \<Rightarrow> uint option list" where
  "pop_run [] q = []"
| "pop_run ((l, p) # ts) q =
     (case TVector_take l p q of
        None \<Rightarrow> []
      | Some (x, q', t) \<Rightarrow> pop_sleep q' t # pop_run ts q')"



text \<open>The limiter is off when the wake-up time lies in the first quarter hour of 1970.\<close>

definition limiter_off :: "'a bqueue \<Rightarrow> bool" where
  "limiter_off q \<longleftrightarrow> sane_ts (wake_up_ts q) \<and> usec_of (wake_up_ts q) \<le> 998000000"

lemma gap_switches_off:
  assumes "clock_ts l" and "clock_ts p" and "sane_ts (wake_up_ts q)" and "rate_limit q \<noteq> 0"
    and "usec_of (wake_up_ts q) + 2000000 \<le> usec_of p" and "TVector_take l p q = Some (x, q', t)"
  shows "limiter_off q' \<and> rate_limit q' \<noteq> 0 \<and> pop_sleep q' t = None \<and> tl (lst_item q) = lst_item q'"
proof -
  obtain rest where q: "lst_item q = x # rest" "rate_ref (q\<lparr>lst_item := rest\<rparr>) l p = (q', t)"
    using assms(2,3,6) by (auto simp: TVector_take_Some rate_step_ref)
  note b = clock_ts_bounds [OF assms(1)] clock_ts_bounds [OF assms(2)]
  have "wake_up_ts q' = at_second (sint (getUSeconds p) div 1000 - 1)" and "t = l"
    and "lst_item q' = rest" and "rate_limit q' = rate_limit q"
    using q assms(4,5) by (auto simp: rate_ref_def Let_def)
  then show ?thesis
    using q(1) b assms(4) clock_ts_sane [OF assms(1)]
    by (simp add: limiter_off_def pop_sleep_usec at_second_usec at_second_sane)
qed

text \<open>
  C30: once a pop comes two seconds or more after the wake-up time, the rate limit is lost for
  good. (Three seconds without a pop are always enough, since the wake-up time is at most a second
  ahead of the last one.) That \<open>pop\<close> sets the wake-up time from the milliseconds of the clock
  where it means its seconds, that is to some moment of 1970; every later \<open>pop\<close>, at any times
  the clock can show, again finds a gap of two seconds or more, and none of them ever sleeps.
\<close>

theorem pause_disables_limiter:
  assumes "sane_ts (wake_up_ts q)" and "rate_limit q \<noteq> 0"
    and "\<forall>(l, p) \<in> set ts. clock_ts l \<and> clock_ts p"
    and "ts \<noteq> []" and "usec_of (wake_up_ts q) + 2000000 \<le> usec_of (snd (hd ts))"
    and "length ts \<le> length (lst_item q)"
  shows "pop_run ts q = replicate (length ts) None"
  using assms
proof (induction ts q rule: pop_run.induct)
  case (2 l p ts q)
  obtain x rest where x: "lst_item q = x # rest" using 2(7) by (cases "lst_item q") auto
  then obtain q' t where take: "TVector_take l p q = Some (x, q', t)"
    by (cases "rate_step (q\<lparr>lst_item := rest\<rparr>) l p") (auto simp: TVector_take_Some)
  have off: "limiter_off q'" "rate_limit q' \<noteq> 0" "pop_sleep q' t = None" "rest = lst_item q'"
    using gap_switches_off [OF _ _ 2(2) 2(3) _ take] 2(4,6) x by auto
  have "pop_run ts q' = replicate (length ts) None"
  proof (cases ts)
    case (Cons lp ts')
    obtain l' p' where lp: "lp = (l', p')" by (cases lp)
    have "clock_ts p'" using 2(4) Cons lp by simp
    then have "usec_of (wake_up_ts q') + 2000000 \<le> usec_of p'"
      using off(1) clock_ts_bounds(7) by (fastforce simp: limiter_off_def)
    then show ?thesis
      using off 2(4,7) x Cons lp
      by (intro 2(1) [OF take refl refl]) (simp_all add: limiter_off_def)
  qed simp
  then show ?case using take off(3) by simp
qed simp

lemma pause_disables_limiter_witness:
  "pop_run [(TimeStamp 5000 0, TimeStamp 5000 1), (TimeStamp 5000 2, TimeStamp 5000 3),
       (TimeStamp 5000 4, TimeStamp 5000 5)]
     \<lparr>lst_item = [1, 2, 3 :: nat], max_size = 0, wake_up_ts = TimeStamp 4000 0,
       rate_limit = 1, try_pop_cnt = 0, cond = {}\<rparr> = [None, None, None]"
  by (subst pause_disables_limiter)
     (auto simp: sane_ts_def clock_ts_def usec_of_def eval_nat_numeral)


section \<open>The bound on the length\<close>

definition push_all :: "'a list \<Rightarrow> 'a bqueue \<Rightarrow> 'a bqueue" where
  "push_all xs q = foldl (\<lambda>q x. snd (TVector_push q x)) q xs"

lemma push_all_simps [simp]:
  "push_all [] q = q" "push_all (x # xs) q = push_all xs (snd (TVector_push q x))"
  by (simp_all add: push_all_def)

lemma push_all_items:
  "max_size q > 0 \<Longrightarrow> length (lst_item q) \<le> unat (max_size q) + 1 \<Longrightarrow>
   lst_item (push_all xs q) = lst_item q @ take (unat (max_size q) + 1 - length (lst_item q)) xs"
proof (induction xs arbitrary: q)
  case (Cons x xs)
  show ?case
  proof (cases "length (lst_item q) > unat (max_size q)")
    case True
    then have "TVector_push q x = (- 1, q)" using Cons.prems(1) by (simp add: TVector_push_def)
    then show ?thesis using Cons.IH [of q] Cons.prems True by simp
  next
    case False
    then have "TVector_push q x = (0, q\<lparr>lst_item := lst_item q @ [x], cond := {}\<rparr>)"
      by (simp add: TVector_push_def cond_broadcast_def)
    then show ?thesis
      using Cons.IH [of "q\<lparr>lst_item := lst_item q @ [x], cond := {}\<rparr>"] Cons.prems False
      by (simp add: Suc_diff_le)
  qed
qed simp

lemma push_all_unbounded:
  "max_size q = 0 \<Longrightarrow> lst_item (push_all xs q) = lst_item q @ xs"
  by (induction xs arbitrary: q) (auto simp: TVector_push_def)

text \<open>
  A new queue of maximum size \<open>m > 0\<close> takes exactly the first \<open>m + 1\<close> elements pushed,
  one more than its limit, and refuses the others; with \<open>m = 0\<close> it takes them all.
\<close>

lemma push_limit:
  "lst_item (push_all xs (TVector_new m rate now)) = (if m = 0 then xs else take (unat m + 1) xs)"
  using push_all_items [of "TVector_new m rate now" xs]
    push_all_unbounded [of "TVector_new m rate now" xs]
  by (simp add: TVector_new_def word_greater_zero_iff)

section \<open>Blocking\<close>

lemma wait_nonempty_found:
  "lst_item q \<noteq> [] \<or> (\<exists>k. lst_item (waits (n + k)) \<noteq> []) \<Longrightarrow>
   \<exists>q0. wait_nonempty waits n q = Some q0 \<and> q0 \<in> insert q (range waits) \<and> lst_item q0 \<noteq> []"
proof (cases "lst_item q = []")
  case True
  assume "lst_item q \<noteq> [] \<or> (\<exists>k. lst_item (waits (n + k)) \<noteq> [])"
  with True obtain k where "lst_item (waits (n + k)) \<noteq> []" by blast
  then show ?thesis using True
  proof (induction k arbitrary: n q)
    case 0
    then show ?case by (simp add: wait_nonempty.simps)
  next
    case (Suc k)
    show ?case
    proof (cases "lst_item (waits n) = []")
      case True
      then show ?thesis
        using Suc.IH [of "n + 1" "waits n"] Suc.prems by (auto simp: wait_nonempty.simps [of _ n q])
    next
      case False
      then show ?thesis
        using Suc.prems by (simp add: wait_nonempty.simps)
    qed
  qed
qed (simp add: wait_nonempty.simps)

lemma TVector_take_nonempty:
  assumes "lst_item q \<noteq> []"
  shows "\<exists>x q' t. TVector_take l p q = Some (x, q', t) \<and> lst_item q = x # lst_item q'"
proof -
  from assms obtain x rest where q: "lst_item q = x # rest" by (cases "lst_item q") auto
  obtain q' t where r: "rate_step (q\<lparr>lst_item := rest\<rparr>) l p = (q', t)" by fastforce
  then have "lst_item q' = rest" using rate_step_items [of "q\<lparr>lst_item := rest\<rparr>" l p] by simp
  then show ?thesis by (auto simp: TVector_take_def q r)
qed

lemma TVector_pop_timed_found:
  "lst_item (if lst_item q = [] then waited q else q) \<noteq> [] \<Longrightarrow>
   \<exists>x q' s. TVector_pop_timed waited l p q = (0, Some x, q', s)
     \<and> lst_item (if lst_item q = [] then waited q else q) = x # lst_item q'"
  using TVector_take_nonempty [of "if lst_item q = [] then waited q else q" l p]
  by (auto simp: TVector_pop_timed_def Let_def split: if_splits)

text \<open>
  \<open>pop\<close> returns as soon as the thread finds the queue non-empty: if that is so on entry
  or after some wake-up, it returns 0 with the first element of the state found then, and
  takes that one element only. The timed \<open>pop\<close> waits at most once; it returns -1, with
  nothing taken, exactly if the queue is still empty after that.
\<close>

lemma pop_returns:
  assumes "lst_item q \<noteq> [] \<or> (\<exists>k. lst_item (waits k) \<noteq> [])"
  shows "(\<exists>q0 x q' s. TVector_pop waits l p q = Some (0, x, q', s) \<and> q0 \<in> insert q (range waits)
        \<and> lst_item q0 = x # lst_item q')
    \<and> TQueue_pop waits l p q = TVector_pop waits l p q
    \<and> (let q0 = (if lst_item q = [] then waited q else q) in
       if lst_item q0 = [] then TVector_pop_timed waited l p q = (- 1, None, q0, None)
       else \<exists>x q' s. TVector_pop_timed waited l p q = (0, Some x, q', s) \<and> lst_item q0 = x # lst_item q')"
proof (intro conjI)
  obtain q0 where q0: "wait_nonempty waits 0 q = Some q0" "q0 \<in> insert q (range waits)" "lst_item q0 \<noteq> []"
    using wait_nonempty_found [of q waits 0] assms by auto
  then obtain x q' t where "TVector_take l p q0 = Some (x, q', t)" "lst_item q0 = x # lst_item q'"
    using TVector_take_nonempty by blast
  then have "TVector_pop waits l p q = Some (0, x, q', pop_sleep q' t)"
    using q0(1) by (simp add: TVector_pop_def)
  then show "\<exists>q0 x q' s. TVector_pop waits l p q = Some (0, x, q', s) \<and> q0 \<in> insert q (range waits)
        \<and> lst_item q0 = x # lst_item q'"
    using q0 \<open>lst_item q0 = x # lst_item q'\<close> by blast
  let ?q = "if lst_item q = [] then waited q else q"
  show "let q0 = ?q in
       if lst_item q0 = [] then TVector_pop_timed waited l p q = (- 1, None, q0, None)
       else \<exists>x q' s. TVector_pop_timed waited l p q = (0, Some x, q', s) \<and> lst_item q0 = x # lst_item q'"
    using TVector_pop_timed_found [of q waited l p]
    by (auto simp: TVector_pop_timed_def Let_def)
qed (rule TQueue_pop_eq)

lemma pop_returns_witness:
  "let q = TVector_new 0 0 (TimeStamp 1 0); q5 = q\<lparr>lst_item := [5 :: nat]\<rparr>;
       waits = (\<lambda>n. if n = 3 then q5 else q)
   in \<exists>q' s. TVector_pop waits (TimeStamp 1 0) (TimeStamp 2 0) q = Some (0, 5, q', s)"
proof -
  let ?q = "TVector_new 0 0 (TimeStamp 1 0) :: nat bqueue" and ?q5 = "(TVector_new 0 0 (TimeStamp 1 0))\<lparr>lst_item := [5 :: nat]\<rparr>"
  let ?w = "\<lambda>n :: nat. if n = 3 then ?q5 else ?q"
  have "\<exists>k. lst_item (?w k) \<noteq> []" by (rule exI [of _ 3]) simp
  then obtain q0 x q' s where r: "TVector_pop ?w (TimeStamp 1 0) (TimeStamp 2 0) ?q = Some (0, x, q', s)"
      and q0: "q0 \<in> insert ?q (range ?w)" "lst_item q0 = x # lst_item q'"
    using pop_returns [of ?q ?w "TimeStamp 1 0" "TimeStamp 2 0" id] by blast
  from q0(1) have "lst_item q0 \<in> {[], [5]}" by (auto simp: TVector_new_def)
  with q0(2) have "x = 5" by auto
  with r show ?thesis by (auto simp: Let_def)
qed

section \<open>Several threads\<close>

text \<open>
  The queue shared by threads. A thread inside \<open>pop\<close> is \<open>ready\<close> when it holds or contends for
  the mutex and is about to test the queue, or blocked on the condition variable of the queue.
  Each step is one critical section: a \<open>push\<close>, after which the threads that it unblocked are
  ready; a thread entering \<open>pop\<close>; a test of the queue that takes an element, or finds none and
  waits (or gives up, in the timed \<open>pop\<close>); and a wake-up without a broadcast (spurious, or a
  timeout). \<open>pushed\<close> and \<open>popped\<close> are the history of the elements that went in and out. That a
  push wakes anybody is left to \<open>push\<close>: the relation only follows what it does to the blocked.
\<close>

definition queue_wait :: "nat \<Rightarrow> 'a bqueue \<Rightarrow> 'a bqueue" where
  "queue_wait i q = q\<lparr>cond := cond_wait i (cond q)\<rparr>"

definition queue_wake_up :: "nat \<Rightarrow> 'a bqueue \<Rightarrow> 'a bqueue" where
  "queue_wake_up i q = q\<lparr>cond := cond_wake_up i (cond q)\<rparr>"

record 'a monitor =
  mq :: "'a bqueue"
  pushed :: "'a list"
  popped :: "(nat \<times> 'a) list"
  ready_set :: "nat set"

inductive monitor_step ::
  "('a bqueue \<Rightarrow> 'a \<Rightarrow> int \<times> 'a bqueue)
   \<Rightarrow> (timestamp \<Rightarrow> timestamp \<Rightarrow> 'a bqueue \<Rightarrow> ('a \<times> 'a bqueue \<times> timestamp) option)
   \<Rightarrow> 'a monitor \<Rightarrow> 'a monitor \<Rightarrow> bool"
  for push :: "'a bqueue \<Rightarrow> 'a \<Rightarrow> int \<times> 'a bqueue"
    and take_op :: "timestamp \<Rightarrow> timestamp \<Rightarrow> 'a bqueue \<Rightarrow> ('a \<times> 'a bqueue \<times> timestamp) option" where
  mon_push: "push (mq s) x = (r, q') \<Longrightarrow> monitor_step push take_op s
     (s\<lparr>mq := q', pushed := (if r = 0 then pushed s @ [x] else pushed s),
        ready_set := ready_set s \<union> (cond (mq s) - cond q')\<rparr>)"
| mon_enter: "i \<notin> ready_set s \<Longrightarrow> i \<notin> cond (mq s) \<Longrightarrow>
     monitor_step push take_op s (s\<lparr>ready_set := insert i (ready_set s)\<rparr>)"
| mon_take: "i \<in> ready_set s \<Longrightarrow> take_op l p (mq s) = Some (x, q', t) \<Longrightarrow> monitor_step push take_op s
     (s\<lparr>mq := q', popped := popped s @ [(i, x)],
        ready_set := ready_set s - {i} \<union> (cond (mq s) - cond q')\<rparr>)"
| mon_wait: "i \<in> ready_set s \<Longrightarrow> take_op l p (mq s) = None \<Longrightarrow> monitor_step push take_op s
     (s\<lparr>mq := queue_wait i (mq s), ready_set := ready_set s - {i}\<rparr>)"
| mon_give_up: "i \<in> ready_set s \<Longrightarrow> take_op l p (mq s) = None \<Longrightarrow>
     monitor_step push take_op s (s\<lparr>ready_set := ready_set s - {i}\<rparr>)"
| mon_wake: "i \<in> cond (mq s) \<Longrightarrow> monitor_step push take_op s
     (s\<lparr>mq := queue_wake_up i (mq s), ready_set := insert i (ready_set s)\<rparr>)"

definition monitor_start :: "'a monitor \<Rightarrow> bool" where
  "monitor_start s \<longleftrightarrow> (\<exists>m rate now. mq s = TVector_new m rate now) \<and> pushed s = [] \<and> popped s = []
     \<and> ready_set s = {}"

definition monitor_inv :: "'a monitor \<Rightarrow> bool" where
  "monitor_inv s \<longleftrightarrow> pushed s = map snd (popped s) @ lst_item (mq s)
     \<and> ready_set s \<inter> cond (mq s) = {} \<and> (lst_item (mq s) \<noteq> [] \<longrightarrow> cond (mq s) = {})"

text \<open>
  What a queue promises: \<open>push\<close> appends and unblocks every thread, or refuses; taking removes the
  first element and leaves the blocked threads alone.
\<close>

locale bounded_queue =
  fixes push :: "'a bqueue \<Rightarrow> 'a \<Rightarrow> int \<times> 'a bqueue"
    and take_op :: "timestamp \<Rightarrow> timestamp \<Rightarrow> 'a bqueue \<Rightarrow> ('a \<times> 'a bqueue \<times> timestamp) option"
  assumes push_ok: "push q x = (0, q') \<Longrightarrow> lst_item q' = lst_item q @ [x] \<and> cond q' = {}"
    and push_refused: "push q x = (r, q') \<Longrightarrow> r \<noteq> 0 \<Longrightarrow> q' = q"
    and take_None: "take_op l p q = None \<longleftrightarrow> lst_item q = []"
    and take_Some: "take_op l p q = Some (x, q', t) \<Longrightarrow> lst_item q = x # lst_item q' \<and> cond q' = cond q"
begin

lemma monitor_inv_step: "monitor_step push take_op s s' \<Longrightarrow> monitor_inv s \<Longrightarrow> monitor_inv s'"
proof (induction rule: monitor_step.induct)
  case (mon_push s x r q')
  then show ?case
    using push_ok [of "mq s" x q'] push_refused [of "mq s" x r q'] by (cases "r = 0") (auto simp: monitor_inv_def)
next
  case (mon_take i s l p x q' t)
  then show ?case by (auto simp: monitor_inv_def dest!: take_Some)
qed (auto simp: monitor_inv_def take_None queue_wait_def queue_wake_up_def cond_defs)

end

sublocale bounded_queue \<subseteq> invariant_machine monitor_start "monitor_step push take_op" monitor_inv
  by unfold_locales (fastforce simp: monitor_start_def monitor_inv_def TVector_new_def, rule monitor_inv_step)

context bounded_queue
begin

lemma fifo:
  assumes "reachable monitor_start (monitor_step push take_op) s"
  shows "pushed s = map snd (popped s) @ lst_item (mq s)
    \<and> (lst_item (mq s) \<noteq> [] \<longrightarrow> cond (mq s) = {}
         \<and> (\<forall>i \<in> ready_set s. \<forall>l p. \<exists>x q' t. take_op l p (mq s) = Some (x, q', t)))"
proof -
  have "monitor_inv s" using assms by (rule reachable_inv)
  moreover have "lst_item (mq s) \<noteq> [] \<Longrightarrow> \<exists>x q' t. take_op l p (mq s) = Some (x, q', t)" for l p
    using take_None [of l p "mq s"] by (cases "take_op l p (mq s)") auto
  ultimately show ?thesis by (auto simp: monitor_inv_def)
qed

text \<open>A push that is not refused makes every blocked thread ready.\<close>

lemma push_wakes:
  assumes "push (mq s) x = (0, q')"
  shows "\<exists>s'. monitor_step push take_op s s' \<and> mq s' = q' \<and> ready_set s' = ready_set s \<union> cond (mq s)
    \<and> cond (mq s') = {}"
  using mon_push [of push s x 0 q' take_op, OF assms] push_ok [OF assms]
  by (intro exI [of _ "s\<lparr>mq := q', pushed := pushed s @ [x], ready_set := ready_set s \<union> cond (mq s)\<rparr>"]) simp

end

lemma TVector_take_SomeD:
  "TVector_take l p q = Some (x, q', t) \<Longrightarrow> lst_item q = x # lst_item q' \<and> cond q' = cond q"
  using rate_step_items rate_step_cond
  by (fastforce simp: TVector_take_def split: list.splits prod.splits dest: arg_cong [of _ _ fst])

lemma TVector_take_None: "TVector_take l p q = None \<longleftrightarrow> lst_item q = []"
  by (auto simp: TVector_take_def split: list.splits prod.splits)

interpretation tvector: bounded_queue TVector_push TVector_take
  by unfold_locales
     (auto simp: TVector_push_def TVector_take_None cond_broadcast_def split: if_splits dest: TVector_take_SomeD)

interpretation tqueue: bounded_queue TQueue_push TQueue_take
  by unfold_locales
     (auto simp: TQueue_TVector TVector_push_def TVector_take_None cond_broadcast_def
        split: if_splits dest: TVector_take_SomeD)

text \<open>
  C1: with any number of threads pushing and popping, in any order, the elements come out of
  the vector in the order they went in, each exactly once, and no wake-up is lost: the push of
  an element unblocks every thread that waits, so that while there are elements no thread is
  left blocked, and every thread inside \<open>pop\<close> takes one when it gets the mutex.
\<close>

theorem TVector_fifo:
  assumes "reachable monitor_start (monitor_step TVector_push TVector_take) s"
  shows "pushed s = map snd (popped s) @ lst_item (mq s)
    \<and> (lst_item (mq s) \<noteq> [] \<longrightarrow> cond (mq s) = {}
         \<and> (\<forall>i \<in> ready_set s. \<forall>l p. \<exists>x q' t. TVector_take l p (mq s) = Some (x, q', t)))
    \<and> (\<forall>x q'. TVector_push (mq s) x = (0, q') \<longrightarrow>
         (\<exists>s'. monitor_step TVector_push TVector_take s s' \<and> mq s' = q'
            \<and> ready_set s' = ready_set s \<union> cond (mq s) \<and> cond (mq s') = {}))"
  using tvector.fifo [OF assms] tvector.push_wakes [of s] by (intro conjI allI impI) auto

lemma TVector_fifo_witness:
  "let s0 = \<lparr>mq = TVector_new 0 0 (TimeStamp 1 0), pushed = [], popped = [], ready_set = {}\<rparr>;
       s1 = s0\<lparr>ready_set := insert 7 (ready_set s0)\<rparr>;
       s2 = s1\<lparr>mq := queue_wait 7 (mq s1), ready_set := ready_set s1 - {7}\<rparr>;
       q3 = snd (TVector_push (mq s2) True);
       s3 = s2\<lparr>mq := q3, pushed := pushed s2 @ [True], ready_set := ready_set s2 \<union> (cond (mq s2) - cond q3)\<rparr>
   in lst_item (mq s3) = [True] \<and> pushed s3 = map snd (popped s3) @ lst_item (mq s3)
      \<and> cond (mq s2) = {7} \<and> cond (mq s3) = {} \<and> ready_set s3 = {7}"
proof -
  let ?r = "reachable monitor_start (monitor_step TVector_push TVector_take)"
  let ?s0 = "\<lparr>mq = TVector_new 0 0 (TimeStamp 1 0), pushed = [] :: bool list, popped = [], ready_set = {}\<rparr> :: bool monitor"
  let ?s1 = "?s0\<lparr>ready_set := insert 7 (ready_set ?s0)\<rparr>"
  let ?s2 = "?s1\<lparr>mq := queue_wait 7 (mq ?s1), ready_set := ready_set ?s1 - {7}\<rparr>"
  let ?q3 = "snd (TVector_push (mq ?s2) True)"
  let ?s3 = "?s2\<lparr>mq := ?q3, pushed := (if (0 :: int) = 0 then pushed ?s2 @ [True] else pushed ?s2),
              ready_set := ready_set ?s2 \<union> (cond (mq ?s2) - cond ?q3)\<rparr>"
  have "?r ?s0" by (rule reach_init) (auto simp: monitor_start_def)
  then have "?r ?s1" by (rule reach_step) (rule mon_enter; simp add: TVector_new_def)
  then have "?r ?s2"
    by (rule reach_step) (rule mon_wait [where l = "TimeStamp 1 0" and p = "TimeStamp 1 0"];
        simp add: TVector_take_def TVector_new_def)
  then have "?r ?s3"
    by (rule reach_step) (rule mon_push; simp add: TVector_push_def TVector_new_def queue_wait_def)
  from TVector_fifo [OF this] show ?thesis
    by (simp add: TVector_push_def TVector_new_def queue_wait_def cond_defs)
qed

end
