(* ===== verification/Std_Map.thy ===== *)
theory Std_Map
  imports Cpp_Prelude "HOL-Library.Char_ord" "HOL-Library.List_Lexorder"
begin

text \<open>
  \<open>std::map\<close> as the code uses it: the entries in the order of their keys. \<open>insert\<close> does
  not replace the value of a key that is present, \<open>m[k] = v\<close> does; \<open>begin()\<close> is the entry
  of the least key. A key that is a \<open>std::string\<close> is ordered character by character, as
  unsigned characters: the lexicographic order on \<open>string\<close> of the library.
\<close>

type_synonym ('k, 'v) std_map = "('k \<times> 'v) list"

definition map_wf :: "('k::linorder, 'v) std_map \<Rightarrow> bool" where
  "map_wf m \<longleftrightarrow> sorted_wrt (<) (map fst m)"

definition map_find :: "('k, 'v) std_map \<Rightarrow> 'k \<Rightarrow> 'v option" where
  "map_find m k = map_of m k"

fun map_assign :: "('k::linorder, 'v) std_map \<Rightarrow> 'k \<Rightarrow> 'v \<Rightarrow> ('k, 'v) std_map" where
  "map_assign [] k v = [(k, v)]"
| "map_assign ((k', v') # m) k v =
     (if k < k' then (k, v) # (k', v') # m
      else if k = k' then (k, v) # m
      else (k', v') # map_assign m k v)"

definition map_insert :: "('k::linorder, 'v) std_map \<Rightarrow> 'k \<Rightarrow> 'v \<Rightarrow> ('k, 'v) std_map" where
  "map_insert m k v = (case map_find m k of None \<Rightarrow> map_assign m k v | Some _ \<Rightarrow> m)"

fun map_erase :: "('k, 'v) std_map \<Rightarrow> 'k \<Rightarrow> ('k, 'v) std_map" where
  "map_erase [] k = []"
| "map_erase ((k', v') # m) k = (if k = k' then m else (k', v') # map_erase m k)"

section \<open>Laws\<close>

lemma map_wf_Nil [simp]: "map_wf []"
  by (simp add: map_wf_def)

lemma map_wf_Cons: "map_wf ((k, v) # m) \<longleftrightarrow> (\<forall>k' \<in> fst ` set m. k < k') \<and> map_wf m"
  by (auto simp: map_wf_def)

lemma map_find_Nil [simp]: "map_find [] k = None"
  by (simp add: map_find_def)

lemma map_find_Cons [simp]:
  "map_find ((k', v) # m) k = (if k = k' then Some v else map_find m k)"
  by (simp add: map_find_def)

lemma map_find_None_iff: "map_find m k = None \<longleftrightarrow> k \<notin> fst ` set m"
  by (simp add: map_find_def map_of_eq_None_iff)

lemma map_find_keys: "map_find m k = Some v \<Longrightarrow> k \<in> fst ` set m"
  using map_find_None_iff [of m k] by auto

lemma map_assign_keys [simp]: "fst ` set (map_assign m k v) = insert k (fst ` set m)"
  by (induction m k v rule: map_assign.induct) auto

lemma map_wf_assign [simp]: "map_wf m \<Longrightarrow> map_wf (map_assign m k v)"
  by (induction m k v rule: map_assign.induct) (fastforce simp: map_wf_Cons)+

lemma map_wf_insert [simp]: "map_wf m \<Longrightarrow> map_wf (map_insert m k v)"
  by (simp add: map_insert_def split: option.splits)

lemma map_erase_subset: "set (map_erase m k) \<subseteq> set m"
  by (induction m k rule: map_erase.induct) auto

lemma map_wf_erase [simp]: "map_wf m \<Longrightarrow> map_wf (map_erase m k)"
  by (induction m k rule: map_erase.induct)
     (use map_erase_subset in \<open>fastforce simp: map_wf_Cons\<close>)+

lemma map_find_assign [simp]:
  "map_wf m \<Longrightarrow> map_find (map_assign m k v) k' = (if k' = k then Some v else map_find m k')"
  by (induction m k v rule: map_assign.induct) (auto simp: map_wf_Cons)

lemma map_find_insert [simp]:
  "map_wf m \<Longrightarrow> map_find (map_insert m k v) k' =
     (if k' = k \<and> map_find m k = None then Some v else map_find m k')"
  by (auto simp: map_insert_def split: option.splits)

lemma map_find_erase [simp]:
  "map_wf m \<Longrightarrow> map_find (map_erase m k) k' = (if k' = k then None else map_find m k')"
proof (induction m k rule: map_erase.induct)
  case (2 a b m k)
  have "k = a \<Longrightarrow> map_find m k = None"
    using 2(2) by (auto simp: map_wf_Cons map_find_None_iff)
  with 2 show ?case by (auto simp: map_wf_Cons)
qed simp

lemma map_erase_absent: "map_find m k = None \<Longrightarrow> map_erase m k = m"
  by (induction m k rule: map_erase.induct) (auto split: if_splits)

lemma map_erase_insert: "map_find m k = None \<Longrightarrow> map_wf m \<Longrightarrow> map_erase (map_insert m k v) k = m"
  by (induction m k v rule: map_assign.induct) (auto simp: map_insert_def map_wf_Cons split: if_splits)

lemma map_wf_distinct: "map_wf m \<Longrightarrow> distinct (map fst m)"
  by (auto simp: map_wf_def strict_sorted_iff)

lemma map_find_in: "map_wf m \<Longrightarrow> (k, v) \<in> set m \<longleftrightarrow> map_find m k = Some v"
  by (simp add: map_find_def map_wf_distinct)

lemma map_begin_least: "map_wf ((k, v) # m) \<Longrightarrow> map_find ((k, v) # m) k' = Some w \<Longrightarrow> k \<le> k'"
  by (force simp: map_wf_Cons split: if_splits dest: map_find_keys)

lemma map_find_eqI: "map_wf m \<Longrightarrow> map_wf m' \<Longrightarrow> (\<And>k. map_find m k = map_find m' k) \<Longrightarrow> set m = set m'"
  by (metis map_find_in subrelI subset_antisym)

lemma map_wf_filter [simp]: "map_wf m \<Longrightarrow> map_wf (filter P m)"
  by (induction m) (auto simp: map_wf_Cons split: prod.splits)

lemma map_find_filter:
  "map_wf m \<Longrightarrow> map_find (filter (\<lambda>(k, v). P v) m) k =
     (case map_find m k of Some v \<Rightarrow> if P v then Some v else None | None \<Rightarrow> None)"
proof (induction m)
  case (Cons e m)
  obtain a b where e: "e = (a, b)" by fastforce
  have "k = a \<Longrightarrow> map_find m k = None"
    using Cons.prems by (auto simp: e map_wf_Cons map_find_None_iff)
  then show ?case using Cons by (auto simp: e map_wf_Cons)
qed simp

lemmas map_laws =
  map_find_assign map_find_insert map_find_erase map_wf_assign map_wf_insert map_wf_erase

end
