(* ===== verification/TMap.thy ===== *)
theory TMap
  imports Std_Map CondVar
begin

text \<open>
  src/TMapInt.h and src/TMapString.h: maps behind a mutex. Each method is a function on the
  state that the mutex guards, since that makes it one critical section; for \<open>TMapString\<close> this
  includes the condition variable, that is the threads blocked on it. Its methods that wait take
  what the wait returns and the state that the thread finds after it as parameters.
\<close>

section \<open>TMapInt\<close>

type_synonym 'v int_map = "(int, 'v) std_map"

definition TMapInt_new :: "'v int_map" where
  "TMapInt_new = []"

definition TMapInt_size :: "'v int_map \<Rightarrow> uint" where
  "TMapInt_size m = of_nat (length m)"

definition TMapInt_empty :: "'v int_map \<Rightarrow> bool" where
  "TMapInt_empty m \<longleftrightarrow> m = []"

definition TMapInt_get :: "'v int_map \<Rightarrow> int \<Rightarrow> bool \<times> 'v option" where
  "TMapInt_get m key = (case map_find m key of Some v \<Rightarrow> (True, Some v) | None \<Rightarrow> (False, None))"

definition TMapInt_insert :: "'v int_map \<Rightarrow> int \<Rightarrow> 'v \<Rightarrow> 'v int_map" where
  "TMapInt_insert m key v = map_insert m key v"

definition TMapInt_del :: "'v int_map \<Rightarrow> int \<Rightarrow> 'v int_map" where
  "TMapInt_del m key = (case map_find m key of Some _ \<Rightarrow> map_erase m key | None \<Rightarrow> m)"

definition TMapInt_clear :: "'v int_map \<Rightarrow> 'v int_map" where
  "TMapInt_clear m = []"

section \<open>TMapString\<close>

type_synonym 'v string_map = "(string, 'v) std_map"

record 'v tmap_string =
  tm_items :: "'v string_map"
  tm_cond :: blocked_threads

definition TMapString_new :: "'v tmap_string" where
  "TMapString_new = \<lparr>tm_items = [], tm_cond = {}\<rparr>"

definition TMapString_size :: "'v tmap_string \<Rightarrow> uint" where
  "TMapString_size m = of_nat (length (tm_items m))"

definition TMapString_empty :: "'v tmap_string \<Rightarrow> bool" where
  "TMapString_empty m \<longleftrightarrow> tm_items m = []"

text \<open>
  \<open>while(_items.empty())\<close> of \<open>pop\<close> and \<open>pop_front\<close>: \<open>waits n\<close> is what the \<open>n\<close>-th wait returns
  and the state found after it.
\<close>

partial_function (option) wait_filled ::
  "(nat \<Rightarrow> int \<times> 'v tmap_string) \<Rightarrow> nat \<Rightarrow> 'v tmap_string \<Rightarrow> (int \<times> 'v tmap_string) option" where
  "wait_filled waits n m =
     (if tm_items m = [] then
        (if fst (waits n) \<noteq> 0 then Some (- 1, snd (waits n))
         else wait_filled waits (n + 1) (snd (waits n)))
      else Some (0, m))"

definition TMapString_pop :: "(nat \<Rightarrow> int \<times> 'v tmap_string) \<Rightarrow> string \<Rightarrow> 'v tmap_string
    \<Rightarrow> (int \<times> 'v option \<times> 'v tmap_string) option" where
  "TMapString_pop waits key m =
     do { (nRet, m) \<leftarrow> wait_filled waits 0 m;
          if nRet \<noteq> 0 then Some (- 1, None, m)
          else case map_find (tm_items m) key of
                 Some v \<Rightarrow> Some (nRet, Some v, m\<lparr>tm_items := map_erase (tm_items m) key\<rparr>)
               | None \<Rightarrow> Some (- 2, None, m) }"

definition TMapString_pop_timed :: "int \<times> 'v tmap_string \<Rightarrow> string \<Rightarrow> 'v tmap_string
    \<Rightarrow> int \<times> 'v option \<times> 'v tmap_string" where
  "TMapString_pop_timed waited key m =
     (case map_find (tm_items m) key of
        Some v \<Rightarrow> (0, Some v, m\<lparr>tm_items := map_erase (tm_items m) key\<rparr>)
      | None \<Rightarrow>
          (let (nRet, m) = waited in
           case map_find (tm_items m) key of
             Some v \<Rightarrow> (0, Some v, m\<lparr>tm_items := map_erase (tm_items m) key\<rparr>)
           | None \<Rightarrow> (nRet, None, m)))"

definition TMapString_pop_front :: "(nat \<Rightarrow> int \<times> 'v tmap_string) \<Rightarrow> 'v tmap_string
    \<Rightarrow> (int \<times> 'v option \<times> 'v tmap_string) option" where
  "TMapString_pop_front waits m =
     do { (nRet, m) \<leftarrow> wait_filled waits 0 m;
          if nRet \<noteq> 0 then Some (- 1, None, m)
          else case tm_items m of
                 (k, v) # rest \<Rightarrow> Some (0, Some v, m\<lparr>tm_items := rest\<rparr>)
               | [] \<Rightarrow> None }"

text \<open>\<open>push\<close> inserts, which keeps the value of a key that is there, and wakes every waiter.\<close>

definition TMapString_push :: "'v tmap_string \<Rightarrow> string \<Rightarrow> 'v \<Rightarrow> int \<times> 'v tmap_string" where
  "TMapString_push m key v =
     (let m = m\<lparr>tm_items := map_insert (tm_items m) key v\<rparr>;
          m = m\<lparr>tm_cond := cond_broadcast (tm_cond m)\<rparr>
      in (0, m))"

section \<open>The contract: a partial function that keeps the first value\<close>

text \<open>Operations on a keyed store, and what they mean on a partial function.\<close>

datatype ('k, 'v) store_op = Insert 'k 'v | Delete 'k

fun abstract_op :: "('k, 'v) store_op \<Rightarrow> ('k \<Rightarrow> 'v option) \<Rightarrow> ('k \<Rightarrow> 'v option)" where
  "abstract_op (Insert k v) f = (if f k = None then f(k \<mapsto> v) else f)"
| "abstract_op (Delete k) f = f(k := None)"

fun store_run :: "('s \<Rightarrow> 'k \<Rightarrow> 'v \<Rightarrow> 's) \<Rightarrow> ('s \<Rightarrow> 'k \<Rightarrow> 's) \<Rightarrow> ('k, 'v) store_op list \<Rightarrow> 's \<Rightarrow> 's" where
  "store_run ins del [] s = s"
| "store_run ins del (Insert k v # ops) s = store_run ins del ops (ins s k v)"
| "store_run ins del (Delete k # ops) s = store_run ins del ops (del s k)"

locale keyed_store =
  fixes lookup :: "'s \<Rightarrow> 'k \<Rightarrow> 'v option"
    and ins :: "'s \<Rightarrow> 'k \<Rightarrow> 'v \<Rightarrow> 's"
    and del :: "'s \<Rightarrow> 'k \<Rightarrow> 's"
    and wf :: "'s \<Rightarrow> bool"
  assumes wf_ins: "wf s \<Longrightarrow> wf (ins s k v)"
    and wf_del: "wf s \<Longrightarrow> wf (del s k)"
    and lookup_ins: "wf s \<Longrightarrow> lookup (ins s k v) = abstract_op (Insert k v) (lookup s)"
    and lookup_del: "wf s \<Longrightarrow> lookup (del s k) = abstract_op (Delete k) (lookup s)"
begin

lemma run_wf: "wf s \<Longrightarrow> wf (store_run ins del ops s)"
proof (induction ops arbitrary: s)
  case (Cons op ops)
  then show ?case by (cases op) (simp_all add: wf_ins wf_del)
qed simp

lemma run_refines: "wf s \<Longrightarrow> lookup (store_run ins del ops s) = fold abstract_op ops (lookup s)"
proof (induction ops arbitrary: s)
  case (Cons op ops)
  then show ?case
    by (cases op)
       (simp_all add: wf_ins wf_del lookup_ins lookup_del del: abstract_op.simps)
qed simp

lemma first_insert_wins: "wf s \<Longrightarrow> lookup s k = None \<Longrightarrow> lookup (ins (ins s k v) k w) k = Some v"
  by (simp add: wf_ins lookup_ins)

end

interpretation int_store: keyed_store "\<lambda>m k. snd (TMapInt_get m k)" TMapInt_insert TMapInt_del map_wf
  by unfold_locales
     (auto simp: TMapInt_get_def TMapInt_insert_def TMapInt_del_def fun_eq_iff split: option.splits)

interpretation string_store: keyed_store "\<lambda>m. map_find (tm_items m)" "\<lambda>m k v. snd (TMapString_push m k v)"
    "\<lambda>m k. snd (snd (TMapString_pop_timed (0, m) k m))" "\<lambda>m. map_wf (tm_items m)"
  by unfold_locales
     (auto simp: TMapString_push_def TMapString_pop_timed_def Let_def fun_eq_iff split: option.splits)

lemma map_wf_card: "map_wf m \<Longrightarrow> length m = card (dom (map_find m))"
proof -
  assume "map_wf m"
  then have "distinct (map fst m)" by (rule map_wf_distinct)
  then have "card (fst ` set m) = length m" by (metis distinct_card length_map list.set_map)
  moreover have "dom (map_find m) = fst ` set m" by (simp add: dom_def map_find_None_iff)
  ultimately show ?thesis by simp
qed

lemma TMapInt_get_find: "snd (TMapInt_get m k) = map_find m k"
  by (simp add: TMapInt_get_def split: option.splits)

text \<open>
  C33: \<open>TMapInt\<close> is a partial function under any sequence of \<open>insert\<close> and \<open>del\<close>: \<open>get\<close> finds
  exactly the keys that are present, with the value of the first \<open>insert\<close> since the key was
  last deleted (a second \<open>insert\<close> of a key changes nothing), and the number of entries is the
  number of keys.
\<close>

theorem TMapInt_refines:
  "let m = store_run TMapInt_insert TMapInt_del ops TMapInt_new;
       f = fold abstract_op ops (\<lambda>k. None)
   in (\<forall>k. TMapInt_get m k = (f k \<noteq> None, f k)) \<and> length m = card (dom f)
      \<and> TMapInt_size m = of_nat (card (dom f))"
proof -
  let ?m = "store_run TMapInt_insert TMapInt_del ops TMapInt_new"
  let ?f = "fold abstract_op ops (\<lambda>k. None)"
  have wf: "map_wf ?m" by (rule int_store.run_wf) (simp add: TMapInt_new_def)
  have "(\<lambda>k. snd (TMapInt_get ?m k)) = fold abstract_op ops (\<lambda>k. snd (TMapInt_get TMapInt_new k))"
    by (rule int_store.run_refines) (simp add: TMapInt_new_def)
  then have f: "map_find ?m = ?f"
    by (simp add: TMapInt_get_find TMapInt_new_def)
  have "TMapInt_get ?m k = (?f k \<noteq> None, ?f k)" for k
    by (simp add: TMapInt_get_def flip: f split: option.splits)
  then show ?thesis using map_wf_card [OF wf] f by (simp add: TMapInt_size_def Let_def)
qed

section \<open>Taking entries out of a TMapString\<close>

lemma wait_filled_now [simp]: "tm_items m \<noteq> [] \<Longrightarrow> wait_filled waits n m = Some (0, m)"
  by (simp add: wait_filled.simps)

lemma wait_filled_empty: "tm_items m = [] \<Longrightarrow> wait_filled waits n m =
    (if fst (waits n) \<noteq> 0 then Some (- 1, snd (waits n)) else wait_filled waits (n + 1) (snd (waits n)))"
  by (simp add: wait_filled.simps)

text \<open>
  The wait that ends it: the first that fails or finds the map filled. \<open>ends_wait m waits r m1\<close>
  says that the loop, entered with \<open>m\<close>, ends with the result \<open>r\<close> of the last wait (0 if there was
  none) and the state \<open>m1\<close>.
\<close>

definition ends_wait :: "'v tmap_string \<Rightarrow> (nat \<Rightarrow> int \<times> 'v tmap_string) \<Rightarrow> int \<Rightarrow> 'v tmap_string \<Rightarrow> bool" where
  "ends_wait m waits r m1 \<longleftrightarrow>
     (if tm_items m \<noteq> [] then r = 0 \<and> m1 = m
      else \<exists>k. (\<forall>i < k. fst (waits i) = 0 \<and> tm_items (snd (waits i)) = []) \<and> waits k = (r, m1)
             \<and> (r \<noteq> 0 \<or> tm_items m1 \<noteq> []))"

lemma wait_filled_after:
  "\<forall>i < k. fst (waits (n + i)) = 0 \<and> tm_items (snd (waits (n + i))) = [] \<Longrightarrow> tm_items m = [] \<Longrightarrow>
   waits (n + k) = (r, m1) \<Longrightarrow> r \<noteq> 0 \<or> tm_items m1 \<noteq> [] \<Longrightarrow>
   wait_filled waits n m = Some (if r \<noteq> 0 then - 1 else 0, m1)"
proof (induction k arbitrary: n m)
  case 0
  then show ?case by (simp add: wait_filled_empty)
next
  case (Suc k)
  have 0: "fst (waits n) = 0" "tm_items (snd (waits n)) = []" using Suc.prems(1) by (metis add_0_right zero_less_Suc)+
  have "wait_filled waits (n + 1) (snd (waits n)) = Some (if r \<noteq> 0 then - 1 else 0, m1)"
  proof (rule Suc.IH)
    show "\<forall>i < k. fst (waits (n + 1 + i)) = 0 \<and> tm_items (snd (waits (n + 1 + i))) = []"
    proof (intro allI impI)
      fix i assume "i < k"
      then have "Suc i < Suc k" by simp
      with Suc.prems(1) show "fst (waits (n + 1 + i)) = 0 \<and> tm_items (snd (waits (n + 1 + i))) = []"
        by (metis Suc_eq_plus1 add_Suc_right add_Suc_shift)
    qed
  qed (use 0 Suc.prems in simp_all)
  then show ?case using 0 Suc.prems(2) by (simp add: wait_filled_empty)
qed

lemma wait_filled_ends: "ends_wait m waits r m1 \<Longrightarrow> wait_filled waits 0 m = Some (if r \<noteq> 0 then - 1 else 0, m1)"
  using wait_filled_after [of _ waits 0 m r m1] by (auto simp: ends_wait_def split: if_splits)

text \<open>
  C34: \<open>pop\<close> and \<open>pop_front\<close> of a \<open>TMapString\<close> go on at once if the map is not empty, and else
  after the first wait that fails or finds it filled. If the wait failed they return -1. Else
  \<open>pop\<close> takes out the entry of its key and touches no other, or returns -2 and changes nothing
  if the key is absent; \<open>pop_front\<close> takes the entry of the least key. The timed \<open>pop\<close> takes the
  entry if it is there at once, or after one wait; otherwise it returns what the wait returned,
  with nothing taken: 0, the code of success, if that was a wake-up for another key. A \<open>push\<close> of
  an absent key unblocks every thread, and the next \<open>pop\<close> of the key gives the value and the
  entries as they were.
\<close>

theorem TMapString_pop_correct:
  assumes "map_wf (tm_items m)" and "map_wf (tm_items m1)" and "ends_wait m waits r m1"
  shows "TMapString_pop waits key m = Some
      (if r \<noteq> 0 then (- 1, None, m1)
       else case map_find (tm_items m1) key of
              Some v \<Rightarrow> (0, Some v, m1\<lparr>tm_items := map_erase (tm_items m1) key\<rparr>)
            | None \<Rightarrow> (- 2, None, m1))
    \<and> (\<forall>key'. map_find (map_erase (tm_items m1) key) key' = (if key' = key then None else map_find (tm_items m1) key'))
    \<and> (if r \<noteq> 0 then TMapString_pop_front waits m = Some (- 1, None, m1)
       else \<exists>k0 v. TMapString_pop_front waits m = Some (0, Some v, m1\<lparr>tm_items := map_erase (tm_items m1) k0\<rparr>)
          \<and> map_find (tm_items m1) k0 = Some v \<and> (\<forall>k1 w. map_find (tm_items m1) k1 = Some w \<longrightarrow> k0 \<le> k1))
    \<and> (\<forall>r2 m2. TMapString_pop_timed (r2, m2) key m =
         (case (map_find (tm_items m) key, map_find (tm_items m2) key) of
            (Some v, _) \<Rightarrow> (0, Some v, m\<lparr>tm_items := map_erase (tm_items m) key\<rparr>)
          | (None, Some v) \<Rightarrow> (0, Some v, m2\<lparr>tm_items := map_erase (tm_items m2) key\<rparr>)
          | (None, None) \<Rightarrow> (r2, None, m2)))
    \<and> (map_find (tm_items m) key = None \<longrightarrow>
         (\<forall>v waits'. \<exists>m3. TMapString_push m key v = (0, m3) \<and> tm_cond m3 = {}
            \<and> TMapString_pop waits' key m3 = Some (0, Some v, m\<lparr>tm_cond := {}\<rparr>)))"
proof -
  have w: "wait_filled waits 0 m = Some (if r \<noteq> 0 then - 1 else 0, m1)" using assms(3) by (rule wait_filled_ends)
  have pop: "TMapString_pop waits key m = Some
      (if r \<noteq> 0 then (- 1, None, m1)
       else case map_find (tm_items m1) key of
              Some v \<Rightarrow> (0, Some v, m1\<lparr>tm_items := map_erase (tm_items m1) key\<rparr>)
            | None \<Rightarrow> (- 2, None, m1))"
    by (simp add: TMapString_pop_def w split: option.splits)
  have front: "if r \<noteq> 0 then TMapString_pop_front waits m = Some (- 1, None, m1)
       else \<exists>k0 v. TMapString_pop_front waits m = Some (0, Some v, m1\<lparr>tm_items := map_erase (tm_items m1) k0\<rparr>)
          \<and> map_find (tm_items m1) k0 = Some v \<and> (\<forall>k1 w. map_find (tm_items m1) k1 = Some w \<longrightarrow> k0 \<le> k1)"
  proof (cases "r = 0")
    case True
    then have "tm_items m1 \<noteq> []" using assms(3) by (auto simp: ends_wait_def split: if_splits)
    then obtain k0 v rest where m1: "tm_items m1 = (k0, v) # rest" by (cases "tm_items m1") auto
    have "map_find (tm_items m1) k1 = Some w' \<Longrightarrow> k0 \<le> k1" for k1 w'
      unfolding m1 by (rule map_begin_least [OF assms(2) [unfolded m1]])
    then show ?thesis
      using True by (auto simp: TMapString_pop_front_def w m1 intro!: exI [of _ k0])
  qed (simp add: TMapString_pop_front_def w)
  have again: "\<exists>m3. TMapString_push m key v = (0, m3) \<and> tm_cond m3 = {}
      \<and> TMapString_pop waits' key m3 = Some (0, Some v, m\<lparr>tm_cond := {}\<rparr>)"
    if "map_find (tm_items m) key = None" for v and waits' :: "nat \<Rightarrow> int \<times> 'a tmap_string"
  proof -
    have find: "map_find (map_insert (tm_items m) key v) key = Some v"
      using that assms(1) map_find_insert [of "tm_items m" key v key] by simp
    then have "map_insert (tm_items m) key v \<noteq> []" by auto
    moreover note find
    moreover have "map_erase (map_insert (tm_items m) key v) key = tm_items m"
      using that assms(1) by (rule map_erase_insert)
    ultimately show ?thesis
      by (simp add: TMapString_push_def TMapString_pop_def cond_broadcast_def)
  qed
  show ?thesis
    using pop front again assms(2) by (auto simp: TMapString_pop_timed_def split: option.splits)
qed

lemma TMapString_pop_correct_witness:
  "let m = \<lparr>tm_items = [(''a'', 7 :: nat), (''b'', 2)], tm_cond = {}\<rparr>;
       waits = (\<lambda>n. if n = 2 then (0, m) else (0, TMapString_new\<lparr>tm_cond := {n}\<rparr>))
   in TMapString_pop waits ''b'' TMapString_new = Some (0, Some 2, \<lparr>tm_items = [(''a'', 7)], tm_cond = {}\<rparr>)
      \<and> TMapString_pop_timed (0, m) ''c'' TMapString_new = (0, None, m)"
proof -
  let ?m = "\<lparr>tm_items = [(''a'', 7 :: nat), (''b'', 2)], tm_cond = {}\<rparr> :: nat tmap_string"
  let ?w = "\<lambda>n. if n = 2 then (0, ?m) else (0 :: int, TMapString_new\<lparr>tm_cond := {n}\<rparr>)"
  have wf: "map_wf (tm_items (TMapString_new :: nat tmap_string))" "map_wf (tm_items ?m)"
    by (simp_all add: map_wf_def TMapString_new_def)
  have "ends_wait TMapString_new ?w 0 ?m"
    by (auto simp: ends_wait_def TMapString_new_def intro!: exI [of _ 2])
  note t = TMapString_pop_correct [OF wf this]
  have "TMapString_pop ?w ''b'' TMapString_new = Some (0, Some 2, \<lparr>tm_items = [(''a'', 7)], tm_cond = {}\<rparr>)"
    using conjunct1 [OF t [of "''b''"]] by simp
  moreover have "TMapString_pop_timed (0, ?m) ''c'' TMapString_new = (0, None, ?m)"
    using conjunct1 [OF conjunct2 [OF conjunct2 [OF conjunct2 [OF t [of "''c''"]]]], THEN spec, THEN spec, of 0 ?m]
    by (simp add: TMapString_new_def)
  ultimately show ?thesis by (simp only: Let_def)
qed

end
