(* ===== verification/TSingleton.thy ===== *)
theory TSingleton
  imports Cpp_Prelude
begin

text \<open>
  src/TSingleton.h: \<open>GetInstance\<close> creates the one instance by double-checked locking. A
  thread inside it is at one of the points of \<open>pc\<close>; a step is one access to the shared
  variables, in any interleaving of any number of threads. The steps are sequentially
  consistent: what a weaker memory order may do to the unlocked read is not modelled.
\<close>

datatype (plugins only: code size) pc =
    First_Check    \<comment> \<open>about to read \<open>m_pInstance\<close> without the lock\<close>
  | Lock           \<comment> \<open>about to take \<open>m_singleton_lock\<close>\<close>
  | Second_Check   \<comment> \<open>about to read \<open>m_pInstance\<close> under the lock\<close>
  | New            \<comment> \<open>about to assign \<open>new T\<close>\<close>
  | Unlock         \<comment> \<open>about to release the lock\<close>
  | Return         \<comment> \<open>about to read \<open>m_pInstance\<close> for the result\<close>
  | Returned "nat option"

record singleton =
  m_pInstance :: "nat option"
  m_singleton_lock :: "nat option"
  pcs :: "nat \<Rightarrow> pc"
  created :: nat

definition singleton_start :: "singleton \<Rightarrow> bool" where
  "singleton_start s \<longleftrightarrow> m_pInstance s = None \<and> m_singleton_lock s = None
     \<and> pcs s = (\<lambda>i. First_Check) \<and> created s = 0"

text \<open>The one transition that thread \<open>i\<close> can make in a state; \<open>None\<close> if it cannot move.\<close>

definition GetInstance_step :: "nat \<Rightarrow> singleton \<Rightarrow> singleton option" where
  "GetInstance_step i s =
     (case pcs s i of
        First_Check \<Rightarrow>
          Some (s\<lparr>pcs := (pcs s)(i := (if m_pInstance s = None then Lock else Return))\<rparr>)
      | Lock \<Rightarrow>
          (if m_singleton_lock s = None
           then Some (s\<lparr>m_singleton_lock := Some i, pcs := (pcs s)(i := Second_Check)\<rparr>) else None)
      | Second_Check \<Rightarrow>
          Some (s\<lparr>pcs := (pcs s)(i := (if m_pInstance s = None then New else Unlock))\<rparr>)
      | New \<Rightarrow>
          Some (s\<lparr>m_pInstance := Some (created s), created := created s + 1,
                 pcs := (pcs s)(i := Unlock)\<rparr>)
      | Unlock \<Rightarrow>
          Some (s\<lparr>m_singleton_lock := None, pcs := (pcs s)(i := Return)\<rparr>)
      | Return \<Rightarrow> Some (s\<lparr>pcs := (pcs s)(i := Returned (m_pInstance s))\<rparr>)
      | Returned p \<Rightarrow> None)"

definition singleton_step :: "singleton \<Rightarrow> singleton \<Rightarrow> bool" where
  "singleton_step s t \<longleftrightarrow> (\<exists>i. GetInstance_step i s = Some t)"

text \<open>The points between \<open>lock\<close> and \<open>unlock\<close>.\<close>

definition holds_lock :: "pc \<Rightarrow> bool" where
  "holds_lock p \<longleftrightarrow> p = Second_Check \<or> p = New \<or> p = Unlock"

definition singleton_inv :: "singleton \<Rightarrow> bool" where
  "singleton_inv s \<longleftrightarrow>
     (\<forall>i. holds_lock (pcs s i) \<longleftrightarrow> m_singleton_lock s = Some i)
   \<and> m_pInstance s = (if created s = 0 then None else Some 0) \<and> created s \<le> 1
   \<and> (\<forall>i. pcs s i = New \<longrightarrow> created s = 0)
   \<and> (\<forall>i. pcs s i = Unlock \<or> pcs s i = Return \<longrightarrow> created s = 1)
   \<and> (\<forall>i p. pcs s i = Returned p \<longrightarrow> created s = 1 \<and> p = Some 0)"

lemma singleton_inv_lock:
  "singleton_inv s \<Longrightarrow> holds_lock (pcs s i) \<longleftrightarrow> m_singleton_lock s = Some i"
  by (simp add: singleton_inv_def)

lemma GetInstance_keeps:
  assumes inv: "singleton_inv s" and step: "GetInstance_step i s = Some t"
  shows "singleton_inv t"
proof (cases "pcs s i")
  case Unlock
  then have "m_singleton_lock s = Some i"
    using singleton_inv_lock [OF inv, of i] by (simp add: holds_lock_def)
  then show ?thesis
    using inv step Unlock by (auto simp: singleton_inv_def GetInstance_step_def holds_lock_def split: if_splits)
next
  case Lock
  then show ?thesis
    using inv step
    by (auto simp: singleton_inv_def GetInstance_step_def holds_lock_def split: if_splits)
next
  case New
  then have "m_singleton_lock s = Some i" and "created s = 0"
    using inv singleton_inv_lock [OF inv, of i] by (auto simp: singleton_inv_def holds_lock_def)
  moreover have "\<forall>j. j \<noteq> i \<longrightarrow> pcs s j \<noteq> New"
    using inv \<open>m_singleton_lock s = Some i\<close> by (auto simp: singleton_inv_def holds_lock_def)
  ultimately show ?thesis
    using inv step New
    by (auto simp: singleton_inv_def GetInstance_step_def holds_lock_def split: if_splits)
next
  case First_Check
  then have "t = s\<lparr>pcs := (pcs s)(i := (if m_pInstance s = None then Lock else Return))\<rparr>"
    using step by (simp add: GetInstance_step_def)
  moreover have "m_singleton_lock s \<noteq> Some i"
    using singleton_inv_lock [OF inv, of i] First_Check by (simp add: holds_lock_def)
  ultimately show ?thesis
    using inv by (cases "created s = 0") (auto simp: singleton_inv_def holds_lock_def)
next
  case Second_Check
  then have "t = s\<lparr>pcs := (pcs s)(i := (if m_pInstance s = None then New else Unlock))\<rparr>"
    using step by (simp add: GetInstance_step_def)
  moreover have "m_singleton_lock s = Some i"
    using singleton_inv_lock [OF inv, of i] Second_Check by (simp add: holds_lock_def)
  ultimately show ?thesis
    using inv by (cases "created s = 0") (auto simp: singleton_inv_def holds_lock_def)
next
  case Return
  then have "t = s\<lparr>pcs := (pcs s)(i := Returned (m_pInstance s))\<rparr>"
    using step by (simp add: GetInstance_step_def)
  moreover have "m_singleton_lock s \<noteq> Some i" and "created s = 1"
    using singleton_inv_lock [OF inv, of i] Return inv by (auto simp: holds_lock_def singleton_inv_def)
  ultimately show ?thesis
    using inv by (auto simp: singleton_inv_def holds_lock_def)
next
  case (Returned p)
  then show ?thesis using step by (simp add: GetInstance_step_def)
qed

interpretation singleton_machine: invariant_machine singleton_start singleton_step singleton_inv
proof unfold_locales
  show "singleton_inv s" if "singleton_start s" for s
    using that by (simp add: singleton_start_def singleton_inv_def holds_lock_def)
  show "singleton_inv t" if "singleton_inv s" "singleton_step s t" for s t
    using that by (auto simp: singleton_step_def intro: GetInstance_keeps)
qed

text \<open>
  C20: whatever the interleaving, at most one instance is ever created, the lock is held by
  at most one thread, every call that has returned has returned that one instance and not
  NULL, and the threads never block each other for good: while some call has not returned,
  some thread can move.
\<close>

theorem one_instance:
  assumes "reachable singleton_start singleton_step s"
  shows "created s \<le> 1
    \<and> (\<forall>i j p r. pcs s i = Returned p \<and> pcs s j = Returned r \<longrightarrow> p = r \<and> p \<noteq> None)
    \<and> (\<forall>i j. holds_lock (pcs s i) \<and> holds_lock (pcs s j) \<longrightarrow> i = j)
    \<and> ((\<exists>i. \<forall>p. pcs s i \<noteq> Returned p) \<longrightarrow> (\<exists>t. singleton_step s t))"
proof -
  have inv: "singleton_inv s" using assms by (rule singleton_machine.reachable_inv)
  have "\<exists>t. singleton_step s t" if *: "\<forall>p. pcs s i \<noteq> Returned p" for i
  proof (cases "m_singleton_lock s")
    case None
    then have "GetInstance_step i s \<noteq> None"
      using * by (auto simp: GetInstance_step_def split: pc.splits)
    then show ?thesis by (auto simp: singleton_step_def)
  next
    case (Some j)
    then have "holds_lock (pcs s j)" using inv by (simp add: singleton_inv_def)
    then have "GetInstance_step j s \<noteq> None"
      by (auto simp: GetInstance_step_def holds_lock_def split: pc.splits)
    then show ?thesis by (auto simp: singleton_step_def)
  qed
  moreover have "p = Some 0" if "pcs s i = Returned p" for i p
    using inv that by (auto simp: singleton_inv_def)
  moreover have "i = j" if "holds_lock (pcs s i)" "holds_lock (pcs s j)" for i j
    using that by (simp add: singleton_inv_lock [OF inv])
  moreover have "created s \<le> 1" using inv by (simp add: singleton_inv_def)
  ultimately show ?thesis by blast
qed

lemma one_instance_witness:
  "created \<lparr>m_pInstance = None, m_singleton_lock = None, pcs = (\<lambda>i. First_Check)(3 := Lock), created = 0\<rparr> \<le> 1
   \<and> (\<exists>t. singleton_step
        \<lparr>m_pInstance = None, m_singleton_lock = None, pcs = (\<lambda>i. First_Check)(3 := Lock), created = 0\<rparr> t)"
proof -
  let ?s = "\<lparr>m_pInstance = None, m_singleton_lock = None, pcs = \<lambda>i. First_Check, created = 0\<rparr>"
  let ?t = "\<lparr>m_pInstance = None, m_singleton_lock = None, pcs = (\<lambda>i. First_Check)(3 := Lock), created = 0\<rparr>"
  have "reachable singleton_start singleton_step ?s"
    by (rule reach_init) (simp add: singleton_start_def)
  then have r: "reachable singleton_start singleton_step ?t"
    by (rule reach_step) (auto simp: singleton_step_def GetInstance_step_def intro!: exI [of _ 3])
  have "\<exists>i. \<forall>p. pcs ?t i \<noteq> Returned p" by (rule exI [of _ 3]) simp
  with one_instance [OF r] show ?thesis by blast
qed

section \<open>Every call returns\<close>

text \<open>The steps of the first \<open>N\<close> threads, and how many steps a thread has left at most.\<close>

definition singleton_steps :: "nat \<Rightarrow> singleton \<Rightarrow> singleton \<Rightarrow> bool" where
  "singleton_steps N s t \<longleftrightarrow> (\<exists>i < N. GetInstance_step i s = Some t)"

fun steps_left :: "pc \<Rightarrow> nat" where
  "steps_left First_Check = 6"
| "steps_left Lock = 5"
| "steps_left Second_Check = 4"
| "steps_left New = 3"
| "steps_left Unlock = 2"
| "steps_left Return = 1"
| "steps_left (Returned p) = 0"

definition team_inv :: "nat \<Rightarrow> singleton \<Rightarrow> bool" where
  "team_inv N s \<longleftrightarrow> singleton_inv s \<and> (\<forall>i \<ge> N. pcs s i = First_Check)"

lemma GetInstance_step_pc:
  "GetInstance_step i s = Some t \<Longrightarrow>
   \<exists>p. pcs t = (pcs s)(i := p) \<and> steps_left p < steps_left (pcs s i)"
  by (auto simp: GetInstance_step_def split: pc.splits if_splits)

interpretation singleton_team: ranked_machine singleton_start "singleton_steps N" "team_inv N"
  "\<lambda>s. \<Sum>i<N. steps_left (pcs s i)" for N
proof unfold_locales
  show "team_inv N s" if "singleton_start s" for s
    using that singleton_machine.inv_init by (simp add: team_inv_def singleton_start_def)
next
  fix s t assume inv: "team_inv N s" and "singleton_steps N s t"
  then obtain i where i: "i < N" "GetInstance_step i s = Some t" by (auto simp: singleton_steps_def)
  from GetInstance_step_pc [OF i(2)] obtain p where
    p: "pcs t = (pcs s)(i := p)" "steps_left p < steps_left (pcs s i)" by blast
  show "team_inv N t"
    using inv GetInstance_keeps [OF _ i(2)] p(1) i(1) by (auto simp: team_inv_def)
  show "(\<Sum>j<N. steps_left (pcs t j)) < (\<Sum>j<N. steps_left (pcs s j))"
    using p i(1) by (intro sum_strict_mono_ex1) auto
qed

lemma stuck_returned:
  assumes inv: "team_inv N s" and stuck: "\<forall>t. \<not> singleton_steps N s t" and i: "i < N"
  shows "pcs s i = Returned (Some 0)"
proof -
  have no: "GetInstance_step j s = None" if "j < N" for j
    using stuck that by (cases "GetInstance_step j s") (auto simp: singleton_steps_def)
  have free: "m_singleton_lock s = None"
  proof (cases "m_singleton_lock s")
    case (Some j)
    then have h: "holds_lock (pcs s j)" using inv by (simp add: team_inv_def singleton_inv_def)
    then have "j < N" using inv by (auto simp: team_inv_def holds_lock_def not_less [symmetric])
    with no [of j] h show ?thesis by (auto simp: GetInstance_step_def holds_lock_def split: pc.splits)
  qed
  with no [OF i] obtain p where "pcs s i = Returned p"
    by (auto simp: GetInstance_step_def split: pc.splits if_splits)
  with inv show ?thesis by (auto simp: team_inv_def singleton_inv_def)
qed

text \<open>
  C21: \<open>N\<close> threads that call \<open>GetInstance\<close>, in any interleaving, make at most \<open>6 * N\<close> steps in all,
  and wherever they are, they can go on until every call has returned; when no thread can
  move any more, every call has returned the same instance, and one was created.
\<close>

theorem get_instance_live:
  assumes "singleton_start s" and "(singleton_steps N ^^ n) s t"
  shows "n \<le> 6 * N
    \<and> ((\<forall>u. \<not> singleton_steps N t u) \<longrightarrow>
        (\<forall>i < N. pcs t i = Returned (Some 0)) \<and> (0 < N \<longrightarrow> created t = 1))
    \<and> (\<exists>m u. (singleton_steps N ^^ m) t u \<and> (\<forall>i < N. pcs u i = Returned (Some 0)))"
proof -
  have s: "team_inv N s" using assms(1) by (rule singleton_team.inv_init)
  have "(\<Sum>i<N. steps_left (pcs s i)) = 6 * N" using assms(1) by (simp add: singleton_start_def)
  with singleton_team.run_bounded [OF assms(2) s] have t: "team_inv N t" and n: "n \<le> 6 * N" by auto
  from singleton_team.run_ends [OF t] obtain m u where
    u: "(singleton_steps N ^^ m) t u" "\<forall>v. \<not> singleton_steps N u v" by blast
  then have "team_inv N u" using singleton_team.run_bounded t by blast
  with u stuck_returned have
    "\<exists>m u. (singleton_steps N ^^ m) t u \<and> (\<forall>i < N. pcs u i = Returned (Some 0))" by blast
  moreover have "(\<forall>i < N. pcs t i = Returned (Some 0)) \<and> (0 < N \<longrightarrow> created t = 1)"
    if "\<forall>v. \<not> singleton_steps N t v"
  proof -
    have r: "pcs t i = Returned (Some 0)" if "i < N" for i
      using stuck_returned [OF t \<open>\<forall>v. \<not> singleton_steps N t v\<close> that] .
    moreover have "created t = 1" if "0 < N"
      using r [OF that] t unfolding team_inv_def singleton_inv_def by blast
    ultimately show ?thesis by blast
  qed
  ultimately show ?thesis using n by blast
qed

lemma get_instance_live_witness:
  "\<exists>m u. (singleton_steps 2 ^^ m)
      \<lparr>m_pInstance = None, m_singleton_lock = None, pcs = (\<lambda>i. First_Check)(1 := Lock), created = 0\<rparr> u
      \<and> (\<forall>i < 2. pcs u i = Returned (Some 0))"
proof -
  let ?s = "\<lparr>m_pInstance = None, m_singleton_lock = None, pcs = \<lambda>i. First_Check, created = 0\<rparr>"
  let ?t = "\<lparr>m_pInstance = None, m_singleton_lock = None, pcs = (\<lambda>i. First_Check)(1 := Lock), created = 0\<rparr>"
  have "singleton_start ?s" by (simp add: singleton_start_def)
  moreover have "(singleton_steps 2 ^^ 1) ?s ?t"
    unfolding relpowp_1 by (auto simp: singleton_steps_def GetInstance_step_def intro!: exI [of _ 1])
  ultimately show ?thesis using get_instance_live by blast
qed

end
