(* ===== verification/ThreadSync.thy ===== *)
theory ThreadSync
  imports TimeStamp
begin

text \<open>
  src/ThreadMutex.h, src/ThreadRWMutex.cpp, src/ThreadCond.cpp and src/ThreadMeet.cpp: the
  wrappers of the POSIX locks and condition variables, and the meeting point built on them.
  The locks themselves are the system's; the model has the calls that the wrappers make, in
  order, what they return, and the state they keep.
\<close>

section \<open>Mutexes\<close>

definition ThreadMutex_new :: "os \<Rightarrow> log \<Rightarrow> log" where
  "ThreadMutex_new os l = do_call os C_mutex_init l"

definition ThreadMutex_lock :: "os \<Rightarrow> log \<Rightarrow> log" where
  "ThreadMutex_lock os l = do_call os C_mutex_lock l"

definition ThreadMutex_unlock :: "os \<Rightarrow> log \<Rightarrow> log" where
  "ThreadMutex_unlock os l = do_call os C_mutex_unlock l"

definition ThreadMutex_delete :: "os \<Rightarrow> log \<Rightarrow> log" where
  "ThreadMutex_delete os l = do_call os C_mutex_destroy l"

text \<open>A scope with a \<open>ThreadMutexGuard\<close>: the body runs between constructor and destructor.\<close>

definition ThreadMutexGuard :: "os \<Rightarrow> (log \<Rightarrow> 'a \<times> log) \<Rightarrow> log \<Rightarrow> 'a \<times> log" where
  "ThreadMutexGuard os body l =
     (let l = ThreadMutex_lock os l; (x, l) = body l in (x, ThreadMutex_unlock os l))"

section \<open>The reader-writer lock\<close>

record rw_mutex =
  rw_init :: bool
  rw_destroy :: bool

definition RW_init :: "os \<Rightarrow> rw_mutex \<Rightarrow> log \<Rightarrow> int \<times> rw_mutex \<times> log" where
  "RW_init os m l =
     (if rw_init m then (0, m, l)
      else (let (r, l) = syscall os C_rwlock_init l in
            (rv r, if rv r \<noteq> 0 then m else m\<lparr>rw_init := True\<rparr>, l)))"

definition RW_new :: "os \<Rightarrow> log \<Rightarrow> rw_mutex \<times> log" where
  "RW_new os l = (let (r, m, l) = RW_init os \<lparr>rw_init = False, rw_destroy = False\<rparr> l in (m, l))"

definition RW_unlock :: "os \<Rightarrow> log \<Rightarrow> int \<times> log" where
  "RW_unlock os l = (let (r, l) = syscall os C_rwlock_unlock l in (rv r, l))"

definition RW_lock_read :: "os \<Rightarrow> log \<Rightarrow> int \<times> log" where
  "RW_lock_read os l = (let (r, l) = syscall os C_rwlock_rdlock l in (rv r, l))"

definition RW_lock_write :: "os \<Rightarrow> log \<Rightarrow> int \<times> log" where
  "RW_lock_write os l = (let (r, l) = syscall os C_rwlock_wrlock l in (rv r, l))"

definition RW_destroy :: "os \<Rightarrow> rw_mutex \<Rightarrow> log \<Rightarrow> int \<times> rw_mutex \<times> log" where
  "RW_destroy os m l =
     (if \<not> rw_destroy m then
        (let (r, l) = syscall os C_rwlock_destroy l in
         (rv r, if rv r = 0 then m\<lparr>rw_destroy := True\<rparr> else m, l))
      else (0, m, l))"

definition RW_delete :: "os \<Rightarrow> rw_mutex \<Rightarrow> log \<Rightarrow> rw_mutex \<times> log" where
  "RW_delete os m l = (let (r, m, l) = RW_destroy os m l in (m, l))"

definition Read_Guard :: "os \<Rightarrow> (log \<Rightarrow> 'a \<times> log) \<Rightarrow> log \<Rightarrow> 'a \<times> log" where
  "Read_Guard os body l =
     (let (r, l) = RW_lock_read os l; (x, l) = body l; (r, l) = RW_unlock os l in (x, l))"

definition Write_Guard :: "os \<Rightarrow> (log \<Rightarrow> 'a \<times> log) \<Rightarrow> log \<Rightarrow> 'a \<times> log" where
  "Write_Guard os body l =
     (let (r, l) = RW_lock_write os l; (x, l) = body l; (r, l) = RW_unlock os l in (x, l))"

lemma RW_destroy_once:
  "RW_destroy os m l = (r, m', l') \<Longrightarrow> rw_destroy m' \<Longrightarrow> RW_destroy os m' l' = (0, m', l')"
  by (auto simp: RW_destroy_def)

section \<open>The condition variable\<close>

definition ThreadCond_wait :: "os \<Rightarrow> log \<Rightarrow> int \<times> log" where
  "ThreadCond_wait os l = (let (r, l) = syscall os C_cond_wait l in (rv r, l))"

definition long_mod :: "slong \<Rightarrow> int \<Rightarrow> slong" where
  "long_mod a n = word_of_int (sint a smod n)"

definition ThreadCond_TimeWait :: "os \<Rightarrow> slong \<Rightarrow> log \<Rightarrow> int \<times> log" where
  "ThreadCond_TimeWait os usec l =
     (if usec = 0 then ThreadCond_wait os l
      else
        (let (r, l) = syscall os C_clock_gettime l in
         if rv r \<noteq> 0 then (rv r, l)
         else
           (let tv_sec = word_of_int (nums r ! 0) + long_div usec 1000000;
                tv_nsec = word_of_int (nums r ! 1) + long_mod usec 1000000 * 1000;
                (tv_sec, tv_nsec) =
                  (if 1000000000 \<le> sint tv_nsec then (tv_sec + 1, tv_nsec - 1000000000)
                   else (tv_sec, tv_nsec));
                (r, l) = syscall os (C_cond_timedwait (sint tv_sec) (sint tv_nsec)) l
            in (rv r, l))))"

definition ThreadCond_signal :: "os \<Rightarrow> log \<Rightarrow> int \<times> log" where
  "ThreadCond_signal os l = (let (r, l) = syscall os C_cond_signal l in (rv r, l))"

definition ThreadCond_broadcast :: "os \<Rightarrow> log \<Rightarrow> int \<times> log" where
  "ThreadCond_broadcast os l = (let (r, l) = syscall os C_cond_broadcast l in (rv r, l))"

definition ThreadCond_new :: "os \<Rightarrow> log \<Rightarrow> log" where
  "ThreadCond_new os l = do_call os C_cond_init l"

definition ThreadCond_delete :: "os \<Rightarrow> log \<Rightarrow> log" where
  "ThreadCond_delete os l = do_call os C_cond_destroy l"

text \<open>
  A timed wait of \<open>usec\<close> microseconds, from a valid reading of the clock, calls the system
  with a valid moment (nanoseconds below a second) that lies exactly \<open>usec\<close> microseconds
  after the reading, and returns the system's answer. (The header calls the argument
  milliseconds.) A wait of 0 is a wait without limit.
\<close>

lemma TimeWait_deadline:
  assumes "os (length l) C_clock_gettime = r" and "rv r = 0" and "nums r = [s, n]"
    and "0 \<le> s" and "s < 2 ^ 40" and "0 \<le> n" and "n < 1000000000"
    and "0 < sint usec" and "sint usec < 2 ^ 40"
  shows "\<exists>s' n'. ThreadCond_TimeWait os usec l
      = (let l1 = l @ [(C_clock_gettime, r)]; (r', l2) = syscall os (C_cond_timedwait s' n') l1
         in (rv r', l2))
    \<and> 0 \<le> n' \<and> n' < 1000000000
    \<and> s' * 1000000000 + n' = s * 1000000000 + n + sint usec * 1000
    \<and> ThreadCond_TimeWait os 0 l = ThreadCond_wait os l"
proof -
  let ?q = "sint usec div 1000000" and ?m = "sint usec mod 1000000"
  have nz: "usec \<noteq> 0" using assms(8) by auto
  have q: "long_div usec 1000000 = word_of_int ?q" "long_mod usec 1000000 = word_of_int ?m"
    using assms(8) by (simp_all add: long_div_def long_mod_def sdiv_nonneg smod_nonneg)
  have b: "0 \<le> ?q" "?q < 2 ^ 40" "0 \<le> ?m" "?m < 1000000" "sint usec = ?q * 1000000 + ?m"
    using assms(8,9) by auto
  define S where "S = s + ?q"
  define N where "N = n + ?m * 1000"
  have sb: "0 \<le> S" "S + 1 < 2 ^ 63" "0 \<le> N" "N < 2000000000"
    using assms(4-7) b by (auto simp: S_def N_def)
  have wS: "word_of_int s + word_of_int ?q = (word_of_int S :: slong)"
    and wN: "word_of_int n + word_of_int ?m * 1000 = (word_of_int N :: slong)"
    by (simp_all add: S_def N_def)
  have i: "sint (word_of_int S :: slong) = S" "sint (word_of_int N :: slong) = N"
    "sint (word_of_int (S + 1) :: slong) = S + 1" "sint (word_of_int (N - 1000000000) :: slong) = N - 1000000000"
    using sb by (simp_all only: sint_word_of_int_64)
      (simp_all add: sint_word_of_int_64 del: of_int_add of_int_diff)
  have e: "word_of_int S + 1 = (word_of_int (S + 1) :: slong)"
    "word_of_int N - 1000000000 = (word_of_int (N - 1000000000) :: slong)" by simp_all
  let ?s' = "if 1000000000 \<le> N then S + 1 else S" and ?n' = "if 1000000000 \<le> N then N - 1000000000 else N"
  have "ThreadCond_TimeWait os usec l
      = (let l1 = l @ [(C_clock_gettime, r)]; (r', l2) = syscall os (C_cond_timedwait ?s' ?n') l1
         in (rv r', l2))"
    using assms(1-3) nz
    by (simp add: ThreadCond_TimeWait_def syscall_def q wS wN i e Let_def
        del: of_int_add of_int_diff of_int_mult)
  moreover have "?s' * 1000000000 + ?n' = s * 1000000000 + n + sint usec * 1000"
    by (simp add: S_def N_def) presburger
  moreover have "0 \<le> ?n' \<and> ?n' < 1000000000" using sb by auto
  ultimately show ?thesis by (intro exI [of _ ?s'] exI [of _ ?n']) (simp add: ThreadCond_TimeWait_def)
qed


lemma TimeWait_deadline_witness:
  "\<exists>s' n'. ThreadCond_TimeWait (\<lambda>n c. if c = C_clock_gettime then (ok_reply 0)\<lparr>nums := [100, 999999000]\<rparr>
        else ok_reply ETIMEDOUT) 1500001 []
      = (ETIMEDOUT, [(C_clock_gettime, (ok_reply 0)\<lparr>nums := [100, 999999000]\<rparr>),
           (C_cond_timedwait s' n', ok_reply ETIMEDOUT)])
    \<and> s' * 1000000000 + n' = 102500000000"
proof -
  let ?os = "\<lambda>(n :: nat) c. if c = C_clock_gettime then (ok_reply 0)\<lparr>nums := [100, 999999000]\<rparr>
        else ok_reply ETIMEDOUT"
  show ?thesis
    using TimeWait_deadline [where os = ?os and l = "[]" and s = 100 and n = 999999000
        and usec = 1500001 and r = "(ok_reply 0)\<lparr>nums := [100, 999999000]\<rparr>"]
    by (auto simp: ok_reply_def syscall_def Let_def)
qed

section \<open>The meeting point\<close>

record meet =
  count :: uint
  maxCount :: uint

text \<open>
  The constructor assigns its argument to itself and to \<open>count\<close> (\<open>count = maxCount = maxCount\<close>
  names the parameter twice): the member \<open>maxCount\<close> keeps whatever the memory held.
\<close>

definition ThreadMeet_new :: "uint \<Rightarrow> uint \<Rightarrow> meet" where
  "ThreadMeet_new memory max_count =
     (let max_count = (if max_count \<le> 0 then 1 else max_count)
      in \<lparr>count = max_count, maxCount = memory\<rparr>)"

text \<open>
  The constructor with the calls around that. The attributes of the mutex and of the condition
  variable are the default ones. A failure is printed only.
\<close>

definition ThreadMeet_construct :: "os \<Rightarrow> uint \<Rightarrow> uint \<Rightarrow> log \<Rightarrow> meet \<times> log" where
  "ThreadMeet_construct os memory max_count l =
     (let l = do_call os C_mutex_init l;
          l = do_call os C_cond_init l
      in (ThreadMeet_new memory max_count, l))"

definition ThreadMeet_delete :: "os \<Rightarrow> log \<Rightarrow> log" where
  "ThreadMeet_delete os l = do_call os C_mutex_destroy (do_call os C_cond_destroy l)"

text \<open>What a thread does on arrival, under the lock.\<close>

datatype arrival = Pass | Wake_All | Block

definition Meet_arrive :: "meet \<Rightarrow> meet \<times> arrival" where
  "Meet_arrive m =
     (if count m > 0 then
        (let m = m\<lparr>count := count m - 1\<rparr> in
         if count m = 0 then (m, Wake_All) else (m, Block))
      else (m, Pass))"

definition ThreadMeet_Meet :: "os \<Rightarrow> uint \<Rightarrow> meet \<Rightarrow> log \<Rightarrow> meet \<times> log" where
  "ThreadMeet_Meet os timeout m l =
     (let l = do_call os C_mutex_lock l;
          (m, a) = Meet_arrive m;
          l = (case a of
                 Pass \<Rightarrow> l
               | Wake_All \<Rightarrow> do_call os C_cond_broadcast l
               | Block \<Rightarrow>
                   (if timeout > 0 then
                      (let (r, l) = syscall os C_time l;
                           now = rv r + uint (timeout div 1000000)
                       in do_call os (C_cond_timedwait now (uint ((timeout mod 1000000) * 1000))) l)
                    else do_call os C_cond_wait l))
      in (m, do_call os C_mutex_unlock l))"

definition ThreadMeet_Reset :: "meet \<Rightarrow> meet" where
  "ThreadMeet_Reset m = m\<lparr>count := maxCount m\<rparr>"

text \<open>\<open>SetMaxcount\<close> assigns its parameter to itself.\<close>

definition ThreadMeet_SetMaxcount :: "uint \<Rightarrow> meet \<Rightarrow> meet" where
  "ThreadMeet_SetMaxcount max_count m = (let max_count = max_count in m)"

text \<open>
  Several threads at the meeting point. \<open>arrived\<close>, \<open>blocked\<close> and \<open>left\<close> are the threads that
  called \<open>Meet\<close>, that wait in it, and that returned. A waiting thread that is woken does not
  look at \<open>count\<close> again, so a spurious wake-up or a timeout lets it leave; \<open>early\<close> records that
  this happened.
\<close>

record gathering =
  point :: meet
  arrived :: "nat set"
  blocked :: "nat set"
  left :: "nat set"
  early :: bool

inductive gathering_step :: "gathering \<Rightarrow> gathering \<Rightarrow> bool" where
  g_pass: "i \<notin> arrived s \<Longrightarrow> Meet_arrive (point s) = (m, Pass) \<Longrightarrow>
     gathering_step s (s\<lparr>point := m, arrived := insert i (arrived s), left := insert i (left s)\<rparr>)"
| g_wake_all: "i \<notin> arrived s \<Longrightarrow> Meet_arrive (point s) = (m, Wake_All) \<Longrightarrow>
     gathering_step s (s\<lparr>point := m, arrived := insert i (arrived s),
       left := insert i (left s \<union> blocked s), blocked := {}\<rparr>)"
| g_block: "i \<notin> arrived s \<Longrightarrow> Meet_arrive (point s) = (m, Block) \<Longrightarrow>
     gathering_step s (s\<lparr>point := m, arrived := insert i (arrived s), blocked := insert i (blocked s)\<rparr>)"
| g_early: "i \<in> blocked s \<Longrightarrow>
     gathering_step s (s\<lparr>blocked := blocked s - {i}, left := insert i (left s), early := True\<rparr>)"

definition gathering_start :: "uint \<Rightarrow> uint \<Rightarrow> gathering \<Rightarrow> bool" where
  "gathering_start memory n s \<longleftrightarrow>
     s = \<lparr>point = ThreadMeet_new memory n, arrived = {}, blocked = {}, left = {}, early = False\<rparr>"

text \<open>The number of threads to wait for.\<close>

definition meet_size :: "uint \<Rightarrow> nat" where
  "meet_size n = (if n = 0 then 1 else unat n)"

definition gathering_inv :: "uint \<Rightarrow> gathering \<Rightarrow> bool" where
  "gathering_inv n s \<longleftrightarrow>
     finite (arrived s) \<and> blocked s \<union> left s = arrived s \<and> blocked s \<inter> left s = {}
     \<and> unat (count (point s)) = meet_size n - card (arrived s)
     \<and> (count (point s) = 0 \<longrightarrow> blocked s = {})
     \<and> (count (point s) \<noteq> 0 \<and> \<not> early s \<longrightarrow> left s = {})"

lemma Meet_arrive_cases:
  "Meet_arrive m = (m', a) \<longleftrightarrow>
     (count m = 0 \<and> m' = m \<and> a = Pass)
   \<or> (count m = 1 \<and> m' = m\<lparr>count := 0\<rparr> \<and> a = Wake_All)
   \<or> (count m \<noteq> 0 \<and> count m \<noteq> 1 \<and> m' = m\<lparr>count := count m - 1\<rparr> \<and> a = Block)"
  by (auto simp: Meet_arrive_def Let_def word_greater_zero_iff)

lemma gathering_inv_step: "gathering_step s t \<Longrightarrow> gathering_inv n s \<Longrightarrow> gathering_inv n t"
proof (induction rule: gathering_step.induct)
  case (g_pass i s m)
  then have "count (point s) = 0" and "m = point s" by (auto simp: Meet_arrive_cases)
  with g_pass show ?case by (auto simp: gathering_inv_def)
next
  case (g_wake_all i s m)
  then have "count (point s) = 1" and "count m = 0" by (auto simp: Meet_arrive_cases)
  with g_wake_all show ?case by (auto simp: gathering_inv_def)
next
  case (g_block i s m)
  then have c: "count (point s) \<noteq> 0" "count (point s) \<noteq> 1" "count m = count (point s) - 1"
    by (auto simp: Meet_arrive_cases)
  then have "unat (count m) = unat (count (point s)) - 1" and "count m \<noteq> 0"
    by (simp_all add: unat_minus_one)
  with g_block c(1) show ?case by (auto simp: gathering_inv_def)
next
  case (g_early i s)
  then show ?case by (auto simp: gathering_inv_def)
qed

interpretation meeting: invariant_machine "gathering_start memory n" gathering_step "gathering_inv n"
  for memory n
proof unfold_locales
  show "gathering_inv n s" if "gathering_start memory n s" for s
    using that by (auto simp: gathering_start_def gathering_inv_def ThreadMeet_new_def meet_size_def)
  show "gathering_inv n t" if "gathering_inv n s" "gathering_step s t" for s t
    using that gathering_inv_step by blast
qed

text \<open>
  C28: at a new meeting point for \<open>n\<close> threads, no thread leaves before \<open>n\<close> have arrived,
  unless a wake-up was spurious or timed out, and when the \<open>n\<close>-th arrives nobody is left
  behind. The next use is another matter: \<open>Reset\<close> restores the count from a member that the
  constructor never set, and \<open>SetMaxcount\<close> does not set it either.
\<close>

theorem meeting_point:
  assumes "reachable (gathering_start memory n) gathering_step s"
  shows "(left s \<noteq> {} \<and> \<not> early s \<longrightarrow> meet_size n \<le> card (arrived s))
    \<and> (meet_size n \<le> card (arrived s) \<longrightarrow> blocked s = {} \<and> left s = arrived s)
    \<and> count (ThreadMeet_Reset (ThreadMeet_SetMaxcount k (ThreadMeet_new memory n))) = memory"
proof -
  have inv: "gathering_inv n s" using assms by (rule meeting.reachable_inv)
  have "count (point s) = 0 \<longleftrightarrow> meet_size n \<le> card (arrived s)"
    using inv by (metis gathering_inv_def diff_is_0_eq unat_eq_zero)
  moreover have "count (ThreadMeet_Reset (ThreadMeet_SetMaxcount k (ThreadMeet_new memory n))) = memory"
    by (simp add: ThreadMeet_Reset_def ThreadMeet_SetMaxcount_def ThreadMeet_new_def)
  ultimately show ?thesis using inv by (auto simp: gathering_inv_def)
qed

lemma meeting_point_witness:
  "count (ThreadMeet_Reset (ThreadMeet_SetMaxcount 2 (ThreadMeet_new 77 2))) = 77
   \<and> reachable (gathering_start 77 2) gathering_step
       \<lparr>point = \<lparr>count = 0, maxCount = 77\<rparr>, arrived = {5, 6}, blocked = {}, left = {5, 6}, early = False\<rparr>"
proof -
  let ?r = "reachable (gathering_start 77 2) gathering_step"
  have "?r \<lparr>point = \<lparr>count = 2, maxCount = 77\<rparr>, arrived = {}, blocked = {}, left = {}, early = False\<rparr>"
    by (rule reach_init) (simp add: gathering_start_def ThreadMeet_new_def)
  then have "?r \<lparr>point = \<lparr>count = 1, maxCount = 77\<rparr>, arrived = {6}, blocked = {6}, left = {}, early = False\<rparr>"
    by (rule reach_step)
       (use g_block [of 6 "\<lparr>point = \<lparr>count = 2, maxCount = 77\<rparr>, arrived = {}, blocked = {}, left = {}, early = False\<rparr>"
          "\<lparr>count = 1, maxCount = 77\<rparr>"] in \<open>simp add: Meet_arrive_cases\<close>)
  then have r: "?r \<lparr>point = \<lparr>count = 0, maxCount = 77\<rparr>, arrived = {5, 6}, blocked = {}, left = {5, 6}, early = False\<rparr>"
    by (rule reach_step)
       (use g_wake_all [of 5 "\<lparr>point = \<lparr>count = 1, maxCount = 77\<rparr>, arrived = {6}, blocked = {6}, left = {}, early = False\<rparr>"
          "\<lparr>count = 0, maxCount = 77\<rparr>"] in \<open>simp add: Meet_arrive_cases\<close>)
  from meeting_point [OF r, of 2] r show ?thesis by blast
qed

end
