(* ===== verification/Thread.thy ===== *)
theory Thread
  imports ThreadSync
begin

text \<open>
  src/Thread.h and src/Thread.cpp: a base class for objects that run their \<open>svc\<close> in a loop on
  one or more threads. The hooks \<open>prepare\<close> and \<open>do_init\<close> that an application overrides are calls
  to the outside (\<open>H_prepare\<close>, \<open>H_do_init\<close>); \<open>svc\<close> is a parameter, since classes of the library
  override it themselves. A value \<open>None\<close> of \<open>svc\<close> is undefined behaviour or a call that does
  not return.
\<close>

section \<open>State and operations\<close>

datatype StStatus = ST_INIT | ST_RUN | ST_EXIT

record thread =
  thr_cnt :: uint
  thr_status :: StStatus
  thr_stop :: bool
  thr_detach :: bool
  stack_size :: uint
  thr_name :: string
  threads :: "int list"

definition Thread_new :: thread where
  "Thread_new = \<lparr>thr_cnt = 1, thr_status = ST_EXIT, thr_stop = False, thr_detach = True,
     stack_size = 0, thr_name = '''', threads = []\<rparr>"

definition Thread_init :: "os \<Rightarrow> uint \<Rightarrow> bool \<Rightarrow> uint \<Rightarrow> string \<Rightarrow> thread \<Rightarrow> log \<Rightarrow> int \<times> thread \<times> log" where
  "Thread_init os cnt det stack nm t l =
     (if thr_status t = ST_INIT then (0, t, l)
      else
        (let t = t\<lparr>thr_stop := False, thr_detach := det, stack_size := stack, thr_cnt := cnt\<rparr>;
             l = (if nm \<noteq> '''' then do_call os (C_set_name (c_str nm)) l else l);
             (r, l) = syscall os C_attr_init l in
         if rv r \<noteq> 0 then (rv r, t, l)
         else
           (let (nRet, l) =
                  (if stack > 0 then (let (r, l) = syscall os (C_attr_setstacksize stack) l in (rv r, l))
                   else (0, l)) in
            if nRet \<noteq> 0 then (nRet, t, l)
            else
              (let (r, l) = syscall os H_do_init l in
               if rv r \<noteq> 0 then (rv r, t, l)
               else (rv r, t\<lparr>thr_status := ST_INIT\<rparr>, l)))))"

text \<open>
  The threads run while \<open>run\<close> goes on. One that ends sets the status (\<open>thread_proc\<close> below): the
  reply of each call of \<open>run\<close> says whether that has happened since its last step. What a thread
  wrote before the assignment that follows a creation is overwritten by it.
\<close>

definition meanwhile :: "reply \<Rightarrow> thread \<Rightarrow> thread" where
  "meanwhile r t = (if exited r \<and> threads t \<noteq> [] then t\<lparr>thr_status := ST_EXIT\<rparr> else t)"

text \<open>The loop of \<open>run\<close>: \<open>th\<close> is the last thread created, \<open>nRet\<close> the last result.\<close>

fun run_loop :: "os \<Rightarrow> nat \<Rightarrow> thread \<Rightarrow> int \<Rightarrow> int \<Rightarrow> log \<Rightarrow> thread \<times> int \<times> int \<times> log" where
  "run_loop os 0 t th nRet l = (t, th, nRet, l)"
| "run_loop os (Suc n) t th nRet l =
     (let (r, l) = syscall os C_thread_create l in
      if rv r \<noteq> 0 then run_loop os n (meanwhile r t) th (rv r) l
      else
        (let th = nums r ! 0;
             t = t\<lparr>threads := threads t @ [th]\<rparr>;
             t = (meanwhile r t)\<lparr>thr_status := ST_RUN\<rparr>;
             (nRet, t, l) =
               (if thr_detach t then (let (r, l) = syscall os (C_thread_detach th) l in (rv r, meanwhile r t, l))
                else (rv r, t, l))
         in run_loop os n t th nRet l))"

definition Thread_join :: "os \<Rightarrow> int \<Rightarrow> log \<Rightarrow> int \<times> log" where
  "Thread_join os th l = (let (r, l) = syscall os (C_thread_join th) l in (rv r, l))"

definition Thread_detach :: "os \<Rightarrow> int \<Rightarrow> log \<Rightarrow> int \<times> log" where
  "Thread_detach os th l = (let (r, l) = syscall os (C_thread_detach th) l in (rv r, l))"

definition Thread_run :: "os \<Rightarrow> thread \<Rightarrow> log \<Rightarrow> int \<times> thread \<times> log" where
  "Thread_run os t l =
     (if thr_status t \<noteq> ST_INIT then (- 2, t, l)
      else
        (let (t, th, nRet, l) = run_loop os (unat (thr_cnt t)) t 0 0 l in
         if \<not> thr_detach t then
           (let (nRet, l) = Thread_join os th l in (nRet, meanwhile (snd (last l)) t, l))
         else (nRet, t, l)))"

definition Thread_stop :: "thread \<Rightarrow> thread" where
  "Thread_stop t = t\<lparr>thr_stop := True\<rparr>"

definition Thread_is_stop :: "thread \<Rightarrow> bool" where
  "Thread_is_stop t = thr_stop t"

definition Thread_set_status :: "StStatus \<Rightarrow> thread \<Rightarrow> thread" where
  "Thread_set_status status t = t\<lparr>thr_status := status\<rparr>"

text \<open>
  \<open>exit\<close>: \<open>pthread_exit\<close> does not return, so neither does the method, and the assignment to
  \<open>_status\<close> after it is never reached: the object stays in the status it had.
\<close>

definition Thread_exit :: "thread \<Rightarrow> (int \<times> thread) option" where
  "Thread_exit t =
     do { _ \<leftarrow> (None :: unit option);
          let t = t\<lparr>thr_status := ST_EXIT\<rparr>;
          Some (0, t) }"

definition Thread_thr_count :: "thread \<Rightarrow> nat" where
  "Thread_thr_count t = length (threads t)"

text \<open>
  The body of each thread. \<open>stops n\<close> is the value of \<open>_stop\<close> that the thread reads after its
  \<open>n\<close>-th round: \<open>svc\<close> or another thread may have set it.
\<close>

partial_function (option) svc_loop ::
  "('s \<Rightarrow> log \<Rightarrow> (int \<times> 's \<times> log) option) \<Rightarrow> (nat \<Rightarrow> bool) \<Rightarrow> nat \<Rightarrow> 's \<Rightarrow> log \<Rightarrow> ('s \<times> log) option" where
  "svc_loop svc stops n s l =
     do { (nRet, s, l) \<leftarrow> svc s l;
          if nRet \<noteq> 0 then Some (s, l)
          else if stops n then Some (s, l)
          else svc_loop svc stops (n + 1) s l }"

text \<open>\<open>clean_up\<close>, unless overridden, destroys the attributes of the object.\<close>

definition Thread_clean_up :: "os \<Rightarrow> log \<Rightarrow> log" where
  "Thread_clean_up os l = do_call os C_attr_destroy l"

definition thread_proc ::
  "os \<Rightarrow> ('s \<Rightarrow> log \<Rightarrow> (int \<times> 's \<times> log) option) \<Rightarrow> (nat \<Rightarrow> bool) \<Rightarrow> thread \<Rightarrow> 's \<Rightarrow> log
   \<Rightarrow> (thread \<times> 's \<times> log) option" where
  "thread_proc os svc stops t s l =
     (let (r, l) = syscall os H_prepare l in
      if rv r \<noteq> 0 then Some (t, s, l)
      else do { (s, l) \<leftarrow> svc_loop svc stops 0 s l;
                let l = Thread_clean_up os l;
                Some (t\<lparr>thr_status := ST_EXIT\<rparr>, s, l) })"

section \<open>Initialisation\<close>

lemma Thread_init_status:
  "Thread_init os cnt det stack nm t l = (r, t', l') \<Longrightarrow>
   (r = 0 \<longrightarrow> thr_status t' = ST_INIT) \<and> (r \<noteq> 0 \<longrightarrow> thr_status t' = thr_status t)"
  by (auto simp: Thread_init_def Let_def split: if_splits prod.splits)

section \<open>Starting the threads\<close>

text \<open>The threads that the calls of a log created, detached and joined, in order.\<close>

definition created :: "log \<Rightarrow> int list" where
  "created l = concat (map (\<lambda>e. if fst e = C_thread_create \<and> rv (snd e) = 0 then [nums (snd e) ! 0] else []) l)"

definition detached :: "log \<Rightarrow> int list" where
  "detached l = concat (map (\<lambda>e. case fst e of C_thread_detach th \<Rightarrow> [th] | _ \<Rightarrow> []) l)"

definition joined :: "log \<Rightarrow> int list" where
  "joined l = concat (map (\<lambda>e. case fst e of C_thread_join th \<Rightarrow> [th] | _ \<Rightarrow> []) l)"

lemma thread_log_simps [simp]:
  "created [] = []" "detached [] = []" "joined [] = []"
  "created (e # l) = (if fst e = C_thread_create \<and> rv (snd e) = 0 then [nums (snd e) ! 0] else []) @ created l"
  "detached (e # l) = (case fst e of C_thread_detach th \<Rightarrow> [th] | _ \<Rightarrow> []) @ detached l"
  "joined (e # l) = (case fst e of C_thread_join th \<Rightarrow> [th] | _ \<Rightarrow> []) @ joined l"
  "created (l @ m) = created l @ created m" "detached (l @ m) = detached l @ detached m"
  "joined (l @ m) = joined l @ joined m"
  by (simp_all add: created_def detached_def joined_def)





lemma meanwhile_simps [simp]:
  "threads (meanwhile r t) = threads t" "thr_detach (meanwhile r t) = thr_detach t"
  "thr_status (meanwhile r t) = (if exited r \<and> threads t \<noteq> [] then ST_EXIT else thr_status t)"
  by (simp_all add: meanwhile_def)





text \<open>Starting threads opens and closes no descriptor.\<close>

lemma Thread_init_neutral:
  "Thread_init os cnt det stack nm t l = (r, t', l') \<Longrightarrow> \<exists>m. l' = l @ m \<and> neutral_log m"
  by (auto simp: Thread_init_def Let_def syscall_def do_call_eq neutral_log_def fd_effect_def new_fd_def
      split: if_splits)

lemma run_loop_neutral:
  "run_loop os n t th nRet l = (t', th', nRet', l') \<Longrightarrow> \<exists>m. l' = l @ m \<and> neutral_log m"
proof (induction n arbitrary: t th nRet l)
  case (Suc n)
  have n: "neutral_log [(C_thread_create, r)]" "neutral_log [(C_thread_create, r), (C_thread_detach x, q)]" for r x q
    by (simp_all add: neutral_log_def fd_effect_def new_fd_def)
  obtain t1 th1 r1 l1 k where "run_loop os n t1 th1 r1 (l @ k) = (t', th', nRet', l')" "neutral_log k"
    using Suc.prems n by (fastforce simp: syscall_def Let_def split: if_splits)
  with Suc.IH neutral_append show ?case by fastforce
qed (auto simp: neutral_log_def)

lemma Thread_run_neutral:
  "Thread_run os t l = (r, t', l') \<Longrightarrow> \<exists>m. l' = l @ m \<and> neutral_log m"
proof (cases "thr_status t = ST_INIT")
  case True
  obtain t1 th r1 l1 where r: "run_loop os (unat (thr_cnt t)) t 0 0 l = (t1, th, r1, l1)" by (metis prod_cases4)
  from run_loop_neutral [OF r] obtain m where m: "l1 = l @ m" "neutral_log m" by blast
  assume "Thread_run os t l = (r, t', l')"
  then have "l' = l1 \<or> (\<exists>q. l' = l1 @ [(C_thread_join th, q)])"
    using True r by (auto simp: Thread_run_def Thread_join_def syscall_def Let_def split: if_splits)
  moreover have "neutral_log [(C_thread_join th, q)]" for q
    by (simp add: neutral_log_def fd_effect_def new_fd_def)
  ultimately show ?thesis using m neutral_append by fastforce
qed (auto simp: Thread_run_def)

section \<open>The loop of a thread\<close>

text \<open>What holds before a round and is kept by \<open>svc\<close> holds when the loop ends.\<close>

lemma svc_loop_inv:
  assumes "svc_loop svc stops n s l = Some (s', l')" and "P s l"
    and keep: "\<And>s l r s' l'. P s l \<Longrightarrow> svc s l = Some (r, s', l') \<Longrightarrow> P s' l'"
  shows "P s' l'"
proof -
  have "P s l \<longrightarrow> P (fst y) (snd y)" if "svc_loop svc stops n s l = Some y" for y
  proof (rule svc_loop.raw_induct [of "\<lambda>f st n s l y. f = svc \<longrightarrow> P s l \<longrightarrow> P (fst y) (snd y)",
        THEN mp, OF _ that refl])
    fix loop f st n s l y
    assume "\<And>f st n s l y. loop f st n s l = Some y \<Longrightarrow> f = svc \<longrightarrow> P s l \<longrightarrow> P (fst y) (snd y)"
      and "(do { (nRet, s, l) \<leftarrow> f s l;
          if nRet \<noteq> 0 then Some (s, l)
          else if st n then Some (s, l)
          else loop f st (n + 1) s l }) = Some y"
    then show "f = svc \<longrightarrow> P s l \<longrightarrow> P (fst y) (snd y)"
      by (auto simp: bind_eq_Some_conv split: if_splits dest: keep)
  qed
  from this [OF assms(1)] assms(2) show ?thesis by simp
qed

text \<open>
  What a class owes that runs on the threads of this one: each round of its \<open>svc\<close> keeps \<open>ok\<close> and adds a
  piece to the log; pieces compose, and the two calls around the loop are pieces that change nothing.
\<close>

locale threaded =
  fixes svc :: "'s \<Rightarrow> log \<Rightarrow> (int \<times> 's \<times> log) option" and ok :: "'s \<Rightarrow> bool"
    and piece :: "'s \<Rightarrow> 's \<Rightarrow> log \<Rightarrow> bool"
  assumes round_piece: "svc s l = Some (r, s', l') \<Longrightarrow> ok s \<Longrightarrow> ok s' \<and> (\<exists>m. l' = l @ m \<and> piece s s' m)"
    and piece_join: "piece s s1 m \<Longrightarrow> piece s1 s2 n \<Longrightarrow> piece s s2 (m @ n)"
    and piece_prepare: "piece s s [(H_prepare, q)]"
    and piece_clean_up: "piece s s [(C_attr_destroy, q)]"
begin

lemma loop_piece:
  assumes "svc_loop svc stops n s l = Some (s', l')" and "ok s" and "l = l0 @ m" and "piece s0 s m"
  shows "ok s' \<and> (\<exists>m. l' = l0 @ m \<and> piece s0 s' m)"
proof (rule svc_loop_inv [OF assms(1)])
  show "ok s \<and> (\<exists>m. l = l0 @ m \<and> piece s0 s m)" using assms(2-4) by blast
next
  fix s1 l1 r s2 l2
  assume "ok s1 \<and> (\<exists>m. l1 = l0 @ m \<and> piece s0 s1 m)" and "svc s1 l1 = Some (r, s2, l2)"
  with round_piece [of s1 l1 r s2 l2] piece_join [of s0 s1 _ s2] show "ok s2 \<and> (\<exists>m. l2 = l0 @ m \<and> piece s0 s2 m)"
    by fastforce
qed

lemma thread_piece:
  assumes "thread_proc os svc stops t s l = Some (t', s', l')" and "ok s"
  shows "ok s' \<and> (\<exists>m. l' = l @ m \<and> piece s s' m)"
proof -
  define r where "r = os (length l) H_prepare"
  show ?thesis
  proof (cases "rv r = 0")
    case False
    then have "s' = s" "l' = l @ [(H_prepare, r)]"
      using assms(1) by (auto simp: thread_proc_def syscall_def Let_def r_def)
    with piece_prepare assms(2) show ?thesis by blast
  next
    case True
    then obtain k where loop: "svc_loop svc stops 0 s (l @ [(H_prepare, r)]) = Some (s', k)"
      and l': "l' = k @ [(C_attr_destroy, os (length k) C_attr_destroy)]"
      using assms(1)
      by (auto simp: thread_proc_def syscall_def Let_def bind_eq_Some_conv Thread_clean_up_def do_call_eq r_def)
    from loop_piece [OF loop assms(2) refl piece_prepare] obtain m where
      "ok s'" "k = l @ m" "piece s s' m" by blast
    with l' piece_join [OF _ piece_clean_up] show ?thesis by fastforce
  qed
qed

end

text \<open>An overridden \<open>svc\<close> of an application.\<close>

definition app_svc :: "os \<Rightarrow> unit \<Rightarrow> log \<Rightarrow> (int \<times> unit \<times> log) option" where
  "app_svc os s l = (let (r, l) = syscall os H_svc l in Some (rv r, s, l))"

lemma svc_loop_step:
  "svc_loop (app_svc os) stops n s l =
     (if rv (os (length l) H_svc) \<noteq> 0 \<or> stops n then Some ((), l @ [(H_svc, os (length l) H_svc)])
      else svc_loop (app_svc os) stops (n + 1) () (l @ [(H_svc, os (length l) H_svc)]))"
  by (subst svc_loop.simps) (simp add: app_svc_def syscall_def Let_def)

lemma svc_loop_rounds:
  "(\<forall>i < k. rv (os (length l + i) H_svc) = 0 \<and> \<not> stops (n + i)) \<Longrightarrow>
   svc_loop (app_svc os) stops n s l =
   svc_loop (app_svc os) stops (n + k) s (l @ map (\<lambda>i. (H_svc, os (length l + i) H_svc)) [0..<k])"
proof (induction k)
  case (Suc k)
  then have "rv (os (length l + k) H_svc) = 0" and "\<not> stops (n + k)" by simp_all
  moreover have "svc_loop (app_svc os) stops n s l = svc_loop (app_svc os) stops (n + k) s
      (l @ map (\<lambda>i. (H_svc, os (length l + i) H_svc)) [0..<k])"
    using Suc by simp
  ultimately show ?case
    by (simp add: svc_loop_step [of os stops "n + k"] svc_loop_step [of os stops "Suc (n + k)"])
qed simp

lemma svc_loop_ends:
  assumes "svc_loop (app_svc os) stops n s l = Some y"
  shows "\<exists>k. rv (os (length l + k) H_svc) \<noteq> 0 \<or> stops (n + k)"
proof (rule ccontr)
  assume neg: "\<nexists>k. rv (os (length l + k) H_svc) \<noteq> 0 \<or> stops (n + k)"
  define P where "P = (\<lambda>(u :: unit) (m :: log). \<forall>j. rv (os (length m + j) H_svc) = 0)"
  have "f = app_svc os \<and> (\<forall>j. rv (os (length l + j) H_svc) = 0 \<and> \<not> st (n + j)) \<longrightarrow> False"
    if "svc_loop f st n s l = Some y" for f st n s l y
  proof (rule svc_loop.raw_induct [of "\<lambda>f st n s l y. f = app_svc os
        \<and> (\<forall>j. rv (os (length l + j) H_svc) = 0 \<and> \<not> st (n + j)) \<longrightarrow> False", OF _ that])
    fix loop f st n s l y
    assume ih: "\<And>f st n s l y. loop f st n s l = Some y \<Longrightarrow> f = app_svc os
        \<and> (\<forall>j. rv (os (length l + j) H_svc) = 0 \<and> \<not> st (n + j)) \<longrightarrow> False"
      and e: "(do { (nRet, s, l) \<leftarrow> f s l;
          if nRet \<noteq> 0 then Some (s, l)
          else if st n then Some (s, l)
          else loop f st (n + 1) s l }) = Some y"
    show "f = app_svc os \<and> (\<forall>j. rv (os (length l + j) H_svc) = 0 \<and> \<not> st (n + j)) \<longrightarrow> False"
    proof (intro impI, elim conjE)
      assume f: "f = app_svc os" and a: "\<forall>j. rv (os (length l + j) H_svc) = 0 \<and> \<not> st (n + j)"
      then have "loop f st (n + 1) s (l @ [(H_svc, os (length l) H_svc)]) = Some y"
        using e a [THEN spec, of 0] by (simp add: app_svc_def syscall_def Let_def)
      moreover have "\<forall>j. rv (os (Suc (length l) + j) H_svc) = 0 \<and> \<not> st (n + 1 + j)"
        using a by (metis add.assoc add_Suc_shift plus_1_eq_Suc)
      ultimately show False using ih f by fastforce
    qed
  qed
  with assms neg show False by blast
qed

text \<open>
  C22: a thread whose \<open>prepare\<close> succeeds calls \<open>svc\<close> round after round until the first round in
  which \<open>svc\<close> fails or \<open>_stop\<close> is found set; that round is the last, \<open>clean_up\<close> runs once after it
  and the object is marked as exited. Without such a round the thread never ends. When
  \<open>prepare\<close> fails, nothing else is called, and the object keeps its running status.
\<close>

theorem thread_runs_until_stopped:
  assumes "rv (os (length l) H_prepare) = 0"
  shows "(\<forall>k. (\<forall>i < k. rv (os (length l + 1 + i) H_svc) = 0 \<and> \<not> stops i)
            \<and> (rv (os (length l + 1 + k) H_svc) \<noteq> 0 \<or> stops k)
          \<longrightarrow> (let lk = l @ (H_prepare, os (length l) H_prepare) #
                 map (\<lambda>i. (H_svc, os (length l + 1 + i) H_svc)) [0..<Suc k]
               in thread_proc os (app_svc os) stops t () l =
                    Some (t\<lparr>thr_status := ST_EXIT\<rparr>, (), do_call os C_attr_destroy lk)))
    \<and> ((\<forall>i. rv (os (length l + 1 + i) H_svc) = 0 \<and> \<not> stops i)
          \<longrightarrow> thread_proc os (app_svc os) stops t () l = None)
    \<and> (\<forall>l2. rv (os (length l2) H_prepare) \<noteq> 0
          \<longrightarrow> thread_proc os (app_svc os) stops t () l2
            = Some (t, (), l2 @ [(H_prepare, os (length l2) H_prepare)]))"
proof (intro conjI allI impI)
  let ?l1 = "l @ [(H_prepare, os (length l) H_prepare)]"
  have proc: "thread_proc os (app_svc os) stops t () l =
      do { (s, l) \<leftarrow> svc_loop (app_svc os) stops 0 () ?l1;
           Some (t\<lparr>thr_status := ST_EXIT\<rparr>, s, do_call os C_attr_destroy l) }"
    using assms by (simp add: thread_proc_def syscall_def Let_def Thread_clean_up_def)
  {
    fix k
    assume k: "(\<forall>i < k. rv (os (length l + 1 + i) H_svc) = 0 \<and> \<not> stops i)
            \<and> (rv (os (length l + 1 + k) H_svc) \<noteq> 0 \<or> stops k)"
    have "svc_loop (app_svc os) stops 0 () ?l1 = svc_loop (app_svc os) stops k ()
        (?l1 @ map (\<lambda>i. (H_svc, os (length l + 1 + i) H_svc)) [0..<k])"
      using svc_loop_rounds [of k os ?l1 stops 0 "()"] k by simp
    also have "\<dots> = Some ((), ?l1 @ map (\<lambda>i. (H_svc, os (length l + 1 + i) H_svc)) [0..<Suc k])"
      using k by (subst svc_loop_step) simp
    finally show "let lk = l @ (H_prepare, os (length l) H_prepare) #
                 map (\<lambda>i. (H_svc, os (length l + 1 + i) H_svc)) [0..<Suc k]
               in thread_proc os (app_svc os) stops t () l =
                    Some (t\<lparr>thr_status := ST_EXIT\<rparr>, (), do_call os C_attr_destroy lk)"
      by (simp add: proc)
  }
  assume "\<forall>i. rv (os (length l + 1 + i) H_svc) = 0 \<and> \<not> stops i"
  then have "svc_loop (app_svc os) stops 0 () ?l1 = None"
    using svc_loop_ends [of os stops 0 "()" ?l1] by (cases "svc_loop (app_svc os) stops 0 () ?l1") auto
  then show "thread_proc os (app_svc os) stops t () l = None" by (simp add: proc)
qed (simp add: thread_proc_def syscall_def Let_def)

lemma thread_runs_until_stopped_witness:
  "let os = (\<lambda>n c. ok_reply 0) in
   thread_proc os (app_svc os) (\<lambda>n. n = 1) Thread_new () [] =
     Some (Thread_new, (), [(H_prepare, ok_reply 0), (H_svc, ok_reply 0), (H_svc, ok_reply 0),
        (C_attr_destroy, ok_reply 0)])
   \<and> thread_proc os (app_svc os) (\<lambda>n. False) Thread_new () [] = None"
  using thread_runs_until_stopped [of "\<lambda>n c. ok_reply 0" "[]" "\<lambda>n. n = 1" Thread_new]
    thread_runs_until_stopped [of "\<lambda>n c. ok_reply 0" "[]" "\<lambda>n. False" Thread_new]
  by (auto simp: ok_reply_def do_call_eq Thread_new_def Let_def elim!: allE [of _ 1])

end
