(* ===== verification/SelectTimer.thy ===== *)
theory SelectTimer
  imports Thread
begin

text \<open>
  src/SelectTimer.h and src/SelectTimer.cpp: a thread that calls an application's handler at a
  fixed interval, timed by \<open>select\<close>. The handler is an identity (a pointer); calling the null
  handler is undefined behaviour.
\<close>

record select_timer =
  timer_handler :: "nat option"
  t_sec :: slong
  t_usec :: slong

text \<open>The constructor leaves the interval unset: \<open>sec\<close> and \<open>usec\<close> are what the memory holds.\<close>

definition SelectTimer_new :: "slong \<Rightarrow> slong \<Rightarrow> select_timer" where
  "SelectTimer_new sec usec = \<lparr>timer_handler = None, t_sec = sec, t_usec = usec\<rparr>"

definition SelectTimer_register :: "nat option \<Rightarrow> ulong \<Rightarrow> select_timer \<Rightarrow> int \<times> select_timer" where
  "SelectTimer_register h interval tm =
     (if h = None then (- 1, tm)
      else if timer_handler tm \<noteq> None then (- 2, tm)
      else if interval = 0 then (- 3, tm)
      else (0, tm\<lparr>t_sec := interval div 1000000, t_usec := interval mod 1000000, timer_handler := h\<rparr>))"

definition SelectTimer_delete :: "os \<Rightarrow> select_timer \<Rightarrow> log \<Rightarrow> select_timer \<times> log" where
  "SelectTimer_delete os tm l =
     (case timer_handler tm of
        None \<Rightarrow> (tm, l)
      | Some h \<Rightarrow> (tm\<lparr>timer_handler := None\<rparr>, do_call os (H_delete h) l))"

definition SelectTimer_set_interval :: "ulong \<Rightarrow> select_timer \<Rightarrow> int \<times> select_timer" where
  "SelectTimer_set_interval interval tm =
     (if interval = 0 then (- 3, tm)
      else (0, tm\<lparr>t_sec := interval div 1000000, t_usec := interval mod 1000000\<rparr>))"

definition SelectTimer_get_interval :: "select_timer \<Rightarrow> ulong" where
  "SelectTimer_get_interval tm = 1000000 * t_sec tm + t_usec tm"

definition SelectTimer_svc :: "os \<Rightarrow> select_timer \<Rightarrow> log \<Rightarrow> (int \<times> select_timer \<times> log) option" where
  "SelectTimer_svc os tm l =
     (let (r, l) = syscall os (C_select 1 (t_sec tm) (t_usec tm)) l in
      if rv r > 0 then Some (0, tm, l)
      else if rv r = 0 then
        (case timer_handler tm of
           None \<Rightarrow> None
         | Some h \<Rightarrow> Some (0, tm, do_call os (H_timeout h) l))
      else if err r = EINTR then Some (0, tm, l)
      else if err r = EINVAL then Some (- 1, tm, l)
      else Some (- 2, tm, l))"

definition SelectTimer_start :: "os \<Rightarrow> thread \<Rightarrow> log \<Rightarrow> int \<times> thread \<times> log" where
  "SelectTimer_start os t l =
     (let (ret, t, l) = Thread_init os 1 True 0 '''' t l in
      if ret \<noteq> 0 then (ret, t, l)
      else
        (let (ret, t, l) = Thread_run os t l in
         if ret \<noteq> 0 then (ret, t, l) else (0, t, l)))"

section \<open>The interval\<close>

lemma interval_roundtrip:
  "interval \<noteq> 0 \<Longrightarrow>
   SelectTimer_get_interval (snd (SelectTimer_set_interval interval tm)) = interval"
  by (simp add: SelectTimer_get_interval_def SelectTimer_set_interval_def mult_div_mod_eq)

section \<open>The handler runs once per timeout\<close>

text \<open>
  The calls of a running timer: each \<open>select\<close> waits for the interval, and the handler is called
  once after each that timed out and at no other time.
\<close>

fun timer_trace :: "nat \<Rightarrow> slong \<Rightarrow> slong \<Rightarrow> log \<Rightarrow> bool" where
  "timer_trace h s u [] = True"
| "timer_trace h s u ((c, r) # l) =
     (c = C_select 1 s u
      \<and> (if rv r = 0 then (case l of [] \<Rightarrow> False | (c', r') # l' \<Rightarrow> c' = H_timeout h \<and> timer_trace h s u l')
         else timer_trace h s u l))"

lemma timer_trace_append:
  "timer_trace h s u l \<Longrightarrow> timer_trace h s u m \<Longrightarrow> timer_trace h s u (l @ m)"
  by (induction h s u l rule: timer_trace.induct) (auto split: list.splits if_splits)

lemma timer_svc_trace:
  assumes "timer_handler tm = Some h"
  shows "\<exists>r m. SelectTimer_svc os tm l = Some (r, tm, l @ m) \<and> timer_trace h (t_sec tm) (t_usec tm) m"
  using assms by (auto simp: SelectTimer_svc_def syscall_def Let_def do_call_eq)

text \<open>
  C27: registering a handler is refused, with nothing changed, for a null handler (-1), if a
  handler is registered (-2), or for the interval 0 (-3). Once it is accepted, the interval
  read back is the one set, and in every run of the timer's thread the handler is called
  exactly once after each \<open>select\<close> that timed out, each \<open>select\<close> waiting for that interval; an
  interrupted \<open>select\<close> is repeated without calling it.
\<close>

theorem timer_fires:
  assumes "SelectTimer_register hdl interval tm = (ret, tm')"
  shows "(ret = 0 \<longleftrightarrow> hdl \<noteq> None \<and> timer_handler tm = None \<and> interval \<noteq> 0)
    \<and> (ret \<noteq> 0 \<longrightarrow> tm' = tm)
    \<and> (ret = 0 \<longrightarrow> SelectTimer_get_interval tm' = interval
        \<and> (\<forall>os stops t l t2 tm2 l2. thread_proc os (SelectTimer_svc os) stops t tm' l = Some (t2, tm2, l2)
            \<longrightarrow> (\<exists>m. timer_trace (the hdl) (interval div 1000000) (interval mod 1000000) m
                  \<and> (l2 = l @ [(H_prepare, os (length l) H_prepare)] @ m \<and> m = []
                     \<or> l2 = do_call os C_attr_destroy (l @ [(H_prepare, os (length l) H_prepare)] @ m)))))"
proof (intro conjI impI allI)
  assume ok: "ret = 0"
  with assms obtain h where h: "hdl = Some h" "interval \<noteq> 0"
      "tm' = tm\<lparr>t_sec := interval div 1000000, t_usec := interval mod 1000000, timer_handler := Some h\<rparr>"
    by (auto simp: SelectTimer_register_def split: if_splits)
  show "SelectTimer_get_interval tm' = interval"
    by (simp add: h SelectTimer_get_interval_def mult_div_mod_eq)
  fix os stops t l t2 tm2 l2
  assume run: "thread_proc os (SelectTimer_svc os) stops t tm' l = Some (t2, tm2, l2)"
  let ?p = "l @ [(H_prepare, os (length l) H_prepare)]"
  show "\<exists>m. timer_trace (the hdl) (interval div 1000000) (interval mod 1000000) m
          \<and> (l2 = l @ [(H_prepare, os (length l) H_prepare)] @ m \<and> m = []
             \<or> l2 = do_call os C_attr_destroy (l @ [(H_prepare, os (length l) H_prepare)] @ m))"
  proof (cases "rv (os (length l) H_prepare) = 0")
    case True
    then obtain s' l' where lp: "svc_loop (SelectTimer_svc os) stops 0 tm' ?p = Some (s', l')"
        and l2: "l2 = do_call os C_attr_destroy l'"
      using run by (auto simp: thread_proc_def syscall_def Let_def Thread_clean_up_def bind_eq_Some_conv)
    define P where "P = (\<lambda>u l. u = tm' \<and>
      (\<exists>m. l = ?p @ m \<and> timer_trace h (interval div 1000000) (interval mod 1000000) m))"
    have "P s' l'"
      using lp
    proof (rule svc_loop_inv)
      show "P tm' ?p" by (simp add: P_def)
      fix u l1 r u' l1'
      assume "P u l1" and "SelectTimer_svc os u l1 = Some (r, u', l1')"
      then show "P u' l1'"
        using timer_svc_trace [of tm' h os l1] timer_trace_append by (fastforce simp: P_def h)
    qed
    then show ?thesis using l2 h(1) by (auto simp: P_def)
  next
    case False
    then show ?thesis
      using run by (intro exI [of _ "[]"]) (simp add: thread_proc_def syscall_def Let_def)
  qed
qed (use assms in \<open>auto simp: SelectTimer_register_def split: if_splits\<close>)

lemma timer_fires_witness:
  "let tm = snd (SelectTimer_register (Some 4) 2500000 \<lparr>timer_handler = None, t_sec = 0, t_usec = 0\<rparr>)
   in SelectTimer_get_interval tm = 2500000"
  using timer_fires [of "Some 4" 2500000 "\<lparr>timer_handler = None, t_sec = 0, t_usec = 0\<rparr>"
      "fst (SelectTimer_register (Some 4) 2500000 \<lparr>timer_handler = None, t_sec = 0, t_usec = 0\<rparr>)"
      "snd (SelectTimer_register (Some 4) 2500000 \<lparr>timer_handler = None, t_sec = 0, t_usec = 0\<rparr>)"]
  by simp

section \<open>A handler that is part of the library\<close>

text \<open>
  \<open>svc\<close> with the method \<open>handle_timeout\<close> of a handler of the library in place of the outside call.
  The state \<open>s\<close> is the object that the handler works on; the result of the method is not used.
\<close>

definition SelectTimer_svc_on ::
  "(os \<Rightarrow> 's \<Rightarrow> log \<Rightarrow> int \<times> 's \<times> log) \<Rightarrow> os \<Rightarrow> select_timer \<Rightarrow> 's \<Rightarrow> log \<Rightarrow> (int \<times> 's \<times> log) option" where
  "SelectTimer_svc_on handle_timeout os tm s l =
     (let (r, l) = syscall os (C_select 1 (t_sec tm) (t_usec tm)) l in
      if rv r > 0 then Some (0, s, l)
      else if rv r = 0 then
        (case timer_handler tm of
           None \<Rightarrow> None
         | Some h \<Rightarrow> (let (_, s, l) = handle_timeout os s l in Some (0, s, l)))
      else if err r = EINTR then Some (0, s, l)
      else if err r = EINVAL then Some (- 1, s, l)
      else Some (- 2, s, l))"

text \<open>With the outside call as the handler it is \<open>svc\<close>.\<close>

lemma SelectTimer_svc_on_outside:
  "timer_handler tm = Some h \<Longrightarrow>
   SelectTimer_svc os tm l = map_option (\<lambda>(r, s, l). (r, tm, l))
     (SelectTimer_svc_on (\<lambda>os s l. (0, s, do_call os (H_timeout h) l)) os tm () l)"
  by (simp add: SelectTimer_svc_def SelectTimer_svc_on_def Let_def split_beta)

text \<open>The calls that the thread makes besides those of the handler.\<close>

definition idle_call :: "call \<Rightarrow> bool" where
  "idle_call c = (case c of H_prepare \<Rightarrow> True | C_attr_destroy \<Rightarrow> True | C_select n s u \<Rightarrow> True | _ \<Rightarrow> False)"

definition timed_out :: "call \<times> reply \<Rightarrow> bool" where
  "timed_out e = (case fst e of C_select n s u \<Rightarrow> rv (snd e) = 0 | _ \<Rightarrow> False)"

text \<open>
  What a class promises whose method a timer calls: it keeps the invariant \<open>ok\<close> of its object, and
  \<open>keeps s s' m\<close> relates the object before and after, and the calls made, and composes.
\<close>

locale timer_client =
  fixes handle :: "os \<Rightarrow> 's \<Rightarrow> log \<Rightarrow> int \<times> 's \<times> log" and ok :: "'s \<Rightarrow> bool"
    and keeps :: "'s \<Rightarrow> 's \<Rightarrow> log \<Rightarrow> bool"
  assumes handle_keeps: "ok s \<Longrightarrow> handle os s l = (r, s', l') \<Longrightarrow> ok s' \<and> (\<exists>m. l' = l @ m \<and> keeps s s' m)"
    and keeps_idle: "idle_call (fst e) \<Longrightarrow> keeps s s [e]"
    and keeps_trans: "keeps s s1 m \<Longrightarrow> keeps s1 s2 n \<Longrightarrow> keeps s s2 (m @ n)"
begin

text \<open>One round: nothing but the \<open>select\<close>, or after a timeout the method.\<close>

lemma svc_cases:
  assumes "SelectTimer_svc_on handle os tm s l = Some (r, s', l')"
  obtains (idle) e where "s' = s" "l' = l @ [e]" "idle_call (fst e)" "\<not> timed_out e"
  | (timeout) e q where "l @ [e] = q" "idle_call (fst e)" "timed_out e" "\<exists>ret. handle os s q = (ret, s', l')"
proof -
  let ?c = "C_select 1 (t_sec tm) (t_usec tm)"
  let ?e = "(?c, os (length l) ?c)"
  show ?thesis
  proof (cases "rv (snd ?e) = 0")
    case True
    then have "\<exists>ret. handle os s (l @ [?e]) = (ret, s', l')"
      using assms by (auto simp: SelectTimer_svc_on_def syscall_def Let_def split: option.splits prod.splits)
    then show ?thesis using timeout [of ?e] True by (simp add: idle_call_def timed_out_def)
  next
    case False
    then have "s' = s" "l' = l @ [?e]"
      using assms by (auto simp: SelectTimer_svc_on_def syscall_def Let_def split: if_splits)
    then show ?thesis using idle [of ?e] False by (simp add: idle_call_def timed_out_def)
  qed
qed

lemma svc_keeps:
  assumes "SelectTimer_svc_on handle os tm s l = Some (r, s', l')" and "ok s"
  shows "ok s' \<and> (\<exists>m. l' = l @ m \<and> keeps s s' m)"
  using assms(1)
proof (cases rule: svc_cases)
  case (idle e)
  then show ?thesis using keeps_idle [of e s] assms(2) by simp
next
  case (timeout e q)
  then obtain m where "ok s'" "l' = (l @ [e]) @ m" "keeps s s' m" using handle_keeps [OF assms(2)] by blast
  then show ?thesis using keeps_trans [OF keeps_idle [of e s]] timeout(2) by fastforce
qed

end

sublocale timer_client \<subseteq> threaded "SelectTimer_svc_on handle os tm" ok keeps for os tm
proof unfold_locales
  show "keeps s s [(H_prepare, r)]" "keeps s s [(C_attr_destroy, r)]" for s r
    by (rule keeps_idle, simp add: idle_call_def)+
qed (use svc_keeps keeps_trans in blast)+

context timer_client
begin

lemma thread_keeps:
  assumes "thread_proc os (SelectTimer_svc_on handle os tm) stops t s l = Some (t', s', l')" and "ok s"
  shows "ok s' \<and> (\<exists>m. l' = l @ m \<and> keeps s s' m)"
  using assms by (rule thread_piece)

end

text \<open>
  A class whose method brings about a goal whenever the system is \<open>able\<close> to, and never undoes it:
  after one timeout on an able system the goal holds for as long as the timer runs.
\<close>

locale timer_restores = timer_client handle ok keeps
  for handle :: "os \<Rightarrow> 's \<Rightarrow> log \<Rightarrow> int \<times> 's \<times> log" and ok keeps +
  fixes able :: "os \<Rightarrow> nat \<Rightarrow> bool" and goal :: "'s \<Rightarrow> bool"
  assumes able_mono: "able os n \<Longrightarrow> n \<le> k \<Longrightarrow> able os k"
    and restores: "ok s \<Longrightarrow> able os (length l) \<Longrightarrow> handle os s l = (r, s', l') \<Longrightarrow> goal s'"
    and stays: "ok s \<Longrightarrow> goal s \<Longrightarrow> handle os s l = (r, s', l') \<Longrightarrow> goal s'"
    and waits_not: "ok s \<Longrightarrow> handle os s l = (r, s', l @ m) \<Longrightarrow> \<forall>e \<in> set m. \<not> timed_out e"
begin

lemma thread_restores:
  assumes run: "thread_proc os (SelectTimer_svc_on handle os tm) stops t s l = Some (t', s', l @ m)"
    and ok: "ok s" and able: "able os N"
    and out: "k < length m" "timed_out (m ! k)" "N \<le> length l + k"
  shows "goal s'"
proof -
  let ?p = "(H_prepare, os (length l) H_prepare)"
  have no: "\<not> timed_out ?p" "\<not> timed_out (C_attr_destroy, r)" for r by (simp_all add: timed_out_def)
  define P where "P = (\<lambda>u l1. ok u \<and> length l \<le> length l1 \<and>
    ((\<exists>j. N \<le> j \<and> length l \<le> j \<and> j < length l1 \<and> timed_out (l1 ! j)) \<longrightarrow> goal u))"
  have "rv (snd ?p) = 0"
  proof (rule ccontr)
    assume "rv (snd ?p) \<noteq> 0"
    then have "m = [?p]" using run by (auto simp: thread_proc_def syscall_def Let_def)
    with out no show False by simp
  qed
  then obtain q where loop: "svc_loop (SelectTimer_svc_on handle os tm) stops 0 s (l @ [?p]) = Some (s', q)"
    and q: "l @ m = q @ [(C_attr_destroy, os (length q) C_attr_destroy)]"
    using run by (auto simp: thread_proc_def syscall_def Let_def bind_eq_Some_conv Thread_clean_up_def do_call_eq)
  have "P s' q"
  proof (rule svc_loop_inv [OF loop])
    show "P s (l @ [?p])" using no ok by (auto simp: P_def nth_append split: if_splits)
  next
    fix u l1 r u' l2
    assume P: "P u l1" and v: "SelectTimer_svc_on handle os tm u l1 = Some (r, u', l2)"
    then have u: "ok u" "ok u'" using svc_keeps by (auto simp: P_def)
    from v show "P u' l2"
    proof (cases rule: svc_cases)
      case (idle e)
      with P show ?thesis by (auto simp: P_def nth_append less_Suc_eq)
    next
      case (timeout e q)
      then obtain ret where h: "handle os u (l1 @ [e]) = (ret, u', l2)" by blast
      from handle_keeps [OF u(1) h] obtain n where n: "l2 = (l1 @ [e]) @ n" by blast
      have quiet: "\<forall>e \<in> set n. \<not> timed_out e" using waits_not u(1) h n by blast
      have "goal u'" if j: "N \<le> j" "length l \<le> j" "j < length l2" "timed_out (l2 ! j)" for j
      proof (cases "j < length l1")
        case True
        then have "goal u" using P j by (auto simp: P_def n nth_append)
        then show ?thesis using stays u(1) h by blast
      next
        case False
        have "j = length l1"
        proof (rule ccontr)
          assume "j \<noteq> length l1"
          then have "l2 ! j = n ! (j - Suc (length l1))" "j - Suc (length l1) < length n"
            using False j(3) by (auto simp: n nth_append)
          then show False using j(4) quiet nth_mem by fastforce
        qed
        then have "able os (length (l1 @ [e]))" using able_mono [OF able] j(1) by simp
        then show ?thesis using restores u(1) h by blast
      qed
      then show ?thesis using P u(2) by (auto simp: P_def n)
    qed
  qed
  moreover have at: "(q @ [(C_attr_destroy, os (length q) C_attr_destroy)]) ! (length l + k) = m ! k"
    unfolding q [symmetric] by simp
  moreover have lt: "length l + k < length q"
  proof -
    have "length l + k < length (l @ m)" using out(1) by simp
    then have "length l + k \<le> length q" unfolding q by simp
    moreover have "length l + k \<noteq> length q" using at out(2) no by (metis nth_append_length)
    ultimately show ?thesis by simp
  qed
  ultimately show ?thesis
    using out(2,3) by (auto simp: P_def nth_append)
qed

end

end
