(* ===== verification/SocketUtils.thy ===== *)
theory SocketUtils
  imports TimeStamp
begin

unbundle bit_operations_syntax

text \<open>
  src/SocketUtils.cpp: static helpers on socket descriptors. A system call gives a reply of
  the operating system; a helper returns its result and the log of the calls it made. A loop
  that goes on until the system says otherwise is a partial function: \<open>None\<close> is a loop that
  never ends.
\<close>

section \<open>Descriptor flags and options\<close>

definition O_NONBLOCK :: uint where "O_NONBLOCK = 0x800"
definition FD_CLOEXEC :: uint where "FD_CLOEXEC = 1"

definition set_non_bolck :: "os \<Rightarrow> int \<Rightarrow> log \<Rightarrow> int \<times> log" where
  "set_non_bolck os fd l =
     (let (r, l) = syscall os (C_getfl fd) l in
      if rv r < 0 then (- 1, l)
      else (let (r, l) = syscall os (C_setfl fd (word_of_int (rv r) OR O_NONBLOCK)) l in
            if rv r < 0 then (- 2, l) else (0, l)))"

definition set_bolck :: "os \<Rightarrow> int \<Rightarrow> log \<Rightarrow> int \<times> log" where
  "set_bolck os fd l =
     (let (r, l) = syscall os (C_getfl fd) l in
      if rv r < 0 then (- 1, l)
      else (let (r, l) = syscall os (C_setfl fd (word_of_int (rv r) AND NOT O_NONBLOCK)) l in
            if rv r < 0 then (- 2, l) else (0, l)))"

text \<open>\<open>FD_CLOEXEC\<close> is set with \<open>F_SETFL\<close>, among the file status flags.\<close>

definition set_closeonexec :: "os \<Rightarrow> int \<Rightarrow> log \<Rightarrow> int \<times> log" where
  "set_closeonexec os fd l =
     (let (r, l) = syscall os (C_getfl fd) l in
      if rv r < 0 then (- 1, l)
      else (let (r, l) = syscall os (C_setfl fd (word_of_int (rv r) OR FD_CLOEXEC)) l in
            if rv r < 0 then (- 2, l) else (0, l)))"

definition set_nodelay :: "os \<Rightarrow> int \<Rightarrow> log \<Rightarrow> int \<times> log" where
  "set_nodelay os fd l =
     (let (r, l) = syscall os (C_setsockopt fd TCP_NODELAY 1) l in (if rv r < 0 then - 1 else rv r, l))"

definition set_quickack :: "os \<Rightarrow> int \<Rightarrow> log \<Rightarrow> int \<times> log" where
  "set_quickack os fd l =
     (let (r, l) = syscall os (C_setsockopt fd TCP_QUICKACK 1) l in (if rv r < 0 then - 1 else rv r, l))"

definition set_reuseaddr :: "os \<Rightarrow> int \<Rightarrow> log \<Rightarrow> int \<times> log" where
  "set_reuseaddr os fd l =
     (let (r, l) = syscall os (C_setsockopt fd SO_REUSEADDR 1) l in (if rv r < 0 then - 1 else rv r, l))"

definition set_keepalive :: "os \<Rightarrow> int \<Rightarrow> log \<Rightarrow> int \<times> log" where
  "set_keepalive os fd l =
     (let (r, l) = syscall os (C_setsockopt fd SO_KEEPALIVE 1) l in (if rv r < 0 then - 1 else rv r, l))"

definition set_rcvbuf :: "os \<Rightarrow> int \<Rightarrow> int \<Rightarrow> log \<Rightarrow> int \<times> log" where
  "set_rcvbuf os fd sz l =
     (let (r, l) = syscall os (C_setsockopt fd SO_RCVBUF sz) l in (if rv r < 0 then - 1 else rv r, l))"

definition set_sndbuf :: "os \<Rightarrow> int \<Rightarrow> int \<Rightarrow> log \<Rightarrow> int \<times> log" where
  "set_sndbuf os fd sz l =
     (let (r, l) = syscall os (C_setsockopt fd SO_SNDBUF sz) l in (if rv r < 0 then - 1 else rv r, l))"

definition set_rcv_timeout :: "os \<Rightarrow> int \<Rightarrow> int \<Rightarrow> log \<Rightarrow> int \<times> log" where
  "set_rcv_timeout os fd timeout l =
     (let (r, l) = syscall os (C_setsockopt fd SO_RCVTIMEO timeout) l in
      (if rv r < 0 then - 1 else rv r, l))"

definition set_snd_timeout :: "os \<Rightarrow> int \<Rightarrow> int \<Rightarrow> log \<Rightarrow> int \<times> log" where
  "set_snd_timeout os fd timeout l =
     (let (r, l) = syscall os (C_setsockopt fd SO_SNDTIMEO timeout) l in
      (if rv r < 0 then - 1 else rv r, l))"

text \<open>Inside the class the name \<open>shutdown\<close> is the method itself, not the system's function.\<close>

partial_function (option) SocketUtils_shutdown :: "int \<Rightarrow> int \<Rightarrow> int option" where
  "SocketUtils_shutdown fd flag =
     do { nRet \<leftarrow> SocketUtils_shutdown fd flag;
          if nRet < 0 then Some (- 1) else Some nRet }"

definition close_socket :: "os \<Rightarrow> int \<Rightarrow> log \<Rightarrow> int \<times> log" where
  "close_socket os fd l = (let (r, l) = syscall os (C_close fd) l in (rv r, l))"

definition get_local_socket :: "os \<Rightarrow> int \<Rightarrow> log \<Rightarrow> int \<times> (string \<times> ushort) option \<times> log" where
  "get_local_socket os fd l =
     (let (r, l) = syscall os (C_getsockname fd) l in
      (rv r, if rv r \<noteq> 0 then None else Some (peer r), l))"

definition get_remote_socket :: "os \<Rightarrow> int \<Rightarrow> log \<Rightarrow> int \<times> (string \<times> ushort) option \<times> log" where
  "get_remote_socket os fd l =
     (let (r, l) = syscall os (C_getpeername fd) l in
      (rv r, if rv r \<noteq> 0 then None else Some (peer r), l))"

text \<open>The helpers that only set a flag or an option open and close nothing.\<close>

lemma set_non_bolck_neutral: "\<exists>m. snd (set_non_bolck os fd l) = l @ m \<and> neutral_log m"
  by (auto simp: set_non_bolck_def syscall_def Let_def neutral_log_def fd_effect_def new_fd_def)

lemma set_option_neutral:
  "\<exists>m. snd (set_reuseaddr os fd l) = l @ m \<and> neutral_log m"
  "\<exists>m. snd (set_nodelay os fd l) = l @ m \<and> neutral_log m"
  "\<exists>m. snd (set_rcvbuf os fd n l) = l @ m \<and> neutral_log m"
  by (auto simp: set_reuseaddr_def set_nodelay_def set_rcvbuf_def syscall_def Let_def neutral_log_def
      fd_effect_def new_fd_def)

section \<open>Receiving\<close>

text \<open>The clock in microseconds, as the loops read it.\<close>

definition now_usec :: "os \<Rightarrow> log \<Rightarrow> ullong \<times> log" where
  "now_usec os l = (let (ts, l) = TimeStamp_now os l in (ToUSeconds ts, l))"

definition timed_out :: "ullong \<Rightarrow> ullong \<Rightarrow> uint \<Rightarrow> bool" where
  "timed_out begin_usec end_usec timeout \<longleftrightarrow>
     end_usec \<noteq> 0 \<and> end_usec - begin_usec \<ge> ucast timeout"

text \<open>
  \<open>data\<close> is what the buffer holds so far: its first \<open>len\<close> bytes. The code keeps the result of
  \<open>::recv\<close> and \<open>::send\<close> in an \<open>int\<close>; the system moves at most 0x7ffff000 bytes in a call, so the
  conversion keeps the value, and the loops below use it as it is.
\<close>

partial_function (option) recv_n_loop ::
  "os \<Rightarrow> int \<Rightarrow> uint \<Rightarrow> ullong \<Rightarrow> ullong \<Rightarrow> uint \<Rightarrow> uint \<Rightarrow> uchar list \<Rightarrow> log
   \<Rightarrow> (int \<times> uint \<times> uchar list \<times> log) option" where
  "recv_n_loop os fd timeout begin_usec end_usec buf_size len data l =
     (if timed_out begin_usec end_usec timeout then Some (2, len, data, l)
      else
        (let (r, l) = syscall os (C_recv fd buf_size) l in
         if rv r > 0 then
           (let len = len + word_of_int (rv r);
                buf_size = buf_size - word_of_int (rv r);
                data = data @ bytes r in
            if buf_size = 0 then Some (1, len, data, l)
            else (let (end_usec, l) = now_usec os l
                  in recv_n_loop os fd timeout begin_usec end_usec buf_size len data l))
         else if rv r = 0 then Some (0, len, data, l)
         else if err r = EAGAIN \<or> err r = EINTR then
           (let (end_usec, l) = now_usec os l
            in recv_n_loop os fd timeout begin_usec end_usec buf_size len data l)
         else Some (rv r, len, data, l)))"

definition SocketUtils_recv_n ::
  "os \<Rightarrow> int \<Rightarrow> uint \<Rightarrow> uint \<Rightarrow> log \<Rightarrow> (int \<times> uint \<times> uchar list \<times> log) option" where
  "SocketUtils_recv_n os fd len timeout l =
     (let (_, l) = set_non_bolck os fd l; (begin_usec, l) = now_usec os l
      in recv_n_loop os fd timeout begin_usec 0 len 0 [] l)"

partial_function (option) recv_loop ::
  "os \<Rightarrow> int \<Rightarrow> uint \<Rightarrow> ullong \<Rightarrow> ullong \<Rightarrow> uint \<Rightarrow> log \<Rightarrow> (int \<times> uint \<times> uchar list \<times> log) option" where
  "recv_loop os fd timeout begin_usec end_usec buf_size l =
     (if timed_out begin_usec end_usec timeout then Some (2, 0, [], l)
      else
        (let (r, l) = syscall os (C_recv fd buf_size) l in
         if rv r > 0 then Some (1, word_of_int (rv r), bytes r, l)
         else if rv r = 0 then Some (0, 0, [], l)
         else if err r = EAGAIN \<or> err r = EINTR then
           (let (end_usec, l) = now_usec os l
            in recv_loop os fd timeout begin_usec end_usec buf_size l)
         else Some (rv r, 0, [], l)))"

definition SocketUtils_recv ::
  "os \<Rightarrow> int \<Rightarrow> uint \<Rightarrow> uint \<Rightarrow> log \<Rightarrow> (int \<times> uint \<times> uchar list \<times> log) option" where
  "SocketUtils_recv os fd len timeout l =
     (let (_, l) = set_non_bolck os fd l; (begin_usec, l) = now_usec os l
      in recv_loop os fd timeout begin_usec 0 len l)"

section \<open>Sending\<close>

text \<open>The caller's buffer is \<open>buf\<close>; each call passes the \<open>buf_size\<close> bytes from \<open>len\<close> on.\<close>

definition chunk :: "uchar list \<Rightarrow> uint \<Rightarrow> uint \<Rightarrow> uchar list" where
  "chunk buf len buf_size = take (unat buf_size) (drop (unat len) buf)"

partial_function (option) send_n_loop ::
  "os \<Rightarrow> int \<Rightarrow> uchar list \<Rightarrow> int \<Rightarrow> uint \<Rightarrow> ullong \<Rightarrow> ullong \<Rightarrow> uint \<Rightarrow> uint \<Rightarrow> log
   \<Rightarrow> (int \<times> uint \<times> log) option" where
  "send_n_loop os fd buf flags timeout begin_usec end_usec buf_size len l =
     (if timed_out begin_usec end_usec timeout then Some (2, len, l)
      else
        (let (r, l) = syscall os (C_send fd (chunk buf len buf_size) flags) l in
         if rv r \<ge> 0 then
           (let len = len + word_of_int (rv r); buf_size = buf_size - word_of_int (rv r) in
            if buf_size = 0 then Some (0, len, l)
            else (let (end_usec, l) = now_usec os l
                  in send_n_loop os fd buf flags timeout begin_usec end_usec buf_size len l))
         else if err r = EAGAIN \<or> err r = EINTR then
           (let (end_usec, l) = now_usec os l
            in send_n_loop os fd buf flags timeout begin_usec end_usec buf_size len l)
         else Some (rv r, len, l)))"

definition SocketUtils_send_n ::
  "os \<Rightarrow> int \<Rightarrow> uchar list \<Rightarrow> uint \<Rightarrow> int \<Rightarrow> uint \<Rightarrow> log \<Rightarrow> (int \<times> uint \<times> log) option" where
  "SocketUtils_send_n os fd buf len flags timeout l =
     (let (_, l) = set_non_bolck os fd l; (begin_usec, l) = now_usec os l
      in send_n_loop os fd buf flags timeout begin_usec 0 len 0 l)"

partial_function (option) send_loop ::
  "os \<Rightarrow> int \<Rightarrow> uchar list \<Rightarrow> int \<Rightarrow> uint \<Rightarrow> ullong \<Rightarrow> ullong \<Rightarrow> uint \<Rightarrow> log \<Rightarrow> (int \<times> uint \<times> log) option" where
  "send_loop os fd buf flags timeout begin_usec end_usec buf_size l =
     (if timed_out begin_usec end_usec timeout then Some (2, 0, l)
      else
        (let (r, l) = syscall os (C_send fd (chunk buf 0 buf_size) flags) l in
         if rv r \<ge> 0 then Some (0, word_of_int (rv r), l)
         else if err r = EAGAIN \<or> err r = EINTR then
           (let (end_usec, l) = now_usec os l
            in send_loop os fd buf flags timeout begin_usec end_usec buf_size l)
         else Some (rv r, 0, l)))"

definition SocketUtils_send ::
  "os \<Rightarrow> int \<Rightarrow> uchar list \<Rightarrow> uint \<Rightarrow> int \<Rightarrow> uint \<Rightarrow> log \<Rightarrow> (int \<times> uint \<times> log) option" where
  "SocketUtils_send os fd buf len flags timeout l =
     (let (_, l) = set_non_bolck os fd l; (begin_usec, l) = now_usec os l
      in send_loop os fd buf flags timeout begin_usec 0 len l)"

definition SocketUtils_send_s :: "os \<Rightarrow> int \<Rightarrow> uchar list \<Rightarrow> uint \<Rightarrow> int \<Rightarrow> log \<Rightarrow> int \<times> uint \<times> log" where
  "SocketUtils_send_s os fd buf len flags l =
     (let total = sint len;
          (r, l) = syscall os (C_send fd (chunk buf 0 len) flags) l in
      if rv r \<ge> total then (0, len, l)
      else if rv r < total \<and> rv r \<ge> 0 then (2, word_of_int (rv r), l)
      else (- 1, len, l))"

section \<open>Connecting\<close>

text \<open>\<open>FD_SET\<close> of a descriptor outside 0..1023 is undefined.\<close>

partial_function (option) connect_wait :: "os \<Rightarrow> int \<Rightarrow> slong \<Rightarrow> slong \<Rightarrow> log \<Rightarrow> (int \<times> log) option" where
  "connect_wait os fd sec usec l =
     (let (r, l) = syscall os (C_select (fd + 1) sec usec) l in
      if rv r > 0 then
        (let (r, l) = syscall os (C_getsockopt_error fd) l in
         if rv r \<noteq> 0 then Some (rv r, l)
         else if nums r ! 0 \<noteq> 0 then Some (- 1, l) else Some (0, l))
      else if rv r = 0 then Some (2, l)
      else if err r = EINTR then connect_wait os fd sec usec l
      else Some (rv r, l))"

definition SocketUtils_connect :: "os \<Rightarrow> int \<Rightarrow> string \<Rightarrow> ushort \<Rightarrow> uint \<Rightarrow> log \<Rightarrow> (int \<times> log) option" where
  "SocketUtils_connect os fd ip port timeout l =
     (let sec = (if timeout > 0 then ucast (timeout div 1000000) else 0);
          usec = (if timeout > 0 then ucast (timeout mod 1000000) else 0);
          l = (if timeout > 0 then snd (set_non_bolck os fd l) else l);
          (r, l) = syscall os (C_connect fd (c_str ip) port) l in
      if rv r < 0 then
        (if err r = EINPROGRESS then
           (if fd < 0 \<or> 1024 \<le> fd then None else connect_wait os fd sec usec l)
         else Some (rv r, l))
      else Some (rv r, l))"

definition SocketUtils_connect_s :: "os \<Rightarrow> int \<Rightarrow> string \<Rightarrow> ushort \<Rightarrow> uint \<Rightarrow> log \<Rightarrow> int \<times> log" where
  "SocketUtils_connect_s os fd ip port timeout l =
     (let (r, l) = syscall os (C_connect fd (c_str ip) port) l in (rv r, l))"


section \<open>What the loops receive and send\<close>

text \<open>
  What the system promises: it stores no more bytes than it was given room for, and takes no
  more than it was given.
\<close>

definition recv_contract :: "os \<Rightarrow> bool" where
  "recv_contract os \<longleftrightarrow> (\<forall>n fd s. rv (os n (C_recv fd s)) \<le> uint s
     \<and> (0 < rv (os n (C_recv fd s)) \<longrightarrow> length (bytes (os n (C_recv fd s))) = nat (rv (os n (C_recv fd s)))))"

definition send_contract :: "os \<Rightarrow> bool" where
  "send_contract os \<longleftrightarrow> (\<forall>n fd d fl. rv (os n (C_send fd d fl)) \<le> int (length d))"

text \<open>The bytes that the calls of a log received; every receive gets exactly the room left.\<close>

definition received :: "log \<Rightarrow> uchar list" where
  "received l = concat (map (\<lambda>e. case fst e of
     C_recv fd s \<Rightarrow> (if 0 < rv (snd e) then bytes (snd e) else []) | _ \<Rightarrow> []) l)"

fun within_buffer :: "nat \<Rightarrow> log \<Rightarrow> bool" where
  "within_buffer n [] = True"
| "within_buffer n (e # l) = (case fst e of
     C_recv fd s \<Rightarrow> unat s = n \<and> within_buffer (n - nat (rv (snd e))) l | _ \<Rightarrow> within_buffer n l)"

text \<open>The bytes that the calls of a log handed over.\<close>

definition delivered :: "log \<Rightarrow> uchar list" where
  "delivered l = concat (map (\<lambda>e. case fst e of
     C_send fd d fl \<Rightarrow> (if 0 \<le> rv (snd e) then take (nat (rv (snd e))) d else []) | _ \<Rightarrow> []) l)"

lemma received_simps [simp]:
  "received [] = []"
  "received (e # l) = (case fst e of
     C_recv fd s \<Rightarrow> (if 0 < rv (snd e) then bytes (snd e) else []) | _ \<Rightarrow> []) @ received l"
  "received (l @ m) = received l @ received m"
  by (simp_all add: received_def)

lemma delivered_simps [simp]:
  "delivered [] = []"
  "delivered (e # l) = (case fst e of
     C_send fd d fl \<Rightarrow> (if 0 \<le> rv (snd e) then take (nat (rv (snd e))) d else []) | _ \<Rightarrow> []) @ delivered l"
  "delivered (l @ m) = delivered l @ delivered m"
  by (simp_all add: delivered_def)

definition clock_at :: "os \<Rightarrow> nat \<Rightarrow> ullong" where
  "clock_at os n = ToUSeconds (ts_of_reply (os n C_gettimeofday))"

lemma now_usec_eq: "now_usec os l = (clock_at os (length l), l @ [(C_gettimeofday, os (length l) C_gettimeofday)])"
  by (simp add: now_usec_def TimeStamp_now_def clock_at_def syscall_def Let_def)

text \<open>What each result of \<open>recv_n\<close> means, for the calls \<open>m\<close> of the loop and the room \<open>n\<close> at its start.\<close>

definition recv_n_means :: "int \<Rightarrow> ullong \<Rightarrow> ullong \<Rightarrow> uint \<Rightarrow> nat \<Rightarrow> log \<Rightarrow> int \<Rightarrow> bool" where
  "recv_n_means fd b e timeout n m ret \<longleftrightarrow>
     (ret = 1 \<longleftrightarrow> length (received m) = n \<and> n \<noteq> 0)
   \<and> (ret = 0 \<longleftrightarrow> (\<exists>s r. m \<noteq> [] \<and> last m = (C_recv fd s, r) \<and> rv r = 0))
   \<and> (ret = 2 \<longleftrightarrow> m = [] \<and> timed_out b e timeout
        \<or> (\<exists>t. m \<noteq> [] \<and> last m = (C_gettimeofday, t) \<and> timed_out b (ToUSeconds (ts_of_reply t)) timeout))
   \<and> (ret < 0 \<longleftrightarrow> (\<exists>s r. m \<noteq> [] \<and> last m = (C_recv fd s, r) \<and> rv r < 0))
   \<and> (ret < 0 \<longrightarrow> (\<exists>s r. m \<noteq> [] \<and> last m = (C_recv fd s, r) \<and> rv r = ret \<and> err r \<noteq> EAGAIN \<and> err r \<noteq> EINTR))
   \<and> (ret < 0 \<or> ret = 0 \<or> ret = 1 \<or> ret = 2)"

definition recv_n_post :: "int \<Rightarrow> ullong \<Rightarrow> ullong \<Rightarrow> uint \<Rightarrow>
   uint \<Rightarrow> uint \<Rightarrow> uchar list \<Rightarrow> log \<Rightarrow> int \<times> uint \<times> uchar list \<times> log \<Rightarrow> bool" where
  "recv_n_post fd b e timeout buf_size len data l res \<longleftrightarrow>
     (case res of (ret, len', data', l') \<Rightarrow>
        \<exists>m. l' = l @ m \<and> data' = data @ received m \<and> within_buffer (unat buf_size) m
          \<and> unat len' = unat len + length (received m) \<and> length (received m) \<le> unat buf_size
          \<and> recv_n_means fd b e timeout (unat buf_size) m ret)"

lemma unat_count:
  assumes "0 \<le> k" and "k \<le> uint (bs :: uint)"
  shows "unat (word_of_int k :: uint) = nat k" and "nat k \<le> unat bs"
    and "unat (bs - word_of_int k) = unat bs - nat k"
proof -
  have "k < 2 ^ 32" using assms(2) uint_lt2p [of bs] by simp
  then show u: "unat (word_of_int k :: uint) = nat k"
    using assms(1) unfolding unat_eq_nat_uint by (simp add: uint_word_of_int_eq take_bit_int_eq_self)
  show le: "nat k \<le> unat bs" using assms(2) by (simp add: nat_le_iff)
  show "unat (bs - word_of_int k) = unat bs - nat k"
    using u le by (simp add: unat_sub word_le_nat_alt)
qed

lemma unat_count_add:
  assumes "0 \<le> k" and "k \<le> uint (bs :: uint)" and "unat (len :: uint) + unat bs < 2 ^ 32"
  shows "unat (len + word_of_int k) = unat len + nat k"
proof -
  have "unat len + unat (word_of_int k :: uint) < 2 ^ 32"
    using unat_count [OF assms(1,2)] assms(3) by linarith
  then show ?thesis using unat_count(1) [OF assms(1,2)] by (simp add: unat_word_ariths)
qed

text \<open>One more round in front of a run that satisfies the postcondition.\<close>

lemma recv_n_post_more:
  assumes "recv_n_post fd b (ToUSeconds (ts_of_reply t)) timeout (bs - word_of_int k) (len + word_of_int k) (data @ d)
      (l @ [(C_recv fd bs, r), (C_gettimeofday, t)]) res"
    and "k = (if 0 < rv r then rv r else 0)" and "d = (if 0 < rv r then bytes r else [])"
    and "k \<le> uint bs" and "length d = nat k" and "unat len + unat bs < 2 ^ 32"
    and "k = 0 \<or> bs - word_of_int k \<noteq> 0"
  shows "recv_n_post fd b e timeout bs len data l res"
proof -
  obtain ret len' data' l' where res: "res = (ret, len', data', l')" by (metis prod_cases4)
  have "0 \<le> k" using assms(2) by simp
  note bs = unat_count(3) [OF this assms(4)] and le = unat_count(2) [OF this assms(4)]
    and len = unat_count_add [OF this assms(4,6)]
  from assms(1) obtain m where m: "l' = l @ (C_recv fd bs, r) # (C_gettimeofday, t) # m"
      "data' = data @ d @ received m" "within_buffer (unat bs - nat k) m"
      "unat len' = unat len + nat k + length (received m)" "length (received m) \<le> unat bs - nat k"
      "recv_n_means fd b (ToUSeconds (ts_of_reply t)) timeout (unat bs - nat k) m ret"
    by (auto simp: recv_n_post_def res bs len)
  define m' where "m' = [(C_recv fd bs, r), (C_gettimeofday, t)] @ m"
  have rec: "received m' = d @ received m" using assms(3) by (simp add: m'_def)
  moreover have "within_buffer (unat bs) m'" using m(3) assms(2) by (cases "0 < rv r") (simp_all add: m'_def)
  moreover have "l' = l @ m'" using m(1) by (simp add: m'_def)
  moreover have "recv_n_means fd b e timeout (unat bs) m' ret"
  proof -
    have last: "last m' = (if m = [] then (C_gettimeofday, t) else last m)" "m' \<noteq> []" by (simp_all add: m'_def)
    have "unat bs - nat k = 0 \<longleftrightarrow> unat bs = 0"
      using assms(7)
    proof
      assume "bs - word_of_int k \<noteq> 0"
      then have "0 < unat (bs - word_of_int k)" by (simp add: unat_gt_0)
      then show ?thesis using bs by linarith
    qed simp
    then have "length (received m') = unat bs \<and> unat bs \<noteq> 0
        \<longleftrightarrow> length (received m) = unat bs - nat k \<and> unat bs - nat k \<noteq> 0"
      using rec assms(5) le m(5) by auto
    then show ?thesis using m(6) last unfolding recv_n_means_def by auto
  qed
  ultimately show ?thesis
    unfolding recv_n_post_def res prod.case
    using m(2,4,5) assms(5) le by (intro exI [of _ m']) simp
qed

text \<open>The six ways out of a round of the loops.\<close>

lemma round_cases:
  assumes "(if a then Some x else if b then (if c then Some y else L1)
      else if d then Some z else if e then L2 else Some w) = Some res"
  shows "(a \<and> res = x) \<or> (b \<and> c \<and> res = y) \<or> (b \<and> \<not> c \<and> L1 = Some res) \<or> (d \<and> res = z)
    \<or> (\<not> b \<and> L2 = Some res) \<or> (\<not> b \<and> \<not> d \<and> \<not> e \<and> res = w)"
  using assms by (auto split: if_splits)

lemma recv_n_loop_post:
  assumes "recv_contract os"
    and "recv_n_loop os fd timeout b e bs len data l = Some res" and "unat len + unat bs < 2 ^ 32"
  shows "recv_n_post fd b e timeout bs len data l res"
proof -
  have "o' = os \<longrightarrow> unat len + unat bs < 2 ^ 32 \<longrightarrow> recv_n_post fd b e timeout bs len data l res"
    if "recv_n_loop o' fd timeout b e bs len data l = Some res"
    for o' fd timeout b e bs len data l res
  proof (rule recv_n_loop.raw_induct [of "\<lambda>o' fd timeout b e bs len data l res.
        o' = os \<longrightarrow> unat len + unat bs < 2 ^ 32 \<longrightarrow> recv_n_post fd b e timeout bs len data l res", OF _ that])
    fix loop o' fd timeout b e bs len data l res
    assume ih: "\<And>o' fd timeout b e bs len data l res. loop o' fd timeout b e bs len data l = Some res \<Longrightarrow>
        o' = os \<longrightarrow> unat len + unat bs < 2 ^ 32 \<longrightarrow> recv_n_post fd b e timeout bs len data l res"
      and body: "(if timed_out b e timeout then Some (2, len, data, l)
      else
        (let (r, l) = syscall o' (C_recv fd bs) l in
         if rv r > 0 then
           (let len = len + word_of_int (rv r);
                buf_size = bs - word_of_int (rv r);
                data = data @ bytes r in
            if buf_size = 0 then Some (1, len, data, l)
            else (let (end_usec, l) = now_usec o' l
                  in loop o' fd timeout b end_usec buf_size len data l))
         else if rv r = 0 then Some (0, len, data, l)
         else if err r = EAGAIN \<or> err r = EINTR then
           (let (end_usec, l) = now_usec o' l
            in loop o' fd timeout b end_usec bs len data l)
         else Some (rv r, len, data, l))) = Some res"
    show "o' = os \<longrightarrow> unat len + unat bs < 2 ^ 32 \<longrightarrow> recv_n_post fd b e timeout bs len data l res"
    proof (intro impI)
      assume o: "o' = os" and room: "unat len + unat bs < 2 ^ 32"
      define r where "r = os (length l) (C_recv fd bs)"
      define k where "k = (word_of_int (rv r) :: uint)"
      define t where "t = os (Suc (length l)) C_gettimeofday"
      let ?l1 = "l @ [(C_recv fd bs, r)]"
      let ?l2 = "l @ [(C_recv fd bs, r), (C_gettimeofday, t)]"
      let ?e = "clock_at os (Suc (length l))"
      have e: "?e = ToUSeconds (ts_of_reply t)" by (simp add: clock_at_def t_def)
      have c: "rv r \<le> uint bs" "0 < rv r \<Longrightarrow> length (bytes r) = nat (rv r)"
        using assms(1) by (simp_all add: recv_contract_def r_def)
      have body': "(if timed_out b e timeout then Some (2, len, data, l)
        else if 0 < rv r then
          (if bs - k = 0 then Some (1, len + k, data @ bytes r, ?l1)
           else loop os fd timeout b ?e (bs - k) (len + k) (data @ bytes r) ?l2)
        else if rv r = 0 then Some (0, len, data, ?l1)
        else if err r = EAGAIN \<or> err r = EINTR then loop os fd timeout b ?e bs len data ?l2
        else Some (rv r, len, data, ?l1)) = Some res"
        using body unfolding o r_def k_def t_def by (simp add: syscall_def now_usec_eq Let_def cong: if_cong)
      from round_cases [OF body'] show "recv_n_post fd b e timeout bs len data l res"
      proof (elim disjE conjE)
        assume "timed_out b e timeout" and "res = (2, len, data, l)"
        then show ?thesis unfolding recv_n_post_def recv_n_means_def by (auto intro!: exI [of _ "[]"])
      next
        assume full: "0 < rv r" "bs - k = 0" "res = (1, len + k, data @ bytes r, ?l1)"
        have "0 \<le> rv r" using full(1) by simp
        note n = unat_count [OF this c(1), folded k_def] unat_count_add [OF this c(1) room, folded k_def]
        have "unat bs = nat (rv r)" using n(1) full(2) by (metis right_minus_eq)
        then show ?thesis
          using full c(2) n unfolding recv_n_post_def recv_n_means_def
          by (auto intro!: exI [of _ "[(C_recv fd bs, r)]"])
      next
        assume part: "0 < rv r"
          "bs - k \<noteq> 0" "loop os fd timeout b ?e (bs - k) (len + k) (data @ bytes r) ?l2 = Some res"
        have "0 \<le> rv r" using part(1) by simp
        note n = unat_count [OF this c(1), folded k_def] unat_count_add [OF this c(1) room, folded k_def]
        have "unat (len + k) + unat (bs - k) < 2 ^ 32" using n room by linarith
        with ih [OF part(3)] have "recv_n_post fd b ?e timeout (bs - k) (len + k) (data @ bytes r) ?l2 res" by blast
        then show ?thesis
          using part(1,2) c room unfolding e
          by (intro recv_n_post_more [of fd b t timeout bs "rv r" len data "bytes r" l r res]) (auto simp: k_def)
      next
        assume "rv r = 0" and "res = (0, len, data, ?l1)"
        then show ?thesis unfolding recv_n_post_def recv_n_means_def by (auto intro!: exI [of _ "[(C_recv fd bs, r)]"])
      next
        assume again: "\<not> 0 < rv r" "loop os fd timeout b ?e bs len data ?l2 = Some res"
        from ih [OF again(2)] room have "recv_n_post fd b ?e timeout bs len data ?l2 res" by blast
        then show ?thesis
          using again(1) room unfolding e
          by (intro recv_n_post_more [of fd b t timeout bs 0 len data "[]" l r res]) auto
      next
        assume "\<not> 0 < rv r" and "rv r \<noteq> 0" and "\<not> (err r = EAGAIN \<or> err r = EINTR)"
          and "res = (rv r, len, data, ?l1)"
        then show ?thesis unfolding recv_n_post_def recv_n_means_def by (auto intro!: exI [of _ "[(C_recv fd bs, r)]"])
      qed
    qed
  qed
  with assms(2,3) show ?thesis by blast
qed


text \<open>The loop ends once the clock has passed the deadline for good.\<close>

lemma recv_n_loop_returns:
  assumes "\<forall>n \<ge> N. timed_out b (clock_at os n) timeout"
  shows "recv_n_loop os fd timeout b e bs len data l \<noteq> None"
proof (induction "N - length l" arbitrary: e bs len data l rule: less_induct)
  case less
  have next_round: "recv_n_loop os fd timeout b (clock_at os (Suc (length l))) bs' len' data'
      (l @ [x, y]) \<noteq> None" for bs' len' data' x y
  proof (cases "N \<le> Suc (length l)")
    case True
    then show ?thesis using assms by (subst recv_n_loop.simps) simp
  next
    case False
    then show ?thesis by (intro less) simp
  qed
  show ?case
    by (subst recv_n_loop.simps)
       (simp add: syscall_def now_usec_eq Let_def next_round del: not_None_eq)
qed

lemma set_non_bolck_log: "\<exists>m. snd (set_non_bolck os fd l) = l @ m \<and> received m = [] \<and> delivered m = []"
  by (auto simp: set_non_bolck_def syscall_def Let_def)

lemma recv_n_eq:
  "SocketUtils_recv_n os fd len timeout l =
     (let l1 = snd (set_non_bolck os fd l)
      in recv_n_loop os fd timeout (clock_at os (length l1)) 0 len 0 []
           (l1 @ [(C_gettimeofday, os (length l1) C_gettimeofday)]))"
  by (simp add: SocketUtils_recv_n_def now_usec_eq Let_def split_beta)

lemma recv_n_result:
  assumes "recv_contract os" and "SocketUtils_recv_n os fd len timeout l = Some (ret, len', data, l')"
  shows "\<exists>m0 t m. l' = l @ m0 @ (C_gettimeofday, t) # m \<and> snd (set_non_bolck os fd l) = l @ m0
        \<and> received m0 = [] \<and> data = received m \<and> within_buffer (unat len) m
        \<and> unat len' = length data \<and> length data \<le> unat len
        \<and> recv_n_means fd (ToUSeconds (ts_of_reply t)) 0 timeout (unat len) m ret"
proof -
  obtain m0 where m0: "snd (set_non_bolck os fd l) = l @ m0" "received m0 = []"
    using set_non_bolck_log by blast
  define t where "t = os (length (l @ m0)) C_gettimeofday"
  have b: "clock_at os (length (l @ m0)) = ToUSeconds (ts_of_reply t)" by (simp add: clock_at_def t_def)
  have post: "recv_n_post fd (ToUSeconds (ts_of_reply t)) 0 timeout len 0 []
      ((l @ m0) @ [(C_gettimeofday, t)]) (ret, len', data, l')"
    using assms(2) unfolding recv_n_eq m0(1) Let_def b t_def [symmetric]
    by (rule recv_n_loop_post [OF assms(1)]) (use unsigned_less [of len] in simp)
  show ?thesis
    using post m0 unfolding recv_n_post_def prod.case
    by (elim exE) (rule exI [of _ m0], rule exI [of _ t], auto)
qed

text \<open>
  C9: \<open>recv_n\<close> never lets the system write past the buffer (every receive is given exactly the
  room left), and the buffer then holds, in order, the bytes received, as many as the length
  reported. Each result means what happened, and nothing else does: 1 exactly when the buffer,
  not empty, is full; 0 exactly when the last call was a receive that returned 0; 2 exactly when
  the last call was a clock reading past the deadline (measured from the reading before the
  loop); a negative result exactly when the last call was a receive that failed, the result is
  then what it returned, and its error is neither \<open>EAGAIN\<close> nor \<open>EINTR\<close>. There is no other
  result. It returns at the latest when the clock has passed the deadline for good.
\<close>

theorem recv_n_correct:
  assumes "recv_contract os"
  shows "(SocketUtils_recv_n os fd len timeout l = Some (ret, len', data, l') \<longrightarrow>
      (\<exists>m0 t m. l' = l @ m0 @ (C_gettimeofday, t) # m \<and> received m0 = [] \<and> data = received m
        \<and> within_buffer (unat len) m \<and> unat len' = length data \<and> length data \<le> unat len
        \<and> (ret = 1 \<longleftrightarrow> length data = unat len \<and> unat len \<noteq> 0)
        \<and> (ret = 0 \<longleftrightarrow> (\<exists>s r. m \<noteq> [] \<and> last m = (C_recv fd s, r) \<and> rv r = 0))
        \<and> (ret = 2 \<longleftrightarrow> (\<exists>u. m \<noteq> [] \<and> last m = (C_gettimeofday, u)
             \<and> timed_out (ToUSeconds (ts_of_reply t)) (ToUSeconds (ts_of_reply u)) timeout))
        \<and> (ret < 0 \<longleftrightarrow> (\<exists>s r. m \<noteq> [] \<and> last m = (C_recv fd s, r) \<and> rv r < 0))
        \<and> (ret < 0 \<longrightarrow> (\<exists>s r. last m = (C_recv fd s, r) \<and> rv r = ret \<and> err r \<noteq> EAGAIN \<and> err r \<noteq> EINTR))
        \<and> (ret < 0 \<or> ret = 0 \<or> ret = 1 \<or> ret = 2)))
    \<and> ((\<exists>N. \<forall>n \<ge> N. timed_out (clock_at os (length (snd (set_non_bolck os fd l)))) (clock_at os n) timeout)
        \<longrightarrow> (\<exists>res. SocketUtils_recv_n os fd len timeout l = Some res))"
proof (intro conjI impI)
  assume "SocketUtils_recv_n os fd len timeout l = Some (ret, len', data, l')"
  from recv_n_result [OF assms this]
  obtain m0 t m where m: "l' = l @ m0 @ (C_gettimeofday, t) # m" "received m0 = []" "data = received m"
      "within_buffer (unat len) m" "unat len' = length data" "length data \<le> unat len"
      "recv_n_means fd (ToUSeconds (ts_of_reply t)) 0 timeout (unat len) m ret" by blast
  have "\<not> timed_out b 0 timeout" for b by (simp add: timed_out_def)
  with m show "\<exists>m0 t m. l' = l @ m0 @ (C_gettimeofday, t) # m \<and> received m0 = [] \<and> data = received m
        \<and> within_buffer (unat len) m \<and> unat len' = length data \<and> length data \<le> unat len
        \<and> (ret = 1 \<longleftrightarrow> length data = unat len \<and> unat len \<noteq> 0)
        \<and> (ret = 0 \<longleftrightarrow> (\<exists>s r. m \<noteq> [] \<and> last m = (C_recv fd s, r) \<and> rv r = 0))
        \<and> (ret = 2 \<longleftrightarrow> (\<exists>u. m \<noteq> [] \<and> last m = (C_gettimeofday, u)
             \<and> timed_out (ToUSeconds (ts_of_reply t)) (ToUSeconds (ts_of_reply u)) timeout))
        \<and> (ret < 0 \<longleftrightarrow> (\<exists>s r. m \<noteq> [] \<and> last m = (C_recv fd s, r) \<and> rv r < 0))
        \<and> (ret < 0 \<longrightarrow> (\<exists>s r. last m = (C_recv fd s, r) \<and> rv r = ret \<and> err r \<noteq> EAGAIN \<and> err r \<noteq> EINTR))
        \<and> (ret < 0 \<or> ret = 0 \<or> ret = 1 \<or> ret = 2)"
    unfolding recv_n_means_def
    by (intro exI [of _ m0] exI [of _ t] exI [of _ m]) (simp; blast)
next
  assume "\<exists>N. \<forall>n \<ge> N. timed_out (clock_at os (length (snd (set_non_bolck os fd l)))) (clock_at os n) timeout"
  then show "\<exists>res. SocketUtils_recv_n os fd len timeout l = Some res"
    unfolding recv_n_eq Let_def using recv_n_loop_returns by (metis option.exhaust)
qed

text \<open>A system that always has one more byte, on a clock that moves on.\<close>

definition byte_os :: os where
  "byte_os n c = (case c of
      C_recv fd s \<Rightarrow> (if s = 0 then ok_reply 0 else (ok_reply 1)\<lparr>bytes := [of_nat n]\<rparr>)
    | C_gettimeofday \<Rightarrow> (ok_reply 0)\<lparr>nums := [100, int n]\<rparr>
    | _ \<Rightarrow> ok_reply 0)"

lemma byte_os_contract: "recv_contract byte_os"
  by (auto simp: recv_contract_def byte_os_def ok_reply_def)
     (metis One_nat_def linorder_not_less of_nat_0_less_iff uint_nonnegative int_one_le_iff_zero_less
       order_less_le uint_0_iff)

lemma recv_n_correct_witness:
  "\<exists>len' data l'. SocketUtils_recv_n byte_os 5 2 1000 [] = Some (1, len', data, l')
    \<and> unat len' = length data \<and> length data = 2"
proof -
  have "SocketUtils_recv_n byte_os 5 2 1000 [] = Some (1, 2, [3, 5],
      [(C_getfl 5, ok_reply 0), (C_setfl 5 O_NONBLOCK, ok_reply 0),
       (C_gettimeofday, (ok_reply 0)\<lparr>nums := [100, 2]\<rparr>),
       (C_recv 5 2, (ok_reply 1)\<lparr>bytes := [3]\<rparr>), (C_gettimeofday, (ok_reply 0)\<lparr>nums := [100, 4]\<rparr>),
       (C_recv 5 1, (ok_reply 1)\<lparr>bytes := [5]\<rparr>)])"
    by (simp add: SocketUtils_recv_n_def set_non_bolck_def syscall_def now_usec_eq Let_def byte_os_def
        recv_n_loop.simps timed_out_def clock_at_def ts_of_reply_def ToUSeconds_def ok_reply_def)
  with recv_n_correct [OF byte_os_contract, of 5 2 1000 "[]"] show ?thesis by fastforce
qed

text \<open>
  \<open>SocketUtils::shutdown\<close> never returns, for any descriptor: the call inside it is a call
  of itself, where the system's \<open>shutdown\<close> was meant.
\<close>

lemma shutdown_never_returns: "SocketUtils_shutdown fd flag = None"
proof (cases "SocketUtils_shutdown fd flag")
  case (Some y)
  have False
    by (rule SocketUtils_shutdown.raw_induct [of "\<lambda>fd flag y. False", OF _ Some])
       (auto simp: bind_eq_Some_conv)
  then show ?thesis ..
qed simp


definition send_n_post :: "uchar list \<Rightarrow> uint \<Rightarrow> uint \<Rightarrow> log \<Rightarrow> int \<times> uint \<times> log \<Rightarrow> bool" where
  "send_n_post buf buf_size len l res \<longleftrightarrow>
     (case res of (ret, len', l') \<Rightarrow>
        \<exists>m. l' = l @ m \<and> delivered m = take (length (delivered m)) (drop (unat len) buf)
          \<and> unat len' = unat len + length (delivered m) \<and> length (delivered m) \<le> unat buf_size
          \<and> (ret = 0 \<longrightarrow> length (delivered m) = unat buf_size)
          \<and> (ret < 0 \<or> ret = 0 \<or> ret = 2))"

lemma chunk_take: "k \<le> unat bs \<Longrightarrow> take k (chunk buf len bs) = take k (drop (unat len) buf)"
  by (simp add: chunk_def min_def)

lemma send_n_post_more:
  assumes "send_n_post buf (bs - word_of_int k) (len + word_of_int k)
      (l @ [(C_send fd (chunk buf len bs) fl, r), (C_gettimeofday, t)]) res"
    and "k = (if 0 \<le> rv r then rv r else 0)" and "k \<le> uint bs"
    and "unat len + unat bs \<le> length buf" and "unat len + unat bs < 2 ^ 32"
  shows "send_n_post buf bs len l res"
proof -
  obtain ret len' l' where res: "res = (ret, len', l')" by (metis prod_cases3)
  have "0 \<le> k" using assms(2) by simp
  note bs = unat_count(3) [OF this assms(3)] and le = unat_count(2) [OF this assms(3)]
    and len = unat_count_add [OF this assms(3,5)]
  define e where "e = (C_send fd (chunk buf len bs) fl, r)"
  have e: "delivered [e] = take (nat k) (drop (unat len) buf)"
    using assms(2) le by (simp add: e_def chunk_take [symmetric])
  then have le2: "length (delivered [e]) = nat k" using le assms(4) by simp
  from assms(1) obtain m where m: "l' = l @ [e, (C_gettimeofday, t)] @ m"
      "delivered m = take (length (delivered m)) (drop (nat k) (drop (unat len) buf))"
      "unat len' = unat len + nat k + length (delivered m)" "length (delivered m) \<le> unat bs - nat k"
      "ret = 0 \<longrightarrow> length (delivered m) = unat bs - nat k" "ret < 0 \<or> ret = 0 \<or> ret = 2"
    unfolding send_n_post_def res prod.case bs len e_def by (auto simp: add.commute)
  have d: "delivered ([e, (C_gettimeofday, t)] @ m) = delivered [e] @ delivered m"
    by (simp only: delivered_simps) simp
  have "delivered [e] @ delivered m
      = take (nat k + length (delivered m)) (drop (unat len) buf)"
    using m(2) e by (simp only: take_add) 
  moreover have "nat k + length (delivered m) \<le> length buf - unat len"
    using m(4) le assms(4) by linarith
  ultimately show ?thesis
    unfolding send_n_post_def res prod.case
    using m(1,3-6) le le2 d
    by (intro exI [of _ "[e, (C_gettimeofday, t)] @ m"] conjI impI;
        (simp add: min_absorb2 del: delivered_simps; fail | simp add: min_absorb2 del: delivered_simps, linarith))
qed

lemma send_n_loop_post:
  assumes "send_contract os" and "send_n_loop os fd buf flags timeout b e bs len l = Some res"
    and "unat len + unat bs \<le> length buf" and "unat len + unat bs < 2 ^ 32"
  shows "send_n_post buf bs len l res"
proof -
  have "o' = os \<longrightarrow> unat len + unat bs \<le> length buf \<longrightarrow> unat len + unat bs < 2 ^ 32
      \<longrightarrow> send_n_post buf bs len l res"
    if "send_n_loop o' fd buf flags timeout b e bs len l = Some res"
    for o' fd buf flags timeout b e bs len l res
  proof (rule send_n_loop.raw_induct [of "\<lambda>o' fd buf flags timeout b e bs len l res.
        o' = os \<longrightarrow> unat len + unat bs \<le> length buf \<longrightarrow> unat len + unat bs < 2 ^ 32
        \<longrightarrow> send_n_post buf bs len l res", OF _ that])
    fix loop o' fd buf flags timeout b e bs len l res
    assume ih: "\<And>o' fd buf flags timeout b e bs len l res.
        loop o' fd buf flags timeout b e bs len l = Some res \<Longrightarrow>
        o' = os \<longrightarrow> unat len + unat bs \<le> length buf \<longrightarrow> unat len + unat bs < 2 ^ 32
        \<longrightarrow> send_n_post buf bs len l res"
      and body: "(if timed_out b e timeout then Some (2, len, l)
      else
        (let (r, l) = syscall o' (C_send fd (chunk buf len bs) flags) l in
         if rv r \<ge> 0 then
           (let len = len + word_of_int (rv r); buf_size = bs - word_of_int (rv r) in
            if buf_size = 0 then Some (0, len, l)
            else (let (end_usec, l) = now_usec o' l
                  in loop o' fd buf flags timeout b end_usec buf_size len l))
         else if err r = EAGAIN \<or> err r = EINTR then
           (let (end_usec, l) = now_usec o' l
            in loop o' fd buf flags timeout b end_usec bs len l)
         else Some (rv r, len, l))) = Some res"
    show "o' = os \<longrightarrow> unat len + unat bs \<le> length buf \<longrightarrow> unat len + unat bs < 2 ^ 32
        \<longrightarrow> send_n_post buf bs len l res"
    proof (intro impI)
      assume o: "o' = os" and fits: "unat len + unat bs \<le> length buf" and room: "unat len + unat bs < 2 ^ 32"
      let ?c = "C_send fd (chunk buf len bs) flags"
      define r where "r = os (length l) ?c"
      define k where "k = (word_of_int (rv r) :: uint)"
      define t where "t = os (Suc (length l)) C_gettimeofday"
      let ?l1 = "l @ [(?c, r)]"
      let ?l2 = "l @ [(?c, r), (C_gettimeofday, t)]"
      let ?e = "clock_at os (Suc (length l))"
      have len_c: "length (chunk buf len bs) = unat bs" using fits by (simp add: chunk_def)
      have c: "rv r \<le> uint bs"
        using assms(1) len_c by (metis send_contract_def r_def uint_nat)
      have body': "(if timed_out b e timeout then Some (2, len, l)
        else if 0 \<le> rv r then
          (if bs - k = 0 then Some (0, len + k, ?l1)
           else loop os fd buf flags timeout b ?e (bs - k) (len + k) ?l2)
        else if False then Some (0, len, l)
        else if err r = EAGAIN \<or> err r = EINTR then loop os fd buf flags timeout b ?e bs len ?l2
        else Some (rv r, len, ?l1)) = Some res"
        using body unfolding o r_def k_def t_def
        by (simp add: syscall_def now_usec_eq Let_def cong: if_cong)
      from round_cases [OF body'] show "send_n_post buf bs len l res"
      proof (elim disjE conjE)
        assume "res = (2, len, l)"
        then show ?thesis unfolding send_n_post_def by (auto intro!: exI [of _ "[]"])
      next
        assume full: "0 \<le> rv r" "bs - k = 0" "res = (0, len + k, ?l1)"
        note n = unat_count [OF full(1) c, folded k_def] unat_count_add [OF full(1) c room, folded k_def]
        have bs: "unat bs = nat (rv r)" using n(1) full(2) by (metis right_minus_eq)
        then have "delivered [(?c, r)] = take (unat bs) (drop (unat len) buf)"
          using full(1) by (simp add: chunk_def)
        moreover have "length \<dots> = unat bs" using fits by simp
        ultimately show ?thesis
          using full n bs unfolding send_n_post_def by (auto intro!: exI [of _ "[(?c, r)]"])
      next
        assume part: "0 \<le> rv r"
          "loop os fd buf flags timeout b ?e (bs - k) (len + k) ?l2 = Some res"
        note n = unat_count [OF part(1) c, folded k_def] unat_count_add [OF part(1) c room, folded k_def]
        have "unat (len + k) + unat (bs - k) = unat len + unat bs" using n by linarith
        with ih [OF part(2)] fits room have "send_n_post buf (bs - k) (len + k) ?l2 res" by simp
        then show ?thesis
          using part(1) c room fits
          by (intro send_n_post_more [of buf bs "rv r" len l fd flags r t res]) (auto simp: k_def)
      next
        assume again: "\<not> 0 \<le> rv r" "loop os fd buf flags timeout b ?e bs len ?l2 = Some res"
        from ih [OF again(2)] fits room have "send_n_post buf bs len ?l2 res" by blast
        then show ?thesis
          using again(1) room fits
          by (intro send_n_post_more [of buf bs 0 len l fd flags r t res]) auto
      next
        assume "\<not> 0 \<le> rv r" and "res = (rv r, len, ?l1)"
        then show ?thesis unfolding send_n_post_def by (auto intro!: exI [of _ "[(?c, r)]"])
      qed simp
    qed
  qed
  with assms(2-4) show ?thesis by blast
qed

lemma send_n_loop_returns:
  assumes "\<forall>n \<ge> N. timed_out b (clock_at os n) timeout"
  shows "send_n_loop os fd buf flags timeout b e bs len l \<noteq> None"
proof (induction "N - length l" arbitrary: e bs len l rule: less_induct)
  case less
  have next_round: "send_n_loop os fd buf flags timeout b (clock_at os (Suc (length l))) bs' len'
      (l @ [x, y]) \<noteq> None" for bs' len' x y
  proof (cases "N \<le> Suc (length l)")
    case True
    then show ?thesis using assms by (subst send_n_loop.simps) simp
  next
    case False
    then show ?thesis by (intro less) simp
  qed
  show ?case
    by (subst send_n_loop.simps)
       (simp add: syscall_def now_usec_eq Let_def next_round del: not_None_eq)
qed

lemma send_n_eq:
  "SocketUtils_send_n os fd buf len flags timeout l =
     (let l1 = snd (set_non_bolck os fd l)
      in send_n_loop os fd buf flags timeout (clock_at os (length l1)) 0 len 0
           (l1 @ [(C_gettimeofday, os (length l1) C_gettimeofday)]))"
  by (simp add: SocketUtils_send_n_def now_usec_eq Let_def split_beta)

lemma send_n_result:
  assumes "send_contract os" and "unat len \<le> length buf"
    and "SocketUtils_send_n os fd buf len flags timeout l = Some (ret, len', l')"
  shows "\<exists>m. l' = l @ m \<and> delivered m = take (unat len') buf \<and> unat len' \<le> unat len
        \<and> (ret = 0 \<longrightarrow> len' = len) \<and> (ret < 0 \<or> ret = 0 \<or> ret = 2)"
proof -
  obtain m1 where m1: "snd (set_non_bolck os fd l) = l @ m1" "delivered m1 = []"
    using set_non_bolck_log by blast
  let ?t = "(C_gettimeofday, os (length (l @ m1)) C_gettimeofday)"
  have "send_n_post buf len 0 ((l @ m1) @ [?t]) (ret, len', l')"
    using assms(3) unfolding send_n_eq m1(1) Let_def
    by (rule send_n_loop_post [OF assms(1)]) (use assms(2) unsigned_less [of len] in simp_all)
  then obtain m where m: "l' = l @ m1 @ [?t] @ m" "delivered m = take (length (delivered m)) buf"
      "unat len' = length (delivered m)" "length (delivered m) \<le> unat len"
      "ret = 0 \<longrightarrow> length (delivered m) = unat len" "ret < 0 \<or> ret = 0 \<or> ret = 2"
    by (auto simp: send_n_post_def)
  then show ?thesis
    using m1(2) by (intro exI [of _ "m1 @ [?t] @ m"]) (auto simp: word_unat_eq_iff)
qed

text \<open>
  C10: \<open>send_n\<close> hands the system the bytes of the buffer in order, none twice and none skipped,
  however the system splits them up, and reports how many it took. It returns 0 (the header
  says 1) only when all of them were taken, else 2 or a negative result, and returns at the
  latest when the clock has passed the deadline.
\<close>

theorem send_n_correct:
  assumes "send_contract os" and "unat len \<le> length buf"
  shows "(SocketUtils_send_n os fd buf len flags timeout l = Some (ret, len', l') \<longrightarrow>
      (\<exists>m. l' = l @ m \<and> delivered m = take (unat len') buf \<and> unat len' \<le> unat len
        \<and> (ret = 0 \<longrightarrow> len' = len) \<and> (ret < 0 \<or> ret = 0 \<or> ret = 2)))
    \<and> ((\<exists>N. \<forall>n \<ge> N. timed_out (clock_at os (length (snd (set_non_bolck os fd l)))) (clock_at os n) timeout)
        \<longrightarrow> (\<exists>res. SocketUtils_send_n os fd buf len flags timeout l = Some res))"
proof (intro conjI impI)
  assume "SocketUtils_send_n os fd buf len flags timeout l = Some (ret, len', l')"
  from send_n_result [OF assms this]
  show "\<exists>m. l' = l @ m \<and> delivered m = take (unat len') buf \<and> unat len' \<le> unat len
        \<and> (ret = 0 \<longrightarrow> len' = len) \<and> (ret < 0 \<or> ret = 0 \<or> ret = 2)" .
next
  assume "\<exists>N. \<forall>n \<ge> N. timed_out (clock_at os (length (snd (set_non_bolck os fd l)))) (clock_at os n) timeout"
  then show "\<exists>res. SocketUtils_send_n os fd buf len flags timeout l = Some res"
    unfolding send_n_eq Let_def using send_n_loop_returns by (metis option.exhaust)
qed

text \<open>A system that takes at most two bytes at a time.\<close>

definition two_os :: os where
  "two_os n c = (case c of
      C_send fd d fl \<Rightarrow> ok_reply (min 2 (int (length d)))
    | C_gettimeofday \<Rightarrow> (ok_reply 0)\<lparr>nums := [100, int n]\<rparr>
    | _ \<Rightarrow> ok_reply 0)"

lemma send_n_correct_witness:
  "\<exists>l'. SocketUtils_send_n two_os 5 [7, 8, 9] 3 0 1000 [] = Some (0, 3, l') \<and> delivered l' = [7, 8, 9]"
proof -
  have c: "send_contract two_os" by (simp add: send_contract_def two_os_def ok_reply_def)
  have "SocketUtils_send_n two_os 5 [7, 8, 9] 3 0 1000 [] = Some (0, 3,
      [(C_getfl 5, ok_reply 0), (C_setfl 5 O_NONBLOCK, ok_reply 0),
       (C_gettimeofday, (ok_reply 0)\<lparr>nums := [100, 2]\<rparr>),
       (C_send 5 [7, 8, 9] 0, ok_reply 2), (C_gettimeofday, (ok_reply 0)\<lparr>nums := [100, 4]\<rparr>),
       (C_send 5 [9] 0, ok_reply 1)])"
    by (simp add: SocketUtils_send_n_def set_non_bolck_def syscall_def now_usec_eq Let_def two_os_def
        send_n_loop.simps timed_out_def clock_at_def ts_of_reply_def ToUSeconds_def ok_reply_def chunk_def)
  with send_n_correct [OF c, of 3 "[7, 8, 9]" 5 0 1000 "[]"] show ?thesis by fastforce
qed

section \<open>Waiting for a connection\<close>

lemma connect_wait_interrupted:
  "\<forall>i < k. rv (os (length l + i) (C_select (fd + 1) sec usec)) < 0
      \<and> err (os (length l + i) (C_select (fd + 1) sec usec)) = EINTR \<Longrightarrow>
   connect_wait os fd sec usec l = connect_wait os fd sec usec
     (l @ map (\<lambda>i. (C_select (fd + 1) sec usec, os (length l + i) (C_select (fd + 1) sec usec))) [0..<k])"
proof (induction k)
  case (Suc k)
  let ?l = "l @ map (\<lambda>i. (C_select (fd + 1) sec usec, os (length l + i) (C_select (fd + 1) sec usec))) [0..<k]"
  have "connect_wait os fd sec usec ?l =
      connect_wait os fd sec usec (?l @ [(C_select (fd + 1) sec usec, os (length l + k) (C_select (fd + 1) sec usec))])"
    using Suc.prems [THEN spec, of k] by (subst connect_wait.simps) (simp add: syscall_def Let_def)
  moreover have "connect_wait os fd sec usec l = connect_wait os fd sec usec ?l"
    using Suc by simp
  ultimately show ?case by simp
qed simp

text \<open>
  A connection in progress, interrupted \<open>k\<close> times while waiting: each interruption starts
  the wait again with the full timeout, so the limit holds for each wait and not for all of
  them. The first answer decides: 2 if it is a timeout, 0 if the socket has no pending error, -1
  if it has one, else the system's negative result.
\<close>

lemma connect_in_progress:
  assumes sec: "sec = (if timeout > 0 then ucast (timeout div 1000000) else 0)"
    and usec: "usec = (if timeout > 0 then ucast (timeout mod 1000000) else 0)"
    and l1: "l1 = (if timeout > 0 then snd (set_non_bolck os fd l) else l)"
    and l2: "l2 = l1 @ [(C_connect fd (c_str ip) port, os (length l1) (C_connect fd (c_str ip) port))]"
    and sel: "\<forall>i. sel i = os (length l2 + i) (C_select (fd + 1) sec usec)"
    and "rv (os (length l1) (C_connect fd (c_str ip) port)) < 0"
    and "err (os (length l1) (C_connect fd (c_str ip) port)) = EINPROGRESS"
    and "0 \<le> fd" and "fd < 1024"
    and "\<forall>i < k. rv (sel i) < 0 \<and> err (sel i) = EINTR"
    and "\<not> (rv (sel k) < 0 \<and> err (sel k) = EINTR)"
  shows "\<exists>ret l'. SocketUtils_connect os fd ip port timeout l = Some (ret, l2 @
      map (\<lambda>i. (C_select (fd + 1) sec usec, sel i)) [0..<Suc k] @ l')
    \<and> (rv (sel k) = 0 \<longrightarrow> ret = 2) \<and> (rv (sel k) < 0 \<longrightarrow> ret = rv (sel k))
    \<and> (rv (sel k) > 0 \<longrightarrow> (let g = os (length l2 + k + 1) (C_getsockopt_error fd) in
          ret = (if rv g \<noteq> 0 then rv g else if nums g ! 0 \<noteq> 0 then - 1 else 0)))"
proof -
  let ?lk = "l2 @ map (\<lambda>i. (C_select (fd + 1) sec usec, sel i)) [0..<k]"
  have "SocketUtils_connect os fd ip port timeout l = connect_wait os fd sec usec l2"
    using assms(6-9) unfolding SocketUtils_connect_def sec [symmetric] usec [symmetric]
      l1 [symmetric] Let_def
    by (simp add: syscall_def l2 Let_def)
  also have "\<dots> = connect_wait os fd sec usec ?lk"
    using connect_wait_interrupted [of k os l2 fd sec usec] assms(10) by (simp add: sel)
  also have "\<dots> = (let l = ?lk @ [(C_select (fd + 1) sec usec, sel k)] in
      if rv (sel k) > 0 then
        (let (r, l) = syscall os (C_getsockopt_error fd) l in
         if rv r \<noteq> 0 then Some (rv r, l)
         else if nums r ! 0 \<noteq> 0 then Some (- 1, l) else Some (0, l))
      else if rv (sel k) = 0 then Some (2, l) else Some (rv (sel k), l))"
    using assms(11) by (subst connect_wait.simps) (auto simp: syscall_def Let_def sel)
  finally show ?thesis by (auto simp: syscall_def Let_def)
qed


text \<open>A system on which a connection is in progress, and the wait interrupted once.\<close>

definition slow_os :: os where
  "slow_os n c = (case c of
      C_connect fd a p \<Rightarrow> (ok_reply (- 1))\<lparr>err := EINPROGRESS\<rparr>
    | C_select n' s u \<Rightarrow> (if n = 1 then (ok_reply (- 1))\<lparr>err := EINTR\<rparr> else ok_reply 1)
    | C_getsockopt_error fd \<Rightarrow> (ok_reply 0)\<lparr>nums := [0]\<rparr>
    | _ \<Rightarrow> ok_reply 0)"

lemma connect_in_progress_witness:
  "\<exists>l'. SocketUtils_connect slow_os 5 ''1.2.3.4'' 80 0 [] = Some (0, l')"
proof -
  let ?l2 = "[(C_connect 5 (c_str ''1.2.3.4'') 80, slow_os 0 (C_connect 5 (c_str ''1.2.3.4'') 80))]"
  let ?sel = "\<lambda>i. slow_os (1 + i) (C_select 6 0 0)"
  have s: "?sel 0 = (ok_reply (- 1))\<lparr>err := EINTR\<rparr>" "?sel 1 = ok_reply 1"
    by (simp_all add: slow_os_def)
  let ?c = "C_connect 5 (c_str ''1.2.3.4'') 80"
  have "\<exists>ret l'. SocketUtils_connect slow_os 5 ''1.2.3.4'' 80 0 [] = Some (ret, ?l2 @
      map (\<lambda>i. (C_select (5 + 1) 0 0, ?sel i)) [0..<Suc 1] @ l')
    \<and> (rv (?sel 1) = 0 \<longrightarrow> ret = 2) \<and> (rv (?sel 1) < 0 \<longrightarrow> ret = rv (?sel 1))
    \<and> (rv (?sel 1) > 0 \<longrightarrow> (let g = slow_os (length ?l2 + 1 + 1) (C_getsockopt_error 5) in
          ret = (if rv g \<noteq> 0 then rv g else if nums g ! 0 \<noteq> 0 then - 1 else 0)))"
    using connect_in_progress [where timeout = 0 and l = "[]" and ?l1.0 = "[]" and ?l2.0 = ?l2
        and sel = ?sel and sec = 0 and usec = 0 and k = 1 and fd = 5 and os = slow_os
        and ip = "''1.2.3.4''" and port = 80] s
    by (simp add: slow_os_def ok_reply_def EINTR_def EINPROGRESS_def)
  then show ?thesis unfolding s by (simp add: ok_reply_def slow_os_def) blast
qed
end
