(* ===== verification/SimpleTcpBase.thy ===== *)
theory SimpleTcpBase
  imports SocketUtils
begin

text \<open>
  src/SimpleTcpBase.cpp: a blocking TCP socket, as a client or as a server. The only member is
  the descriptor.
\<close>

section \<open>State and operations\<close>

record simple_tcp =
  sockfd :: int

definition SimpleTcpBase_new :: simple_tcp where
  "SimpleTcpBase_new = \<lparr>sockfd = - 1\<rparr>"

definition InitTcpClient :: "os \<Rightarrow> simple_tcp \<Rightarrow> log \<Rightarrow> int \<times> simple_tcp \<times> log" where
  "InitTcpClient os t l =
     (let (r, l) = syscall os (C_socket SOCK_STREAM) l;
          t = t\<lparr>sockfd := rv r\<rparr> in
      if sockfd t = - 1 then (- 1, t, l)
      else
        (let (r, l) = syscall os (C_setsockopt (sockfd t) SO_REUSEADDR 1) l in
         if rv r = - 1 then
           (let l = do_call os (C_close (sockfd t)) l in (- 1, t\<lparr>sockfd := - 1\<rparr>, l))
         else (0, t, l)))"

definition InitTcpServer :: "os \<Rightarrow> ushort \<Rightarrow> simple_tcp \<Rightarrow> log \<Rightarrow> int \<times> simple_tcp \<times> log" where
  "InitTcpServer os localPort t l =
     (let (r, l) = syscall os (C_socket SOCK_STREAM) l; fd = rv r in
      if fd = - 1 then (- 1, t, l)
      else
        (let (r, l) = syscall os (C_setsockopt fd SO_REUSEADDR 1) l in
         if rv r = - 1 then (- 1, t, do_call os (C_close fd) l)
         else
           (let (r, l) = syscall os (C_bind fd '''' localPort) l in
            if rv r = - 1 then (- 1, t, do_call os (C_close fd) l)
            else (let l = do_call os (C_listen fd 10) l in (0, t\<lparr>sockfd := fd\<rparr>, l)))))"

definition SimpleTcp_Accept :: "os \<Rightarrow> simple_tcp \<Rightarrow> log \<Rightarrow> int \<times> log" where
  "SimpleTcp_Accept os t l =
     (if sockfd t < 0 then (- 1, l)
      else (let (r, l) = syscall os (C_accept (sockfd t)) l in
            if rv r = - 1 then (- 1, l) else (rv r, l)))"

definition SimpleTcp_Connect :: "os \<Rightarrow> string \<Rightarrow> ushort \<Rightarrow> simple_tcp \<Rightarrow> log \<Rightarrow> int \<times> log" where
  "SimpleTcp_Connect os servIp servPort t l =
     (if sockfd t < 0 then (- 1, l)
      else (let (r, l) = syscall os (C_connect (sockfd t) servIp servPort) l in
            if rv r = - 1 then (- 1, l) else (0, l)))"

definition ReadData_fd :: "os \<Rightarrow> int \<Rightarrow> uint \<Rightarrow> log \<Rightarrow> int \<times> uchar list \<times> log" where
  "ReadData_fd os fd recvlen l =
     (if fd < 0 then (- 1, [], l)
      else (let (r, l) = syscall os (C_recv fd recvlen) l in (rv r, bytes r, l)))"

definition ReadData :: "os \<Rightarrow> uint \<Rightarrow> simple_tcp \<Rightarrow> log \<Rightarrow> int \<times> uchar list \<times> log" where
  "ReadData os recvlen t l =
     (if sockfd t < 0 then (- 1, [], l)
      else (let (r, l) = syscall os (C_recv (sockfd t) recvlen) l in (rv r, bytes r, l)))"

text \<open>
  The loop of \<open>WriteData\<close>: \<open>sendLen\<close> counts all bytes sent, \<open>leastLen\<close> is meant to be what is
  left, and the loop subtracts the whole count from it each time. A \<open>send\<close> that would read
  outside the buffer (a negative or too large \<open>leastLen\<close>) is undefined.
\<close>

partial_function (option) write_loop ::
  "os \<Rightarrow> int \<Rightarrow> uchar list \<Rightarrow> int \<Rightarrow> int \<Rightarrow> log \<Rightarrow> (int \<times> log) option" where
  "write_loop os fd buf leastLen sendLen l =
     (if leastLen = 0 then Some (sendLen, l)
      else if leastLen < 0 \<or> int (length buf) < sendLen + leastLen then None
      else
        (let (r, l) = syscall os (C_send fd (take (nat leastLen) (drop (nat sendLen) buf)) 0) l;
             rs = rv r in
         if rs \<le> 0 then Some (- 2, l)
         else
           (let sendLen = sendLen + rs; leastLen = leastLen - sendLen
            in write_loop os fd buf leastLen sendLen l)))"

definition WriteData :: "os \<Rightarrow> uchar list option \<Rightarrow> uint \<Rightarrow> simple_tcp \<Rightarrow> log \<Rightarrow> (int \<times> log) option" where
  "WriteData os buf dataLen t l =
     (if sockfd t < 0 then Some (- 1, l)
      else case buf of
        None \<Rightarrow> Some (- 2, l)
      | Some b \<Rightarrow> write_loop os (sockfd t) b (sint dataLen) 0 l)"

definition WriteData_fd :: "os \<Rightarrow> int \<Rightarrow> uchar list option \<Rightarrow> uint \<Rightarrow> log \<Rightarrow> (int \<times> log) option" where
  "WriteData_fd os fd buf dataLen l =
     (if fd < 0 then Some (- 1, l)
      else case buf of
        None \<Rightarrow> Some (- 2, l)
      | Some b \<Rightarrow> write_loop os fd b (sint dataLen) 0 l)"

definition Disconnect :: "os \<Rightarrow> simple_tcp \<Rightarrow> log \<Rightarrow> log" where
  "Disconnect os t l = (if sockfd t > 0 then do_call os (C_close (sockfd t)) l else l)"

definition GetSockFd :: "simple_tcp \<Rightarrow> int" where
  "GetSockFd t = sockfd t"

section \<open>Writing\<close>

text \<open>
  From the second round on, the count returned is bounded by what was left after the first
  one: the loop stops early, if it stops with a count at all.
\<close>

lemma write_loop_bound:
  assumes "write_loop os fd buf leastLen sendLen l = Some (n, l')" and "0 \<le> sendLen"
  shows "n < 0 \<or> leastLen = 0 \<and> n = sendLen \<or> n \<le> leastLen"
proof -
  have "0 \<le> sendLen \<longrightarrow> fst y < 0 \<or> leastLen = 0 \<and> fst y = sendLen \<or> fst y \<le> leastLen"
    if "write_loop os fd buf leastLen sendLen l = Some y" for os fd buf leastLen sendLen l y
  proof (rule write_loop.raw_induct [of "\<lambda>os fd buf leastLen sendLen l y.
        0 \<le> sendLen \<longrightarrow> fst y < 0 \<or> leastLen = 0 \<and> fst y = sendLen \<or> fst y \<le> leastLen", OF _ that])
    fix loop os fd buf leastLen sendLen l y
    assume ih: "\<And>os fd buf leastLen sendLen l y. loop os fd buf leastLen sendLen l = Some y \<Longrightarrow>
        0 \<le> sendLen \<longrightarrow> fst y < 0 \<or> leastLen = 0 \<and> fst y = sendLen \<or> fst y \<le> leastLen"
      and body: "(if leastLen = 0 then Some (sendLen, l)
      else if leastLen < 0 \<or> int (length buf) < sendLen + leastLen then None
      else
        (let (r, l) = syscall os (C_send fd (take (nat leastLen) (drop (nat sendLen) buf)) 0) l;
             rs = rv r in
         if rs \<le> 0 then Some (- 2, l)
         else
           (let sendLen = sendLen + rs; leastLen = leastLen - sendLen
            in loop os fd buf leastLen sendLen l))) = Some y"
    define r where "r = os (length l) (C_send fd (take (nat leastLen) (drop (nat sendLen) buf)) 0)"
    define l1 where "l1 = l @ [(C_send fd (take (nat leastLen) (drop (nat sendLen) buf)) 0, r)]"
    show "0 \<le> sendLen \<longrightarrow> fst y < 0 \<or> leastLen = 0 \<and> fst y = sendLen \<or> fst y \<le> leastLen"
    proof (cases "leastLen = 0 \<or> rv r \<le> 0")
      case True
      then show ?thesis using body by (auto simp: syscall_def Let_def r_def split: if_splits)
    next
      case False
      then have "loop os fd buf (leastLen - (sendLen + rv r)) (sendLen + rv r) l1 = Some y"
        using body by (simp add: syscall_def Let_def r_def l1_def split: if_splits)
      from ih [OF this] False show ?thesis by auto
    qed
  qed
  from this [OF assms(1)] assms(2) show ?thesis by simp
qed

text \<open>
  C32: \<open>WriteData\<close> sends the data and returns its length if the first \<open>send\<close> takes all of it.
  If the first \<open>send\<close> takes a part only, it never returns the length: it returns an error or
  a smaller count, although the rest may have been sent, or sends from outside the buffer.
\<close>

theorem WriteData_partial_send:
  assumes "0 < sint dataLen" and "length b = nat (sint dataLen)" and "0 \<le> sockfd t"
  shows "(rv (os (length l) (C_send (sockfd t) b 0)) = sint dataLen
        \<longrightarrow> WriteData os (Some b) dataLen t l =
            Some (sint dataLen, l @ [(C_send (sockfd t) b 0, os (length l) (C_send (sockfd t) b 0))]))
    \<and> (0 < rv (os (length l) (C_send (sockfd t) b 0)) \<and> rv (os (length l) (C_send (sockfd t) b 0)) < sint dataLen
        \<longrightarrow> (\<forall>n l'. WriteData os (Some b) dataLen t l = Some (n, l') \<longrightarrow> n < sint dataLen))
    \<and> WriteData_fd os (sockfd t) (Some b) dataLen l = WriteData os (Some b) dataLen t l"
proof (intro conjI impI allI)
  let ?d = "sint dataLen" and ?r = "os (length l) (C_send (sockfd t) b 0)"
  have W: "WriteData os (Some b) dataLen t l =
      (if rv ?r \<le> 0 then Some (- 2, l @ [(C_send (sockfd t) b 0, ?r)])
       else write_loop os (sockfd t) b (?d - rv ?r) (rv ?r) (l @ [(C_send (sockfd t) b 0, ?r)]))"
    using assms by (simp add: WriteData_def write_loop.simps [of os _ b ?d] syscall_def Let_def)
  show "WriteData os (Some b) dataLen t l = Some (?d, l @ [(C_send (sockfd t) b 0, ?r)])"
    if "rv ?r = ?d"
    unfolding W using that assms(1) by (simp add: write_loop.simps)
  show "n < ?d" if p: "0 < rv ?r \<and> rv ?r < ?d" and "WriteData os (Some b) dataLen t l = Some (n, l')" for n l'
  proof -
    have "write_loop os (sockfd t) b (?d - rv ?r) (rv ?r) (l @ [(C_send (sockfd t) b 0, ?r)]) = Some (n, l')"
      using that W by simp
    from write_loop_bound [OF this] p show ?thesis by auto
  qed
qed (use assms in \<open>simp add: WriteData_def WriteData_fd_def\<close>)

lemma WriteData_partial_send_witness:
  "WriteData (\<lambda>n c. ok_reply 3) (Some [1, 2, 3]) 3 \<lparr>sockfd = 4\<rparr> [] =
     Some (3, [(C_send 4 [1, 2, 3] 0, ok_reply 3)])"
  using WriteData_partial_send [of 3 "[1, 2, 3]" "\<lparr>sockfd = 4\<rparr>" "\<lambda>n c. ok_reply 3" "[]"]
  by (simp add: ok_reply_def)

section \<open>Descriptors\<close>

lemma InitTcpServer_fds:
  assumes "InitTcpServer os port t l = (r, t', l')"
  shows "\<exists>m. l' = l @ m \<and> (fresh_fds S m \<and> (\<forall>f \<in> S. 0 \<le> f) \<longrightarrow>
    open_fds m S = (if r = 0 \<and> 0 \<le> sockfd t' then insert (sockfd t') S else S))"
  using assms
  by (auto simp: InitTcpServer_def syscall_def do_call_eq Let_def fd_effect_def new_fd_def
      split: if_splits) force+

end
