(* ===== verification/UdpClient.thy ===== *)
theory UdpClient
  imports SocketUtils
begin

text \<open>
  src/UdpClient.cpp: a non-blocking UDP socket. \<open>_close\<close> says that there is no socket to close;
  it is cleared only when \<open>connect\<close> succeeds.
\<close>

section \<open>State and operations\<close>

record udp_client =
  u_fd :: int
  u_connect :: bool
  u_close :: bool
  u_ip :: string
  u_port :: ushort

definition UdpClient_new :: udp_client where
  "UdpClient_new = \<lparr>u_fd = - 1, u_connect = False, u_close = True, u_ip = '''', u_port = 0\<rparr>"

definition UdpClient_connect ::
  "os \<Rightarrow> string \<Rightarrow> ushort \<Rightarrow> bool \<Rightarrow> udp_client \<Rightarrow> log \<Rightarrow> int \<times> udp_client \<times> log" where
  "UdpClient_connect os ip port doconnect u l =
     (let (r, l) = syscall os (C_socket SOCK_DGRAM) l; u = u\<lparr>u_fd := rv r\<rparr> in
      if u_fd u < 0 then (u_fd u, u, l)
      else
        (let (_, l) = set_non_bolck os (u_fd u) l;
             (nRet, l) =
               (if doconnect then (let (r, l) = syscall os (C_connect (u_fd u) (c_str ip) port) l in (rv r, l))
                else (0, l)) in
         if doconnect \<and> nRet \<noteq> 0 then (nRet, u, l)
         else
           (let u = (if doconnect then u\<lparr>u_connect := True\<rparr> else u)
            in (nRet, u\<lparr>u_ip := ip, u_port := port, u_close := False\<rparr>, l))))"

definition UdpClient_sendto :: "os \<Rightarrow> uchar list \<Rightarrow> udp_client \<Rightarrow> log \<Rightarrow> int \<times> log" where
  "UdpClient_sendto os buf u l =
     (if u_close u then (- 1, l)
      else if u_connect u then
        (let (r, l) = syscall os (C_sendto (u_fd u) buf None) l in (rv r, l))
      else
        (let (r, l) = syscall os (C_sendto (u_fd u) buf (Some (c_str (u_ip u), u_port u))) l in (rv r, l)))"

definition UdpClient_recvfrom :: "os \<Rightarrow> uint \<Rightarrow> udp_client \<Rightarrow> log \<Rightarrow> int \<times> uchar list \<times> log" where
  "UdpClient_recvfrom os len u l =
     (if u_close u then (- 1, [], l)
      else (let (r, l) = syscall os (C_recvfrom (u_fd u) len) l in (rv r, bytes r, l)))"

definition UdpClient_close :: "os \<Rightarrow> udp_client \<Rightarrow> log \<Rightarrow> udp_client \<times> log" where
  "UdpClient_close os u l =
     (if \<not> u_close u then
        (let l = do_call os (C_close (u_fd u)) l in (u\<lparr>u_close := True\<rparr>, l))
      else (u, l))"

definition UdpClient_delete :: "os \<Rightarrow> udp_client \<Rightarrow> log \<Rightarrow> udp_client \<times> log" where
  "UdpClient_delete os u l = UdpClient_close os u l"

definition UdpClient_is_close :: "udp_client \<Rightarrow> bool" where
  "UdpClient_is_close u = u_close u"

definition UdpClient_fd :: "udp_client \<Rightarrow> int" where
  "UdpClient_fd u = u_fd u"

section \<open>Descriptors\<close>

lemma UdpClient_connect_fds:
  assumes "UdpClient_connect os ip port dc u l = (ret, u', l')"
  shows "\<exists>m. l' = l @ m \<and> (\<forall>S. open_fds m S = (if u_fd u' < 0 then S else insert (u_fd u') S)
      \<and> (fresh_fds S m \<longrightarrow> u_fd u' < 0 \<or> u_fd u' \<notin> S))
    \<and> (u_close u' \<longleftrightarrow> u_close u \<and> \<not> (ret = 0 \<and> 0 \<le> u_fd u'))"
proof -
  define fd where "fd = rv (os (length l) (C_socket SOCK_DGRAM))"
  define l1 where "l1 = l @ [(C_socket SOCK_DGRAM, os (length l) (C_socket SOCK_DGRAM))]"
  obtain m where m: "snd (set_non_bolck os fd l1) = l1 @ m" "\<forall>S. open_fds m S = S \<and> fresh_fds S m"
    using set_non_bolck_neutral unfolding neutral_log_def by blast
  show ?thesis
  proof (cases "fd < 0")
    case True
    then show ?thesis
      using assms
      by (auto simp: UdpClient_connect_def syscall_def Let_def fd_def fd_effect_def new_fd_def)
  next
    case False
    define c where "c = (if dc then [(C_connect fd (c_str ip) port, os (length (l1 @ m)) (C_connect fd (c_str ip) port))] else [])"
    have r: "l' = l1 @ m @ c \<and> u_fd u' = fd \<and> u_close u' = (if ret = 0 then False else u_close u)"
      using assms False m(1)
      by (auto simp: UdpClient_connect_def syscall_def Let_def split_beta c_def
          fd_def [symmetric] l1_def [symmetric] split: if_splits)
    have c: "open_fds c S = S" for S by (simp add: c_def fd_effect_def)
    have "open_fds (m @ c) S = S" for S using m(2) c by simp
    then show ?thesis
      using r False
      by (intro exI [of _ "(C_socket SOCK_DGRAM, os (length l) (C_socket SOCK_DGRAM)) # m @ c"])
         (simp add: l1_def fd_effect_def new_fd_def fd_def)
  qed
qed

text \<open>
  C35: after \<open>connect\<close> has succeeded on a closed client, \<open>close\<close> closes the socket, once: exactly the
  descriptors that were open before are open again. After a \<open>connect\<close> that got a socket and
  then failed, the client counts as closed: \<open>close\<close> makes no call, and the socket stays open
  for good.
\<close>

theorem udp_client_descriptors:
  assumes "u_close u" and "UdpClient_connect os ip port dc u l = (ret, u1, l1)"
    and "UdpClient_close os2 u1 l1 = (u2, l2)"
  shows "\<exists>m. l2 = l @ m \<and> u_close u2 \<and> UdpClient_close os3 u2 l3 = (u2, l3)
    \<and> (\<forall>S. fresh_fds S m \<longrightarrow>
         open_fds m S = (if ret \<noteq> 0 \<and> 0 \<le> u_fd u1 then insert (u_fd u1) S else S))"
proof -
  from UdpClient_connect_fds [OF assms(2)] obtain m where m: "l1 = l @ m"
      "\<And>S. open_fds m S = (if u_fd u1 < 0 then S else insert (u_fd u1) S)"
      "\<And>S. fresh_fds S m \<Longrightarrow> u_fd u1 < 0 \<or> u_fd u1 \<notin> S"
      "u_close u1 \<longleftrightarrow> \<not> (ret = 0 \<and> 0 \<le> u_fd u1)"
    using assms(1) by auto
  show ?thesis
  proof (cases "u_close u1")
    case True
    then have "u2 = u1" "l2 = l1" using assms(3) by (simp_all add: UdpClient_close_def)
    moreover have "ret \<noteq> 0 \<or> u_fd u1 < 0" using True m(4) by (auto split: if_splits)
    ultimately show ?thesis using True m by (auto simp: UdpClient_close_def)
  next
    case False
    let ?c = "(C_close (u_fd u1), os2 (length l1) (C_close (u_fd u1)))"
    have "u2 = u1\<lparr>u_close := True\<rparr>" "l2 = l @ m @ [?c]"
      using assms(3) False m(1) by (auto simp: UdpClient_close_def do_call_eq Let_def)
    moreover have "ret = 0" "0 \<le> u_fd u1" using False m(4) by (auto split: if_splits)
    moreover have "fresh_fds S (m @ [?c]) \<Longrightarrow> open_fds (m @ [?c]) S = S" for S
      using m(2,3) [of S] \<open>0 \<le> u_fd u1\<close> by (auto simp: fresh_fds_append fd_effect_def)
    ultimately show ?thesis by (intro exI [of _ "m @ [?c]"]) (simp add: UdpClient_close_def)
  qed
qed

lemma udp_client_descriptors_witness:
  "let os = (\<lambda>n c. if c = C_socket SOCK_DGRAM then ok_reply 7
                   else if c = C_connect 7 ''h'' 9 then ok_reply (- 1) else ok_reply 0);
       (ret, u1, l1) = UdpClient_connect os ''h'' 9 True UdpClient_new [];
       (u2, l2) = UdpClient_close os u1 l1
   in open_fds l2 {0, 1, 2} = {7, 0, 1, 2}"
proof -
  define os :: os where "os = (\<lambda>n c. if c = C_socket SOCK_DGRAM then ok_reply 7
                   else if c = C_connect 7 ''h'' 9 then ok_reply (- 1) else ok_reply 0)"
  obtain ret u1 l1 where c: "UdpClient_connect os ''h'' 9 True UdpClient_new [] = (ret, u1, l1)"
    by (metis prod_cases3)
  obtain u2 l2 where k: "UdpClient_close os u1 l1 = (u2, l2)" by fastforce
  have r: "ret = - 1" "u_fd u1 = 7"
    using c by (auto simp: UdpClient_connect_def UdpClient_new_def set_non_bolck_def syscall_def Let_def
        os_def ok_reply_def c_str_def)
  have new: "u_close UdpClient_new" by (simp add: UdpClient_new_def)
  from udp_client_descriptors [OF new c k, of os "[]"] r obtain m where
    m: "l2 = m" "\<And>S. fresh_fds S m \<Longrightarrow> open_fds m S = insert 7 S" by auto
  have "fresh_fds {0, 1, 2} l2"
    using c k by (auto simp: UdpClient_connect_def UdpClient_close_def UdpClient_new_def set_non_bolck_def
        syscall_def Let_def os_def ok_reply_def c_str_def new_fd_def fd_effect_def)
  with m have "open_fds l2 {0, 1, 2} = {7, 0, 1, 2}" by simp
  with c k show ?thesis by (simp add: os_def)
qed

end
