(* ===== verification/OSUtils.thy ===== *)
theory OSUtils
  imports Posix Printf
begin

text \<open>
  src/OSUtils.cpp: resource limits, signal masks and the printed thread id.
\<close>

definition RLIMIT_NOFILE :: int where "RLIMIT_NOFILE = 7"
definition SIG_BLOCK :: int where "SIG_BLOCK = 0"
definition SIGINT :: int where "SIGINT = 2"

definition get_rlimit :: "os \<Rightarrow> int \<Rightarrow> log \<Rightarrow> int \<times> int \<times> log" where
  "get_rlimit os resource l =
     (let (r, l) = syscall os (C_getrlimit resource) l in (rv r, nums r ! 0, l))"

text \<open>The set is filled signal by signal; one that \<open>sigaddset\<close> refuses is left out.\<close>

fun add_signals :: "os \<Rightarrow> int list \<Rightarrow> int list \<Rightarrow> log \<Rightarrow> int list \<times> log" where
  "add_signals os sigset [] l = (sigset, l)"
| "add_signals os sigset (sig # sigs) l =
     (let (r, l) = syscall os (C_sigaddset sig) l
      in add_signals os (if rv r \<noteq> 0 then sigset else sigset @ [sig]) sigs l)"

definition signal_mask :: "os \<Rightarrow> int \<Rightarrow> int list \<Rightarrow> log \<Rightarrow> int \<times> log" where
  "signal_mask os how sigs l =
     (let (sigset, l) = add_signals os [] sigs l;
          (r, l) = syscall os (C_sigmask how sigset) l in (rv r, l))"

text \<open>A buffer of 32 characters, and the heap if the text does not fit.\<close>

definition GetThreadId :: "ulong \<Rightarrow> string" where
  "GetThreadId tid =
     (let s = ''0x'' @ show_hex (unat tid) in
      if length s \<ge> 32 then s else take 31 s)"

text \<open>The heap is never needed: a thread id has at most 16 hexadecimal digits.\<close>

lemma GetThreadId_fits: "GetThreadId tid = ''0x'' @ show_hex (unat tid) \<and> length (GetThreadId tid) \<le> 18"
proof -
  have "unat tid < 16 ^ Suc 15" using unsigned_less [of tid] by simp
  then have "length (show_hex (unat tid)) \<le> 16" using show_hex_length by fastforce
  then show ?thesis by (simp add: GetThreadId_def Let_def)
qed

end
