(* ===== verification/UdpReactor.thy ===== *)
theory UdpReactor
  imports Thread TMap OSUtils SocketUtils StringUtils
begin

text \<open>
  src/UdpReactor.cpp: a thread that receives datagrams on one socket and gives each to the
  handler of its sender. A sender is known by the text of its address and port. Handlers are
  numbered objects whose methods are outside calls, as in theory TcpReactor; a negative reply of
  \<open>renew\<close> is the null pointer. Calling a method of the null handler, \<open>abort\<close>, and the use of an iterator after its entry was erased are
  \<open>None\<close>.
\<close>

section \<open>State and operations\<close>

record udp_args =
  ua_ip :: string
  ua_port :: ushort
  ua_epoll_size :: uint

definition StUdpReactorAgrs :: udp_args where
  "StUdpReactorAgrs = \<lparr>ua_ip = '''', ua_port = 3300, ua_epoll_size = 10\<rparr>"

record udp_reactor =
  ur_handler :: "nat option"
  ur_handlers :: "nat string_map"
  ur_fd :: int
  ur_epfd :: int
  ur_ep_events :: bool
  ur_ep_size :: int
  ur_buf_size :: uint
  ur_buf :: bool

definition UdpReactor_new :: "nat option \<Rightarrow> uint \<Rightarrow> udp_reactor" where
  "UdpReactor_new h bs = \<lparr>ur_handler = h, ur_handlers = [], ur_fd = - 1, ur_epfd = - 1,
     ur_ep_events = False, ur_ep_size = 0, ur_buf_size = bs, ur_buf = True\<rparr>"

definition UdpReactor_prepare :: "os \<Rightarrow> log \<Rightarrow> int \<times> log" where
  "UdpReactor_prepare os l = signal_mask os SIG_BLOCK [SIGINT] l"

definition UdpReactor_epoller_create :: "os \<Rightarrow> int \<Rightarrow> udp_reactor \<Rightarrow> log \<Rightarrow> int \<times> udp_reactor \<times> log" where
  "UdpReactor_epoller_create os sz R l =
     (let (r, l) = syscall os (C_epoll_create sz) l; R = R\<lparr>ur_epfd := rv r\<rparr> in
      if ur_epfd R = - 1 then (- 1, R, l)
      else (0, R\<lparr>ur_ep_size := sz, ur_ep_events := True\<rparr>, l))"

definition UdpReactor_epoller_ctl ::
  "os \<Rightarrow> udp_reactor \<Rightarrow> int \<Rightarrow> ep_op \<Rightarrow> uint \<Rightarrow> log \<Rightarrow> int \<times> log" where
  "UdpReactor_epoller_ctl os R fd op events l =
     (let (r, l) = syscall os (C_epoll_ctl (ur_epfd R) op fd events) l in (rv r, l))"

definition do_bind :: "os \<Rightarrow> string \<Rightarrow> ushort \<Rightarrow> udp_reactor \<Rightarrow> log \<Rightarrow> int \<times> udp_reactor \<times> log" where
  "do_bind os ip port R l =
     (let (r, l) = syscall os (C_socket SOCK_DGRAM) l; R = R\<lparr>ur_fd := rv r\<rparr>; fd = ur_fd R in
      if fd < 0 then (fd, R, l)
      else
        (let (_, l) = set_reuseaddr os fd l;
             (_, l) = set_non_bolck os fd l;
             (_, l) = set_rcvbuf os fd 16777216 l;
             (r, l) = syscall os (C_bind fd (c_str ip) port) l in
         if rv r \<noteq> 0 then (rv r, R, do_call os (C_close fd) l)
         else
           (let (nRet, l) = UdpReactor_epoller_ctl os R fd EPOLL_CTL_ADD EPOLLIN l in
            if nRet \<noteq> 0 then (nRet, R, do_call os (C_close fd) l)
            else (nRet, R, l))))"

definition UdpReactor_do_init :: "os \<Rightarrow> udp_args option \<Rightarrow> udp_reactor \<Rightarrow> log \<Rightarrow> int \<times> udp_reactor \<times> log" where
  "UdpReactor_do_init os args R l =
     (case args of
        None \<Rightarrow> (- 1, R, l)
      | Some a \<Rightarrow>
          (let (nRet, rlim_cur, l) = get_rlimit os RLIMIT_NOFILE l in
           if nRet \<noteq> 0 then (nRet, R, l)
           else
             (let sz = as_int (if rlim_cur > uint (ua_epoll_size a) then uint (ua_epoll_size a) else rlim_cur);
                  (nRet, R, l) = UdpReactor_epoller_create os sz R l in
              if nRet \<noteq> 0 then (nRet, R, l)
              else do_bind os (ua_ip a) (ua_port a) R l)))"

text \<open>
  The loop at the end of \<open>release\<close> erases the entry of its iterator and then advances that
  iterator: the first entry is deleted, the step to the next one is undefined.
\<close>

definition UdpReactor_release :: "os \<Rightarrow> udp_reactor \<Rightarrow> log \<Rightarrow> (udp_reactor \<times> log) option" where
  "UdpReactor_release os R l =
     (let l = do_call os (C_close (ur_epfd R)) l;
          l = do_call os (C_close (ur_fd R)) l;
          R = R\<lparr>ur_epfd := - 1\<rparr>;
          l = (case ur_handler R of None \<Rightarrow> l | Some h \<Rightarrow> do_call os (H_delete h) l);
          R = R\<lparr>ur_handler := None, ur_ep_events := False\<rparr>
      in case ur_handlers R of
           [] \<Rightarrow> Some (R, l)
         | _ # _ \<Rightarrow> None)"

definition UdpReactor_delete :: "os \<Rightarrow> udp_reactor \<Rightarrow> log \<Rightarrow> (udp_reactor \<times> log) option" where
  "UdpReactor_delete os R l = UdpReactor_release os (R\<lparr>ur_buf := False\<rparr>) l"

text \<open>
  One readable event: receive a datagram and give it to the handler of its sender. An address
  printed by \<open>inet_ntop\<close> holds no NUL and fits the buffer, so that call does not fail.
\<close>

definition on_datagram :: "os \<Rightarrow> udp_reactor \<Rightarrow> log \<Rightarrow> (udp_reactor \<times> log) option" where
  "on_datagram os R l =
     (let (r, l) = syscall os (C_recvfrom (ur_fd R) (ur_buf_size R - 1)) l; rcv_num = rv r in
      if rcv_num < 0 then Some (R, l)
      else
        (let ip = c_str (fst (peer r));
             port = snd (peer r);
             client_id = format_s_u ip (unat port) in
         if rcv_num = 0 then
           (case map_find (ur_handlers R) client_id of
              Some h \<Rightarrow>
                (let l = do_call os (H_close_udp h ip port) l;
                     l = do_call os (H_delete h) l
                 in Some (R\<lparr>ur_handlers := map_erase (ur_handlers R) client_id\<rparr>, l))
            | None \<Rightarrow> Some (R, l))
         else
           (let buf = take (nat rcv_num) (bytes r) in
            case map_find (ur_handlers R) client_id of
              None \<Rightarrow>
                (case ur_handler R of
                   None \<Rightarrow> None
                 | Some proto \<Rightarrow>
                     (let (r, l) = syscall os (H_renew proto) l in
                      if rv r < 0 then None
                      else
                        (let h = nat (rv r);
                             R = R\<lparr>ur_handlers := map_insert (ur_handlers R) client_id h\<rparr>;
                             l = do_call os (H_input_udp h ip port buf) l
                         in Some (R, l))))
            | Some h \<Rightarrow> Some (R, do_call os (H_input_udp h ip port buf) l))))"

text \<open>The loop over the ready events stops after the first one of the socket.\<close>

fun udp_events :: "os \<Rightarrow> (int \<times> uint) list \<Rightarrow> udp_reactor \<Rightarrow> log \<Rightarrow> (udp_reactor \<times> log) option" where
  "udp_events os [] R l = Some (R, l)"
| "udp_events os ((fd, events) # evs) R l =
     (if events AND EPOLLIN \<noteq> 0 \<and> ur_fd R = fd then on_datagram os R l
      else udp_events os evs R l)"

definition UdpReactor_svc :: "os \<Rightarrow> udp_reactor \<Rightarrow> log \<Rightarrow> (int \<times> udp_reactor \<times> log) option" where
  "UdpReactor_svc os R l =
     (let (r, l) = syscall os (C_epoll_wait (ur_epfd R) (ur_ep_size R) (- 1)) l; fd_cnt = rv r in
      if fd_cnt > 0 then
        do { (R, l) \<leftarrow> udp_events os (take (nat fd_cnt) (ready r)) R l; Some (0, R, l) }
      else if fd_cnt = 0 then Some (0, R, l)
      else if err r = EINTR then Some (0, R, l)
      else None)"

section \<open>The life of a sender\<close>

text \<open>
  What the handlers see, as an automaton over the log. \<open>live\<close> is the handler of each sender that
  has one; \<open>due\<close> is a datagram with data that was received and not yet handed over; \<open>ending\<close> is a
  sender with a handler whose empty datagram was received and whose handler is still to be told;
  \<open>fresh\<close> is a handler that \<open>renew\<close> has just made;
  \<open>dead\<close> is a handler that was told of the end and not yet deleted. \<open>None\<close> is a violation: a
  datagram dropped, handed over twice, changed, given to a handler of another sender, a handler
  made for a sender that has one, a handler told of an end that did not come, or deleted
  without being told; and a next datagram or round while something is still to be done: a
  datagram to hand over, an end to tell, a handler to delete.
\<close>

record udp_life =
  live :: "string \<times> ushort \<Rightarrow> nat option"
  due :: "((string \<times> ushort) \<times> uchar list) option"
  ending :: "(string \<times> ushort) option"
  fresh :: "nat option"
  dead :: "nat option"

definition udp_idle :: "(string \<times> ushort \<Rightarrow> nat option) \<Rightarrow> udp_life" where
  "udp_idle f = \<lparr>live = f, due = None, ending = None, fresh = None, dead = None\<rparr>"

definition udp_life_step :: "call \<times> reply \<Rightarrow> udp_life \<Rightarrow> udp_life option" where
  "udp_life_step e s = (case fst e of
       C_epoll_wait ep n t \<Rightarrow>
         (if due s = None \<and> ending s = None \<and> fresh s = None \<and> dead s = None then Some s else None)
     | C_recvfrom fd len \<Rightarrow>
         (if due s \<noteq> None \<or> ending s \<noteq> None \<or> fresh s \<noteq> None \<or> dead s \<noteq> None then None
          else
            (let p = (c_str (fst (peer (snd e))), snd (peer (snd e)));
                 n = rv (snd e) in
             if n < 0 then Some s
             else if n = 0 then Some (if live s p = None then s else s\<lparr>ending := Some p\<rparr>)
             else Some (s\<lparr>due := Some (p, take (nat n) (bytes (snd e)))\<rparr>)))
     | H_renew h \<Rightarrow>
         (case due s of
            Some (p, b) \<Rightarrow> if live s p = None then Some (s\<lparr>fresh := Some (nat (rv (snd e)))\<rparr>) else None
          | None \<Rightarrow> None)
     | H_input_udp h ip port b \<Rightarrow>
         (if due s \<noteq> Some ((ip, port), b) then None
          else if live s (ip, port) = Some h \<and> fresh s = None then Some (s\<lparr>due := None\<rparr>)
          else if live s (ip, port) = None \<and> fresh s = Some h
          then Some (s\<lparr>due := None, fresh := None, live := (live s)((ip, port) \<mapsto> h)\<rparr>)
          else None)
     | H_close_udp h ip port \<Rightarrow>
         (if ending s = Some (ip, port) \<and> live s (ip, port) = Some h
          then Some (s\<lparr>ending := None, live := (live s)((ip, port) := None), dead := Some h\<rparr>)
          else None)
     | H_delete h \<Rightarrow> (if dead s = Some h then Some (s\<lparr>dead := None\<rparr>) else None)
     | _ \<Rightarrow> Some s)"

fun udp_life_run :: "log \<Rightarrow> udp_life \<Rightarrow> udp_life option" where
  "udp_life_run [] s = Some s"
| "udp_life_run (e # l) s = do { s \<leftarrow> udp_life_step e s; udp_life_run l s }"

lemma udp_life_run_append: "udp_life_run (l @ m) s = do { s \<leftarrow> udp_life_run l s; udp_life_run m s }"
proof (induction l arbitrary: s)
  case (Cons e l)
  then show ?case by (cases "udp_life_step e s") simp_all
qed simp

text \<open>The senders that have a handler, read off the map.\<close>

definition live_of :: "nat string_map \<Rightarrow> string \<times> ushort \<Rightarrow> nat option" where
  "live_of m p = (if c_str (fst p) = fst p then map_find m (format_s_u (fst p) (unat (snd p))) else None)"

lemma c_str_idem [simp]: "c_str (c_str s) = c_str s"
  by (simp add: c_str_def)

lemma sender_id_inj:
  "format_s_u ip (unat p) = format_s_u ip' (unat p') \<longleftrightarrow> c_str ip = c_str ip' \<and> p = (p' :: ushort)"
  by (auto simp: format_s_u_inj intro: unsigned_word_eqI)

lemma live_of_insert:
  assumes "map_wf m" and "map_find m (format_s_u (c_str ip) (unat port)) = None"
  shows "live_of (map_insert m (format_s_u (c_str ip) (unat port)) h) = (live_of m)((c_str ip, port) \<mapsto> h)"
  using assms by (auto simp: live_of_def fun_eq_iff sender_id_inj)

lemma live_of_erase:
  assumes "map_wf m"
  shows "live_of (map_erase m (format_s_u (c_str ip) (unat port))) = (live_of m)((c_str ip, port) := None)"
  using assms by (auto simp: live_of_def fun_eq_iff sender_id_inj)

lemma live_of_at [simp]: "live_of m (c_str ip, port) = map_find m (format_s_u (c_str ip) (unat port))"
  by (simp add: live_of_def)

section \<open>Rounds\<close>

definition sender_state :: "udp_reactor \<Rightarrow> udp_life" where
  "sender_state R = udp_idle (live_of (ur_handlers R))"

text \<open>What a piece of the log does: the senders of the map are those that are alive, nothing is due.\<close>

definition udp_piece :: "udp_reactor \<Rightarrow> udp_reactor \<Rightarrow> log \<Rightarrow> bool" where
  "udp_piece R R' m \<longleftrightarrow>
     ur_fd R' = ur_fd R \<and> ur_epfd R' = ur_epfd R \<and> ur_handler R' = ur_handler R
     \<and> (\<forall>S. open_fds m S = S)
     \<and> (map_wf (ur_handlers R) \<longrightarrow> map_wf (ur_handlers R')
        \<and> udp_life_run m (sender_state R) = Some (sender_state R'))"

lemma udp_piece_refl: "udp_piece R R []"
  by (auto simp: udp_piece_def)

lemma udp_piece_trans: "udp_piece R R1 m \<Longrightarrow> udp_piece R1 R2 n \<Longrightarrow> udp_piece R R2 (m @ n)"
  by (auto simp: udp_piece_def udp_life_run_append)

lemmas udp_log_simps =
  syscall_def do_call_eq Let_def fd_effect_def udp_life_step_def sender_state_def udp_idle_def

lemma on_datagram_piece:
  assumes "on_datagram os R l = Some (R', l')"
  shows "\<exists>m. l' = l @ m \<and> udp_piece R R' m"
proof -
  define c where "c = C_recvfrom (ur_fd R) (ur_buf_size R - 1)"
  define r where "r = os (length l) c"
  define ip where "ip = c_str (fst (peer r))"
  define port where "port = snd (peer r)"
  define id where "id = format_s_u ip (unat port)"
  define buf where "buf = take (nat (rv r)) (bytes r)"
  have eq: "on_datagram os R l =
     (if rv r < 0 then Some (R, l @ [(c, r)])
      else if rv r = 0 then
        (case map_find (ur_handlers R) id of
           Some h \<Rightarrow> Some (R\<lparr>ur_handlers := map_erase (ur_handlers R) id\<rparr>,
             do_call os (H_delete h) (do_call os (H_close_udp h ip port) (l @ [(c, r)])))
         | None \<Rightarrow> Some (R, l @ [(c, r)]))
      else
        (case map_find (ur_handlers R) id of
           None \<Rightarrow>
             (case ur_handler R of
                None \<Rightarrow> None
              | Some proto \<Rightarrow>
                  (let (q, l) = syscall os (H_renew proto) (l @ [(c, r)]) in
                   if rv q < 0 then None
                   else (let h = nat (rv q)
                     in Some (R\<lparr>ur_handlers := map_insert (ur_handlers R) id h\<rparr>,
                          do_call os (H_input_udp h ip port buf) l))))
         | Some h \<Rightarrow> Some (R, do_call os (H_input_udp h ip port buf) (l @ [(c, r)]))))"
    by (simp add: on_datagram_def syscall_def Let_def c_def r_def ip_def port_def id_def buf_def
        cong: option.case_cong if_cong)
  have at: "live_of m (ip, port) = map_find m id" for m by (simp add: ip_def id_def)
  have ins: "map_wf m \<Longrightarrow> map_find m id = None \<Longrightarrow> live_of (map_insert m id h) = (live_of m)((ip, port) \<mapsto> h)" for m h
    unfolding id_def ip_def by (rule live_of_insert)
  have del: "map_wf m \<Longrightarrow> live_of (map_erase m id) = (live_of m)((ip, port) := None)" for m
    unfolding id_def ip_def by (rule live_of_erase)
  have peer: "(c_str (fst (peer r)), snd (peer r)) = (ip, port)" by (simp add: ip_def port_def)
  consider "rv r < 0" | "rv r = 0" | "0 < rv r" by linarith
  then show ?thesis
  proof cases
    case 1
    then show ?thesis using assms by (auto simp: eq udp_piece_def udp_log_simps c_def)
  next
    case 2
    then show ?thesis
      using assms at del peer
      by (auto simp: eq udp_piece_def udp_log_simps c_def split: option.splits)
  next
    case 3
    show ?thesis
    proof (cases "map_find (ur_handlers R) id")
      case None
      then obtain p where p: "ur_handler R = Some p" using 3 assms by (auto simp: eq split: option.splits)
      show ?thesis
        using assms 3 None p at ins peer
        by (auto simp: eq udp_piece_def udp_log_simps c_def buf_def split: if_splits)
    next
      case (Some h)
      then show ?thesis
        using assms 3 at peer by (auto simp: eq udp_piece_def udp_log_simps c_def buf_def)
    qed
  qed
qed

lemma udp_events_piece:
  "udp_events os evs R l = Some (R', l') \<Longrightarrow> \<exists>m. l' = l @ m \<and> udp_piece R R' m"
proof (induction os evs R l rule: udp_events.induct)
  case (1 os R l)
  then show ?case using udp_piece_refl by auto
next
  case (2 os fd events evs R l)
  then show ?case using on_datagram_piece by (auto split: if_splits)
qed

lemma udp_svc_piece:
  assumes "UdpReactor_svc os R l = Some (r, R', l')"
  shows "r = 0 \<and> (\<exists>m. l' = l @ m \<and> udp_piece R R' m)"
proof -
  define w where "w = os (length l) (C_epoll_wait (ur_epfd R) (ur_ep_size R) (- 1))"
  let ?w = "(C_epoll_wait (ur_epfd R) (ur_ep_size R) (- 1), w)"
  have w: "udp_piece R R [?w]" by (auto simp: udp_piece_def udp_log_simps)
  have "r = 0 \<and> (l' = l @ [?w] \<and> R' = R
      \<or> udp_events os (take (nat (rv w)) (ready w)) R (l @ [?w]) = Some (R', l'))"
    using assms by (auto simp: UdpReactor_svc_def syscall_def Let_def w_def bind_eq_Some_conv split: if_splits)
  then show ?thesis
  proof (elim conjE disjE)
    assume "r = 0" "l' = l @ [?w]" "R' = R"
    with w show ?thesis by auto
  next
    assume "r = 0" and e: "udp_events os (take (nat (rv w)) (ready w)) R (l @ [?w]) = Some (R', l')"
    from udp_events_piece [OF e] obtain n where n: "l' = (l @ [?w]) @ n" "udp_piece R R' n" by blast
    with udp_piece_trans [OF w n(2)] \<open>r = 0\<close> show ?thesis by (intro conjI exI [of _ "[?w] @ n"]) simp_all
  qed
qed

fun udp_rounds :: "os \<Rightarrow> nat \<Rightarrow> udp_reactor \<Rightarrow> log \<Rightarrow> (udp_reactor \<times> log) option" where
  "udp_rounds os 0 R l = Some (R, l)"
| "udp_rounds os (Suc n) R l =
     do { (R, l) \<leftarrow> udp_rounds os n R l; (r, R, l) \<leftarrow> UdpReactor_svc os R l; Some (R, l) }"

lemma udp_rounds_piece:
  "udp_rounds os n R l = Some (R', l') \<Longrightarrow> \<exists>m. l' = l @ m \<and> udp_piece R R' m"
proof (induction n arbitrary: R' l')
  case 0
  then show ?case using udp_piece_refl by auto
next
  case (Suc n)
  then obtain R1 l1 r where 1: "udp_rounds os n R l = Some (R1, l1)" "UdpReactor_svc os R1 l1 = Some (r, R', l')"
    by (auto simp: bind_eq_Some_conv)
  from Suc.IH [OF 1(1)] udp_svc_piece [OF 1(2)] show ?case using udp_piece_trans by fastforce
qed

section \<open>Starting and stopping\<close>

lemma do_bind_fds:
  assumes "do_bind os ip port R l = (ret, R', l')"
  shows "\<exists>m. l' = l @ m \<and> ur_epfd R' = ur_epfd R \<and> ur_handlers R' = ur_handlers R
    \<and> (ret = 0 \<longrightarrow> 0 \<le> ur_fd R')
    \<and> (\<forall>S. fresh_fds S m \<longrightarrow> open_fds m S = (if ret = 0 then insert (ur_fd R') S else S)
        \<and> (ret = 0 \<longrightarrow> ur_fd R' \<notin> S))"
proof -
  define s where "s = os (length l) (C_socket SOCK_DGRAM)"
  define fd where "fd = rv s"
  define l1 where "l1 = l @ [(C_socket SOCK_DGRAM, s)]"
  show ?thesis
  proof (cases "fd < 0")
    case True
    then show ?thesis
      using assms by (auto simp: do_bind_def syscall_def Let_def fd_def s_def fd_effect_def)
  next
    case False
    obtain a where a: "snd (set_reuseaddr os fd l1) = l1 @ a" "neutral_log a"
      using set_option_neutral(1) by blast
    obtain b where b: "snd (set_non_bolck os fd (l1 @ a)) = (l1 @ a) @ b" "neutral_log b"
      using set_non_bolck_neutral by blast
    obtain c where c: "snd (set_rcvbuf os fd 16777216 (l1 @ a @ b)) = (l1 @ a @ b) @ c" "neutral_log c"
      using set_option_neutral(3) by blast
    define q where "q = a @ b @ c"
    have q: "neutral_log q" using a b c by (simp add: q_def neutral_append)
    define l2 where "l2 = l1 @ q"
    let ?R = "R\<lparr>ur_fd := fd\<rparr>"
    define d where "d = (C_bind fd (c_str ip) port, os (length l2) (C_bind fd (c_str ip) port))"
    define f where "f = (C_epoll_ctl (ur_epfd R) EPOLL_CTL_ADD fd EPOLLIN,
      os (Suc (length l2)) (C_epoll_ctl (ur_epfd R) EPOLL_CTL_ADD fd EPOLLIN))"
    have eq: "do_bind os ip port R l =
        (if rv (snd d) \<noteq> 0 then (rv (snd d), ?R, do_call os (C_close fd) (l2 @ [d]))
         else if rv (snd f) \<noteq> 0 then (rv (snd f), ?R, do_call os (C_close fd) (l2 @ [d, f]))
         else (rv (snd f), ?R, l2 @ [d, f]))"
      using False a b c
      by (simp add: do_bind_def UdpReactor_epoller_ctl_def syscall_def Let_def split_beta s_def [symmetric]
          fd_def [symmetric] l1_def [symmetric] q_def l2_def d_def f_def)
    have R': "R' = ?R \<and> (\<exists>n t. l' = l2 @ n @ t \<and> n \<in> {[d], [d, f]}
        \<and> (if ret = 0 then t = [] else \<exists>r. t = [(C_close fd, r)]))"
      using assms by (force simp: eq do_call_eq split: if_split_asm intro: exI [of _ "[d]"] exI [of _ "[d, f]"])
    then obtain n t where nt: "l' = l2 @ n @ t" "n \<in> {[d], [d, f]}"
        "if ret = 0 then t = [] else \<exists>r. t = [(C_close fd, r)]" by blast
    have n: "neutral_log n"
      using nt(2) by (auto simp: neutral_log_def d_def f_def fd_effect_def new_fd_def)
    let ?m = "(C_socket SOCK_DGRAM, s) # q @ n @ t"
    have "l' = l @ ?m" using nt(1) by (simp add: l2_def l1_def)
    moreover have "fresh_fds S ?m \<Longrightarrow> fd \<notin> S" for S
      using False by (simp add: new_fd_def fd_def)
    moreover have "fresh_fds S ?m \<Longrightarrow> open_fds ?m S = (if ret = 0 then insert fd S else S)" for S
      using q n nt(3) False
      by (cases "ret = 0") (auto simp: neutral_log_def fd_effect_def fd_def new_fd_def)
    ultimately show ?thesis using R' False by (intro exI [of _ ?m]) auto
  qed
qed

lemma do_init_fds:
  assumes "UdpReactor_do_init os args (UdpReactor_new h bs) l = (ret, R, l1)"
    and "\<forall>n sz. - 1 \<le> rv (os n (C_epoll_create sz))"
  shows "\<exists>m. l1 = l @ m \<and> ur_handlers R = []
    \<and> (\<forall>S. fresh_fds S m \<and> (\<forall>f \<in> S. 0 \<le> f) \<longrightarrow>
        (if ret = 0 then open_fds m S = S \<union> {ur_fd R, ur_epfd R} \<and> ur_fd R \<notin> S \<and> ur_epfd R \<notin> S
         else open_fds m S - {ur_epfd R} = S))"
proof (cases args)
  case None
  then show ?thesis using assms(1) by (auto simp: UdpReactor_do_init_def UdpReactor_new_def)
next
  case (Some a)
  let ?N = "UdpReactor_new h bs"
  define r where "r = os (length l) (C_getrlimit RLIMIT_NOFILE)"
  define sz where "sz = as_int (if nums r ! 0 > uint (ua_epoll_size a) then uint (ua_epoll_size a) else nums r ! 0)"
  define r2 where "r2 = os (Suc (length l)) (C_epoll_create sz)"
  let ?g = "(C_getrlimit RLIMIT_NOFILE, r)" and ?e = "(C_epoll_create sz, r2)"
  have eq: "UdpReactor_do_init os args ?N l =
      (if rv r \<noteq> 0 then (rv r, ?N, l @ [?g])
       else if rv r2 = - 1 then (- 1, ?N\<lparr>ur_epfd := - 1\<rparr>, l @ [?g, ?e])
       else do_bind os (ua_ip a) (ua_port a)
         (?N\<lparr>ur_epfd := rv r2, ur_ep_size := sz, ur_ep_events := True\<rparr>) (l @ [?g, ?e]))"
    by (simp add: UdpReactor_do_init_def Some get_rlimit_def UdpReactor_epoller_create_def syscall_def Let_def
        r_def sz_def r2_def)
  consider "rv r \<noteq> 0" | "rv r = 0" "rv r2 = - 1" | "rv r = 0" "rv r2 \<noteq> - 1" by blast
  then show ?thesis
  proof cases
    case 1
    then have "ret \<noteq> 0" "R = ?N" "l1 = l @ [?g]" using assms(1) by (auto simp: eq)
    then show ?thesis by (auto simp: fd_effect_def UdpReactor_new_def)
  next
    case 2
    then have "ret = - 1" "R = ?N\<lparr>ur_epfd := - 1\<rparr>" "l1 = l @ [?g, ?e]" using assms(1) by (auto simp: eq)
    then show ?thesis using 2 by (auto simp: fd_effect_def UdpReactor_new_def)
  next
    case 3
    then have db: "do_bind os (ua_ip a) (ua_port a)
         (?N\<lparr>ur_epfd := rv r2, ur_ep_size := sz, ur_ep_events := True\<rparr>) (l @ [?g, ?e]) = (ret, R, l1)"
      using assms(1) by (simp add: eq)
    have "- 1 \<le> rv r2" using assms(2) by (simp add: r2_def)
    then have pos: "0 \<le> rv r2" using 3(2) by simp
    from do_bind_fds [OF db] obtain q where q: "l1 = l @ [?g, ?e] @ q" "ur_epfd R = rv r2" "ur_handlers R = []"
        "\<And>S. fresh_fds S q \<Longrightarrow> open_fds q S = (if ret = 0 then insert (ur_fd R) S else S)
          \<and> (ret = 0 \<longrightarrow> ur_fd R \<notin> S)"
      by (auto simp: UdpReactor_new_def)
    have 1: "open_fds ([?g, ?e] @ q) S = open_fds q (insert (ur_epfd R) S)" for S
      using pos by (simp add: fd_effect_def q(2))
    have 2: "fresh_fds S ([?g, ?e] @ q) \<Longrightarrow> ur_epfd R \<notin> S \<and> fresh_fds (insert (ur_epfd R) S) q" for S
      using pos by (auto simp: new_fd_def fd_effect_def q(2))
    have "if ret = 0 then open_fds ([?g, ?e] @ q) S = S \<union> {ur_fd R, ur_epfd R} \<and> ur_fd R \<notin> S \<and> ur_epfd R \<notin> S
         else open_fds ([?g, ?e] @ q) S - {ur_epfd R} = S" if "fresh_fds S ([?g, ?e] @ q)" for S
      unfolding 1 using 2 [OF that] q(4) [of "insert (ur_epfd R) S"] by auto
    then show ?thesis using q(1,3) by (intro exI [of _ "[?g, ?e] @ q"]) (simp only: append_assoc, blast)
  qed
qed

section \<open>Properties\<close>

text \<open>
  C8: after any number of rounds, with any replies, every datagram with data has been handed over
  exactly once and unchanged, before the next one was received, to the handler of its sender and
  to no other; a sender gets a new handler exactly when it has none; when an empty datagram of a
  sender with a handler came, its handler was told of the end and deleted, before anything else
  was received, and no handler was told or deleted otherwise. The senders that are alive at the
  end are those in the map, and nothing is left to be done.
\<close>

theorem udp_senders:
  assumes "ur_handlers R = []" and "udp_rounds os n R l = Some (R', l')"
  shows "\<exists>m. l' = l @ m \<and> udp_life_run m (udp_idle (\<lambda>p. None))
      = Some (udp_idle (\<lambda>(ip, port). if CHR 0x00 \<in> set ip then None
                 else map_find (ur_handlers R') (ip @ ''_'' @ show_nat (unat port))))
    \<and> (\<forall>S. open_fds m S = S)"
proof -
  obtain m where m: "l' = l @ m" "udp_piece R R' m" using udp_rounds_piece [OF assms(2)] by blast
  then have "udp_life_run m (sender_state R) = Some (sender_state R')"
    using assms(1) unfolding udp_piece_def by simp
  moreover have "sender_state R = udp_idle (\<lambda>p. None)"
    using assms(1) by (simp add: sender_state_def udp_idle_def live_of_def fun_eq_iff)
  moreover have "live_of M = (\<lambda>(ip, port). if CHR 0x00 \<in> set ip then None
      else map_find M (ip @ ''_'' @ show_nat (unat port)))" for M
    by (auto simp: live_of_def fun_eq_iff format_s_u_def c_str_no_nul dest: c_str_set)
       (metis c_str_set)
  ultimately show ?thesis using m by (auto simp: sender_state_def udp_piece_def)
qed

text \<open>
  \<open>do_init\<close> that succeeds leaves exactly the socket and the epoll instance open besides what
  was open, and \<open>release\<close> closes both. If it fails, at most the epoll instance is left, and
  \<open>release\<close> closes it. But \<open>release\<close> closes the number of the socket in every case, also the
  one that a failed \<open>do_bind\<close> has closed before: whatever has got that number since is closed.
\<close>

lemma udp_reactor_init_release:
  assumes "UdpReactor_do_init os args (UdpReactor_new h bs) l = (ret, R, l1)"
    and "\<forall>n sz. - 1 \<le> rv (os n (C_epoll_create sz))"
  shows "\<exists>m R2 m2. l1 = l @ m \<and> UdpReactor_release os2 R l2 = Some (R2, l2 @ m2)
    \<and> (\<forall>S. fresh_fds S m \<and> (\<forall>f \<in> S. 0 \<le> f) \<longrightarrow>
        (ret = 0 \<longrightarrow> open_fds m S = S \<union> {ur_fd R, ur_epfd R} \<and> open_fds m2 (open_fds m S) = S)
        \<and> (ret \<noteq> 0 \<longrightarrow> open_fds m S - {ur_epfd R} = S))
    \<and> (\<forall>S. open_fds m2 S = S - {ur_epfd R, ur_fd R})"
proof -
  from do_init_fds [OF assms] obtain m where m: "l1 = l @ m" "ur_handlers R = []"
      "\<And>S. fresh_fds S m \<Longrightarrow> \<forall>f \<in> S. 0 \<le> f \<Longrightarrow>
        if ret = 0 then open_fds m S = S \<union> {ur_fd R, ur_epfd R} \<and> ur_fd R \<notin> S \<and> ur_epfd R \<notin> S
        else open_fds m S - {ur_epfd R} = S" by blast
  obtain R2 m2 where r: "UdpReactor_release os2 R l2 = Some (R2, l2 @ m2)"
      "\<And>S. open_fds m2 S = S - {ur_epfd R, ur_fd R}"
    using m(2)
    by (cases "ur_handler R") (auto simp: UdpReactor_release_def Let_def do_call_eq fd_effect_def)
  show ?thesis
    by (rule exI [of _ m], rule exI [of _ R2], rule exI [of _ m2])
       (use m(1,3) r in \<open>auto split: if_splits\<close>)
qed

text \<open>A system with one sender: two datagrams, and then an empty one.\<close>

definition one_sender_os :: os where
  "one_sender_os n c = (case c of
      C_epoll_wait ep k t \<Rightarrow> (ok_reply 1)\<lparr>ready := [(3, EPOLLIN)]\<rparr>
    | C_recvfrom fd len \<Rightarrow> (if n < 8 then (ok_reply 2)\<lparr>bytes := [7, 8], peer := (''1.2.3.4'', 99)\<rparr>
         else (ok_reply 0)\<lparr>peer := (''1.2.3.4'', 99)\<rparr>)
    | H_renew p \<Rightarrow> ok_reply 50
    | _ \<Rightarrow> ok_reply 0)"

definition one_sender_reactor :: udp_reactor where
  "one_sender_reactor = (UdpReactor_new (Some 40) 8096)\<lparr>ur_fd := 3, ur_epfd := 4, ur_ep_size := 10\<rparr>"

lemma one_sender_run:
  "\<exists>l'. udp_rounds one_sender_os 3 one_sender_reactor [] = Some (one_sender_reactor, l')
    \<and> map fst l' = [C_epoll_wait 4 10 (- 1), C_recvfrom 3 8095, H_renew 40, H_input_udp 50 ''1.2.3.4'' 99 [7, 8],
        C_epoll_wait 4 10 (- 1), C_recvfrom 3 8095, H_input_udp 50 ''1.2.3.4'' 99 [7, 8],
        C_epoll_wait 4 10 (- 1), C_recvfrom 3 8095, H_close_udp 50 ''1.2.3.4'' 99, H_delete 50]"
  by (simp add: eval_nat_numeral one_sender_os_def one_sender_reactor_def UdpReactor_new_def UdpReactor_svc_def
      on_datagram_def syscall_def do_call_eq Let_def ok_reply_def EPOLLIN_def map_insert_def c_str_def
      format_s_u_def show_nat.simps digit_char_def)

lemma udp_senders_witness:
  "\<exists>l'. udp_rounds one_sender_os 3 one_sender_reactor [] = Some (one_sender_reactor, l')
    \<and> H_delete 50 \<in> fst ` set l' \<and> udp_life_run l' (udp_idle (\<lambda>p. None)) = Some (udp_idle (\<lambda>p. None))"
proof -
  obtain l' where run: "udp_rounds one_sender_os 3 one_sender_reactor [] = Some (one_sender_reactor, l')"
      and calls: "H_delete 50 \<in> set (map fst l')"
    using one_sender_run by force
  have h: "ur_handlers one_sender_reactor = []" by (simp add: one_sender_reactor_def UdpReactor_new_def)
  have none: "(\<lambda>(ip, port). if CHR 0x00 \<in> set ip then None
      else map_find (ur_handlers one_sender_reactor) (ip @ ''_'' @ show_nat (unat (port :: ushort)))) = (\<lambda>p. None)"
    by (auto simp: h)
  from udp_senders [OF h run] show ?thesis using run calls unfolding none by auto
qed

text \<open>A system on which \<open>bind\<close> fails.\<close>

definition no_bind_os :: os where
  "no_bind_os n c = (case c of
      C_getrlimit k \<Rightarrow> (ok_reply 0)\<lparr>nums := [1024]\<rparr>
    | C_epoll_create k \<Rightarrow> ok_reply 5
    | C_socket k \<Rightarrow> ok_reply 6
    | C_bind fd ip port \<Rightarrow> ok_reply (- 1)
    | _ \<Rightarrow> ok_reply 0)"

lemma udp_reactor_init_release_witness:
  "\<exists>R l1 R2 m2. UdpReactor_do_init no_bind_os (Some StUdpReactorAgrs) (UdpReactor_new (Some 1) 8096) [] = (- 1, R, l1)
    \<and> open_fds l1 {0} = {0, 5} \<and> UdpReactor_release no_bind_os R l1 = Some (R2, l1 @ m2)
    \<and> open_fds m2 {0, 5, 6} = {0}"
proof -
  obtain ret R l1 where i:
      "UdpReactor_do_init no_bind_os (Some StUdpReactorAgrs) (UdpReactor_new (Some 1) 8096) [] = (ret, R, l1)"
    by (metis prod_cases3)
  have k: "ret = - 1" "ur_fd R = 6" "ur_epfd R = 5" and o: "open_fds l1 {0} = {0, 5}"
    using i by (auto simp: UdpReactor_do_init_def StUdpReactorAgrs_def get_rlimit_def
        UdpReactor_epoller_create_def do_bind_def set_reuseaddr_def set_non_bolck_def set_rcvbuf_def
        UdpReactor_epoller_ctl_def syscall_def do_call_eq Let_def no_bind_os_def ok_reply_def
        UdpReactor_new_def fd_effect_def)
  have "\<forall>n sz. - 1 \<le> rv (no_bind_os n (C_epoll_create sz))" by (simp add: no_bind_os_def ok_reply_def)
  from udp_reactor_init_release [OF i this, of no_bind_os l1] k i o show ?thesis by fastforce
qed

end
