(* ===== verification/UdpServer.thy ===== *)
theory UdpServer
  imports UdpReactor
begin

text \<open>
  The whole life of a server for datagrams (UdpReactor.cpp on Thread.cpp): \<open>do_init\<close>, the thread that
  runs \<open>svc\<close> until it is stopped, and \<open>release\<close>.
\<close>

section \<open>The thread of the reactor\<close>

text \<open>Every key of the map is the text of an address and a port.\<close>

definition sender_key :: "string \<Rightarrow> bool" where
  "sender_key key \<longleftrightarrow> (\<exists>ip port. key = format_s_u (c_str ip) (unat (port :: ushort)))"

definition keys_ok :: "udp_reactor \<Rightarrow> bool" where
  "keys_ok R \<longleftrightarrow> map_wf (ur_handlers R) \<and> (\<forall>id h. map_find (ur_handlers R) id = Some h \<longrightarrow> sender_key id)"

lemma sender_key_text [simp]: "sender_key (format_s_u (c_str ip) (unat (port :: ushort)))"
  by (auto simp: sender_key_def)

lemma on_datagram_keys:
  assumes "keys_ok R" and "on_datagram os R l = Some (R', l')" shows "keys_ok R'"
  using assms
  by (auto simp: on_datagram_def keys_ok_def syscall_def Let_def split: if_splits option.splits if_split_asm)

lemma udp_events_keys:
  "udp_events os evs R l = Some (R', l') \<Longrightarrow> keys_ok R \<Longrightarrow> keys_ok R'"
  by (induction os evs R l rule: udp_events.induct) (auto split: if_splits dest: on_datagram_keys)

lemma udp_svc_keys:
  assumes "UdpReactor_svc os R l = Some (r, R', l')" and "keys_ok R" shows "keys_ok R'"
  using assms
  by (auto simp: UdpReactor_svc_def syscall_def Let_def bind_eq_Some_conv split: if_splits dest: udp_events_keys)

lemma keys_ok_live:
  assumes "keys_ok R" shows "ur_handlers R = [] \<longleftrightarrow> (\<forall>p. live_of (ur_handlers R) p = None)"
proof
  assume none: "\<forall>p. live_of (ur_handlers R) p = None"
  show "ur_handlers R = []"
  proof (rule ccontr)
    assume "ur_handlers R \<noteq> []"
    then obtain id h M where "ur_handlers R = (id, h) # M" by (cases "ur_handlers R") auto
    then have h: "map_find (ur_handlers R) id = Some h" by simp
    with assms obtain ip port where "id = format_s_u (c_str ip) (unat (port :: ushort))"
      unfolding keys_ok_def sender_key_def by blast
    with h have "live_of (ur_handlers R) (c_str ip, port) = Some h" by simp
    with none show False by (metis option.distinct(1))
  qed
qed (simp add: live_of_def)

interpretation udp_thread: threaded "UdpReactor_svc os" keys_ok udp_piece for os
proof unfold_locales
  fix R l r R' l'
  assume "UdpReactor_svc os R l = Some (r, R', l')" and "keys_ok R"
  with udp_svc_piece [OF this(1)] udp_svc_keys show "keys_ok R' \<and> (\<exists>m. l' = l @ m \<and> udp_piece R R' m)" by blast
next
  show "udp_piece R R [(H_prepare, q)]" "udp_piece R R [(C_attr_destroy, q)]" for R q
    by (auto simp: udp_piece_def udp_log_simps)
qed (rule udp_piece_trans)

section \<open>Releasing\<close>

lemma release_defined:
  "UdpReactor_release os R l = None \<longleftrightarrow> ur_handlers R \<noteq> []"
  by (cases "ur_handlers R"; cases "ur_handler R") (simp_all add: UdpReactor_release_def Let_def)

lemma release_fds:
  assumes "UdpReactor_release os R l = Some (R', l')"
  shows "\<exists>m. l' = l @ m \<and> ur_handlers R' = [] \<and> (\<forall>S. open_fds m S = S - {ur_epfd R, ur_fd R})"
  using assms
  by (cases "ur_handlers R"; cases "ur_handler R")
     (auto simp: UdpReactor_release_def Let_def do_call_eq fd_effect_def)

section \<open>Properties\<close>

text \<open>
  C4: a server for datagrams that was started, ran in its thread and has stopped. While it ran, the
  handlers saw exactly what the automaton of a sender's life allows. \<open>release\<close> is defined only if
  no sender is alive then, since it uses an iterator after erasing its entry; if it is, the descriptors
  open at the end are those that were open before the start.
\<close>

theorem udp_whole_run:
  assumes "UdpReactor_do_init os args (UdpReactor_new h bs) l = (0, R1, l1)"
    and "thread_proc os (UdpReactor_svc os) stops t R1 l1 = Some (t2, R2, l2)"
    and "\<forall>n sz. - 1 \<le> rv (os n (C_epoll_create sz))"
  shows "\<exists>k m alive. l1 = l @ k \<and> l2 = l1 @ m
    \<and> udp_life_run m (udp_idle (\<lambda>p. None)) = Some (udp_idle alive)
    \<and> (UdpReactor_release os R2 l2 = None \<longleftrightarrow> (\<exists>p. alive p \<noteq> None))
    \<and> (\<forall>R3 l3. UdpReactor_release os R2 l2 = Some (R3, l3) \<longrightarrow>
        (\<exists>q. l3 = l2 @ q \<and> (\<forall>S. fresh_fds S k \<and> (\<forall>f \<in> S. 0 \<le> f) \<longrightarrow> open_fds (k @ m @ q) S = S)))"
proof -
  from do_init_fds [OF assms(1,3)] obtain k where k: "l1 = l @ k" "ur_handlers R1 = []"
      "\<And>S. fresh_fds S k \<Longrightarrow> \<forall>f \<in> S. 0 \<le> f \<Longrightarrow> open_fds k S = S \<union> {ur_fd R1, ur_epfd R1}
        \<and> ur_fd R1 \<notin> S \<and> ur_epfd R1 \<notin> S" by auto
  have start: "keys_ok R1" "sender_state R1 = udp_idle (\<lambda>p. None)"
    using k(2) by (simp_all add: keys_ok_def sender_state_def udp_idle_def live_of_def fun_eq_iff)
  from udp_thread.thread_piece [OF assms(2) start(1)] obtain m where
    m: "keys_ok R2" "l2 = l1 @ m" "udp_piece R1 R2 m" by blast
  from m(3) k(2) have "udp_life_run m (sender_state R1) = Some (sender_state R2)"
    unfolding udp_piece_def by simp
  then have life: "udp_life_run m (udp_idle (\<lambda>p. None)) = Some (udp_idle (live_of (ur_handlers R2)))"
    unfolding start(2) by (simp add: sender_state_def)
  have undef: "UdpReactor_release os R2 l2 = None \<longleftrightarrow> (\<exists>p. live_of (ur_handlers R2) p \<noteq> None)"
    using keys_ok_live [OF m(1)] by (simp add: release_defined)
  have closed: "\<exists>q. l3 = l2 @ q \<and> (\<forall>S. fresh_fds S k \<and> (\<forall>f \<in> S. 0 \<le> f) \<longrightarrow> open_fds (k @ m @ q) S = S)"
    if r: "UdpReactor_release os R2 l2 = Some (R3, l3)" for R3 l3
  proof -
    from release_fds [OF r] obtain q where q: "l3 = l2 @ q" "\<And>S. open_fds q S = S - {ur_epfd R2, ur_fd R2}" by blast
    have m3: "\<And>S. open_fds m S = S" "ur_fd R2 = ur_fd R1" "ur_epfd R2 = ur_epfd R1"
      using m(3) by (simp_all add: udp_piece_def)
    have "open_fds (k @ m @ q) S = S" if "fresh_fds S k" "\<forall>f \<in> S. 0 \<le> f" for S
    proof -
      from k(3) [OF that] have "open_fds k S = S \<union> {ur_fd R1, ur_epfd R1}" "ur_fd R1 \<notin> S" "ur_epfd R1 \<notin> S"
        by blast+
      then show ?thesis unfolding open_fds_append m3(1) q(2) m3(2,3) by blast
    qed
    with q(1) show ?thesis by blast
  qed
  show ?thesis
    by (rule exI [of _ k], rule exI [of _ m], rule exI [of _ "live_of (ur_handlers R2)"])
       (intro conjI allI impI k(1) m(2) life undef closed)
qed

text \<open>A system with one sender, whose second datagram is empty.\<close>

definition short_os :: os where
  "short_os n c = (case c of
      C_getrlimit k \<Rightarrow> (ok_reply 0)\<lparr>nums := [1024]\<rparr>
    | C_epoll_create k \<Rightarrow> ok_reply 5
    | C_socket k \<Rightarrow> ok_reply 6
    | C_epoll_wait ep k t \<Rightarrow> (ok_reply 1)\<lparr>ready := [(6, EPOLLIN)]\<rparr>
    | C_recvfrom fd len \<Rightarrow> (if n < 14 then (ok_reply 2)\<lparr>bytes := [7, 8], peer := (''1.2.3.4'', 99)\<rparr>
         else (ok_reply 0)\<lparr>peer := (''1.2.3.4'', 99)\<rparr>)
    | H_renew p \<Rightarrow> ok_reply 50
    | _ \<Rightarrow> ok_reply 0)"

lemma udp_whole_run_witness:
  "\<exists>R1 l1 t2 R2 l2 R3 l3 t4 R4 l4.
     UdpReactor_do_init short_os (Some StUdpReactorAgrs) (UdpReactor_new (Some 40) 8096) [] = (0, R1, l1)
     \<and> thread_proc short_os (UdpReactor_svc short_os) (\<lambda>n. n = 1) Thread_new R1 l1 = Some (t2, R2, l2)
     \<and> UdpReactor_release short_os R2 l2 = Some (R3, l3) \<and> open_fds l3 {0} = {0}
     \<and> thread_proc short_os (UdpReactor_svc short_os) (\<lambda>n. True) Thread_new R1 l1 = Some (t4, R4, l4)
     \<and> UdpReactor_release short_os R4 l4 = None"
proof -
  obtain ret R1 l1 where i:
      "UdpReactor_do_init short_os (Some StUdpReactorAgrs) (UdpReactor_new (Some 40) 8096) [] = (ret, R1, l1)"
    by (metis prod_cases3)
  have k: "ret = 0" "ur_fd R1 = 6" "ur_epfd R1 = 5" "ur_handlers R1 = []" "ur_handler R1 = Some 40"
      "length l1 = 9" "fresh_fds {0} l1"
    using i by (auto simp: UdpReactor_do_init_def StUdpReactorAgrs_def get_rlimit_def
        UdpReactor_epoller_create_def do_bind_def set_reuseaddr_def set_non_bolck_def set_rcvbuf_def
        UdpReactor_epoller_ctl_def syscall_def do_call_eq Let_def short_os_def ok_reply_def
        UdpReactor_new_def fd_effect_def new_fd_def)
  note run_simps = thread_proc_def svc_loop.simps UdpReactor_svc_def on_datagram_def syscall_def do_call_eq Let_def
    Thread_clean_up_def short_os_def ok_reply_def EPOLLIN_def map_insert_def c_str_def format_s_u_def
    show_nat.simps digit_char_def
  obtain t2 R2 l2 where p: "thread_proc short_os (UdpReactor_svc short_os) (\<lambda>n. n = 1) Thread_new R1 l1 = Some (t2, R2, l2)"
      and R2: "ur_handlers R2 = []"
    using k by (simp add: run_simps)
  obtain t4 R4 l4 where q: "thread_proc short_os (UdpReactor_svc short_os) (\<lambda>n. True) Thread_new R1 l1 = Some (t4, R4, l4)"
      and R4: "ur_handlers R4 \<noteq> []"
    using k by (simp add: run_simps)
  have e: "\<forall>n sz. - 1 \<le> rv (short_os n (C_epoll_create sz))" by (simp add: short_os_def ok_reply_def)
  obtain R3 l3 where r: "UdpReactor_release short_os R2 l2 = Some (R3, l3)"
    using release_defined [of short_os R2 l2] R2 by (cases "UdpReactor_release short_os R2 l2") auto
  from udp_whole_run [OF i [unfolded k(1)] p e] r k(7) have "open_fds l3 {0} = {0}" by auto
  moreover from release_defined R4 have "UdpReactor_release short_os R4 l4 = None" by blast
  ultimately show ?thesis using i k(1) p q r by blast
qed

end
