(* ===== verification/TcpClientEpoll.thy ===== *)
theory TcpClientEpoll
  imports Thread OSUtils SocketUtils
begin

text \<open>
  src/ConnMgt/Conn.h and src/ConnMgt/TcpClientEpoll.cpp: a TCP client, blocking or with a thread
  that waits for input on an epoll instance of its own. A handler is a numbered object whose
  methods are outside calls. Calling a method of the null handler is \<open>None\<close>; a mutex guard
  around a call is part of the call.
\<close>

section \<open>State and operations\<close>

record svr =
  svr_ip :: string
  svr_ip_out :: string
  svr_port :: ushort
  svr_domain :: string

record tcp_client =
  cl_svr :: svr
  cl_fd :: int
  cl_open :: bool
  cl_asyn :: bool
  cl_handler :: "nat option"
  cl_stop_epoll :: bool
  cl_epfd :: int
  cl_ep_events :: bool
  cl_ep_size :: int

definition TcpClientEpoll_new :: "svr \<Rightarrow> bool \<Rightarrow> nat option \<Rightarrow> tcp_client" where
  "TcpClientEpoll_new s asyn h = \<lparr>cl_svr = s, cl_fd = - 1, cl_open = False, cl_asyn = asyn, cl_handler = h,
     cl_stop_epoll = False, cl_epfd = - 1, cl_ep_events = False, cl_ep_size = 0\<rparr>"

definition TcpClientEpoll_epoller_create :: "os \<Rightarrow> int \<Rightarrow> tcp_client \<Rightarrow> log \<Rightarrow> int \<times> tcp_client \<times> log" where
  "TcpClientEpoll_epoller_create os sz c l =
     (let (r, l) = syscall os (C_epoll_create sz) l; c = c\<lparr>cl_epfd := rv r\<rparr> in
      if cl_epfd c = - 1 then (- 1, c, l)
      else (0, c\<lparr>cl_ep_size := sz, cl_ep_events := True\<rparr>, l))"

definition TcpClientEpoll_epoller_ctl ::
  "os \<Rightarrow> tcp_client \<Rightarrow> int \<Rightarrow> ep_op \<Rightarrow> uint \<Rightarrow> log \<Rightarrow> int \<times> log" where
  "TcpClientEpoll_epoller_ctl os c fd op events l =
     (let (r, l) = syscall os (C_epoll_ctl (cl_epfd c) op fd events) l in (rv r, l))"

definition TcpClientEpoll_do_init :: "os \<Rightarrow> tcp_client \<Rightarrow> log \<Rightarrow> int \<times> tcp_client \<times> log" where
  "TcpClientEpoll_do_init os c l =
     (if cl_asyn c then
        (let (nRet, rlim_cur, l) = get_rlimit os RLIMIT_NOFILE l in
         if nRet \<noteq> 0 then (nRet, c, l)
         else
           (let sz = as_int rlim_cur;
                (nRet, c, l) = TcpClientEpoll_epoller_create os sz c l in
            if nRet \<noteq> 0 then (nRet, c, l)
            else
              (let (nRet, l) = TcpClientEpoll_epoller_ctl os c (cl_fd c) EPOLL_CTL_ADD EPOLLIN l in
               if nRet \<noteq> 0 then (nRet, c, l)
               else (let (nRet, l) = signal_mask os SIG_BLOCK [SIGINT] l in (nRet, c, l)))))
      else (- 1, c, l))"

definition TcpClientEpoll_connect :: "os \<Rightarrow> tcp_client \<Rightarrow> log \<Rightarrow> int \<times> tcp_client \<times> log" where
  "TcpClientEpoll_connect os c l =
     (if cl_open c then (- 1, c, l)
      else
        (let (r, l) = syscall os (C_socket SOCK_STREAM) l; c = c\<lparr>cl_fd := rv r\<rparr> in
         if cl_fd c < 0 then (- 1, c\<lparr>cl_fd := - 1\<rparr>, l)
         else
           (let (nRet, l) = SocketUtils_connect_s os (cl_fd c) (svr_ip (cl_svr c)) (svr_port (cl_svr c)) 1 l in
            if nRet \<noteq> 0 then
              (let l = do_call os (C_close (cl_fd c)) l in (nRet, c\<lparr>cl_fd := - 1\<rparr>, l))
            else if \<not> cl_asyn c then (nRet, c\<lparr>cl_open := True\<rparr>, l)
            else
              (let (nRet, c, l) = TcpClientEpoll_do_init os c l in
               if nRet \<noteq> 0 then
                 (let l = do_call os (C_close (cl_fd c)) l in (nRet, c\<lparr>cl_fd := - 1\<rparr>, l))
               else
                 (let (r, l) = syscall os C_thread_create l; nRet = rv r in
                  if nRet \<noteq> 0 then
                    (let (_, l) = TcpClientEpoll_epoller_ctl os c (cl_fd c) EPOLL_CTL_DEL 0 l;
                         l = do_call os (C_close (cl_epfd c)) l;
                         c = c\<lparr>cl_epfd := - 1\<rparr>;
                         l = do_call os (C_close (cl_fd c)) l
                     in (nRet, c\<lparr>cl_fd := - 1\<rparr>, l))
                  else
                    (let l = do_call os (C_thread_detach (nums r ! 0)) l
                     in (nRet, c\<lparr>cl_open := True\<rparr>, l)))))))"

definition TcpClientEpoll_send ::
  "os \<Rightarrow> uchar list \<Rightarrow> uint \<Rightarrow> int \<Rightarrow> uint \<Rightarrow> tcp_client \<Rightarrow> log \<Rightarrow> (int \<times> uint \<times> log) option" where
  "TcpClientEpoll_send os buf len flags timeout c l =
     (if \<not> cl_open c then Some (- 1, len, l)
      else SocketUtils_send_n os (cl_fd c) buf len flags timeout l)"

definition TcpClientEpoll_rcv ::
  "os \<Rightarrow> uint \<Rightarrow> uint \<Rightarrow> tcp_client \<Rightarrow> log \<Rightarrow> (int \<times> uint \<times> uchar list \<times> log) option" where
  "TcpClientEpoll_rcv os len timeout c l =
     (if \<not> cl_open c then Some (- 1, len, [], l)
      else if \<not> cl_asyn c then SocketUtils_recv os (cl_fd c) len timeout l
      else Some (- 2, len, [], l))"

definition TcpClientEpoll_close :: "os \<Rightarrow> tcp_client \<Rightarrow> log \<Rightarrow> tcp_client \<times> log" where
  "TcpClientEpoll_close os c l =
     (if \<not> cl_open c then (c, l)
      else
        (let (c, l) =
               (if cl_asyn c then
                  (let c = c\<lparr>cl_stop_epoll := True\<rparr>;
                       (_, l) = TcpClientEpoll_epoller_ctl os c (cl_fd c) EPOLL_CTL_DEL 0 l;
                       l = do_call os (C_close (cl_epfd c)) l
                   in (c\<lparr>cl_epfd := - 1\<rparr>, l))
                else (c, l));
             l = do_call os (C_close (cl_fd c)) l
         in (c\<lparr>cl_open := False, cl_fd := - 1\<rparr>, l)))"

definition TcpClientEpoll_delete :: "os \<Rightarrow> tcp_client \<Rightarrow> log \<Rightarrow> log" where
  "TcpClientEpoll_delete os c l =
     (let (c, l) = TcpClientEpoll_close os c l in
      if cl_asyn c then (case cl_handler c of None \<Rightarrow> l | Some h \<Rightarrow> do_call os (H_delete h) l)
      else l)"

definition TcpClientEpoll_is_close :: "tcp_client \<Rightarrow> bool" where
  "TcpClientEpoll_is_close c \<longleftrightarrow> \<not> cl_open c"

definition do_stop_epoll :: "tcp_client \<Rightarrow> bool" where
  "do_stop_epoll c = cl_stop_epoll c"

text \<open>The thread of a client with \<open>asyn\<close> set: one ready event, all events of a round, a round.\<close>

definition on_client_event :: "os \<Rightarrow> int \<times> uint \<Rightarrow> tcp_client \<Rightarrow> log \<Rightarrow> (tcp_client \<times> log) option" where
  "on_client_event os ev c l =
     (let (fd, events) = ev in
      if events AND EPOLLIN \<noteq> 0 then
        (case cl_handler c of
           None \<Rightarrow> None
         | Some h \<Rightarrow>
             (let (r, l) = syscall os (H_input h fd) l in
              if rv r \<noteq> 0 then
                (let (_, _, l) = get_local_socket os (cl_fd c) l;
                     (_, _, l) = get_remote_socket os (cl_fd c) l;
                     (_, l) = TcpClientEpoll_epoller_ctl os c (cl_fd c) EPOLL_CTL_DEL 0 l;
                     l = do_call os (H_close h (cl_fd c)) l
                 in Some (TcpClientEpoll_close os c l))
              else Some (c, l)))
      else Some (c, l))"

fun client_events :: "os \<Rightarrow> (int \<times> uint) list \<Rightarrow> tcp_client \<Rightarrow> log \<Rightarrow> (tcp_client \<times> log) option" where
  "client_events os [] c l = Some (c, l)"
| "client_events os (ev # evs) c l = do { (c, l) \<leftarrow> on_client_event os ev c l; client_events os evs c l }"

definition tcp_epoll_cb :: "os \<Rightarrow> tcp_client \<Rightarrow> log \<Rightarrow> (int \<times> tcp_client \<times> log) option" where
  "tcp_epoll_cb os c l =
     (let (r, l) = syscall os (C_epoll_wait (cl_epfd c) (cl_ep_size c) 1000) l; fd_cnt = rv r in
      if fd_cnt > 0 then
        do { (c, l) \<leftarrow> client_events os (take (nat fd_cnt) (ready r)) c l; Some (0, c, l) }
      else if fd_cnt = 0 then Some (0, c, l)
      else if err r = EINTR then Some (0, c, l)
      else Some (- 1, c, l))"

partial_function (option) epoll_thread_cb :: "os \<Rightarrow> tcp_client \<Rightarrow> log \<Rightarrow> (tcp_client \<times> log) option" where
  "epoll_thread_cb os c l =
     do { (r, c, l) \<leftarrow> tcp_epoll_cb os c l; epoll_thread_cb os c l }"

section \<open>Descriptors\<close>

text \<open>The descriptors a client holds, and what it means that \<open>S\<close> is open with those of \<open>S0\<close> not its own.\<close>

definition client_fds :: "tcp_client \<Rightarrow> int set" where
  "client_fds c = (if cl_open c then insert (cl_fd c) (if cl_asyn c then {cl_epfd c} else {}) else {})"

definition client_holds :: "tcp_client \<Rightarrow> int set \<Rightarrow> int set \<Rightarrow> bool" where
  "client_holds c S0 S \<longleftrightarrow> S = S0 \<union> client_fds c \<and> S0 \<inter> client_fds c = {}
     \<and> (cl_open c \<longrightarrow> 0 \<le> cl_fd c)"

definition epoll_contract :: "os \<Rightarrow> bool" where
  "epoll_contract os \<longleftrightarrow> (\<forall>n sz. - 1 \<le> rv (os n (C_epoll_create sz)))"

text \<open>The epoll instances that the calls of a log made.\<close>

definition epoll_made :: "log \<Rightarrow> int set" where
  "epoll_made m = {e. \<exists>n r. (C_epoll_create n, r) \<in> set m \<and> rv r = e}"

lemma epoll_made_simps [simp]:
  "epoll_made [] = {}"
  "epoll_made (e # m) = (case fst e of C_epoll_create n \<Rightarrow> insert (rv (snd e)) (epoll_made m) | _ \<Rightarrow> epoll_made m)"
  "epoll_made (m @ n) = epoll_made m \<union> epoll_made n"
  by (cases e; cases "fst e"; auto simp: epoll_made_def)+

text \<open>
  The instances that a log loses, and no others: the instance made last is lost if the socket is
  then not added to it, or the signals are not masked. \<open>p\<close> is that instance until its fate is known.
\<close>

fun epoll_lost_from :: "int option \<Rightarrow> log \<Rightarrow> int set" where
  "epoll_lost_from p [] = {}"
| "epoll_lost_from p (e # m) = (case fst e of
     C_epoll_create n \<Rightarrow> epoll_lost_from (if rv (snd e) = - 1 then None else Some (rv (snd e))) m
   | C_epoll_ctl ep op fd ev \<Rightarrow>
       (if op = EPOLL_CTL_ADD \<and> rv (snd e) \<noteq> 0 then set_option p \<union> epoll_lost_from None m
        else epoll_lost_from p m)
   | C_sigmask how sigs \<Rightarrow>
       (if rv (snd e) \<noteq> 0 then set_option p \<union> epoll_lost_from None m else epoll_lost_from None m)
   | _ \<Rightarrow> epoll_lost_from p m)"

definition epoll_lost :: "log \<Rightarrow> int set" where
  "epoll_lost m = epoll_lost_from None m"

definition loses :: "log \<Rightarrow> int set \<Rightarrow> bool" where
  "loses m k \<longleftrightarrow> (\<forall>n. epoll_lost_from None (m @ n) = k \<union> epoll_lost_from None n)"

lemma loses_Nil: "loses [] {}"
  by (simp add: loses_def)

lemma loses_append: "loses m k \<Longrightarrow> loses n j \<Longrightarrow> loses (m @ n) (k \<union> j)"
  by (simp add: loses_def Un_assoc)

lemma loses_lost: "loses m k \<Longrightarrow> epoll_lost m = k"
  by (metis loses_def epoll_lost_def append_Nil2 epoll_lost_from.simps(1) Un_empty_right)

text \<open>
  What \<open>do_init\<close> opens: the epoll instance, which a failure after its creation leaves open.
\<close>

lemma client_do_init_fds:
  assumes "TcpClientEpoll_do_init os c l = (ret, c', l')" and "epoll_contract os"
  shows "\<exists>m k. l' = l @ m \<and> cl_svr c' = cl_svr c \<and> cl_fd c' = cl_fd c \<and> cl_open c' = cl_open c
    \<and> cl_asyn c' = cl_asyn c \<and> cl_handler c' = cl_handler c \<and> k \<subseteq> {cl_epfd c'} \<and> k \<subseteq> epoll_made m
    \<and> (ret = 0 \<longrightarrow> k = {cl_epfd c'}) \<and> loses m (if ret = 0 then {} else k)
    \<and> (\<forall>S. open_fds m S = S \<union> k \<and> (fresh_fds S m \<longrightarrow> S \<inter> k = {}))"
proof (cases "cl_asyn c")
  case False
  then show ?thesis
    using assms by (intro exI [of _ "[]"] exI [of _ "{}"]) (auto simp: TcpClientEpoll_do_init_def loses_Nil)
next
  case True
  define r where "r = os (length l) (C_getrlimit RLIMIT_NOFILE)"
  define sz where "sz = as_int (nums r ! 0)"
  define p where "p = os (Suc (length l)) (C_epoll_create sz)"
  define e where "e = C_epoll_ctl (rv p) EPOLL_CTL_ADD (cl_fd c) EPOLLIN"
  define q where "q = os (Suc (Suc (length l))) e"
  let ?c = "c\<lparr>cl_epfd := rv p, cl_ep_size := sz, cl_ep_events := True\<rparr>"
  let ?l = "l @ [(C_getrlimit RLIMIT_NOFILE, r), (C_epoll_create sz, p)]"
  have eq: "TcpClientEpoll_do_init os c l =
     (if rv r \<noteq> 0 then (rv r, c, l @ [(C_getrlimit RLIMIT_NOFILE, r)])
      else if rv p = - 1 then (- 1, c\<lparr>cl_epfd := - 1\<rparr>, ?l)
      else if rv q \<noteq> 0 then (rv q, ?c, ?l @ [(e, q)])
      else (let (nRet, l) = signal_mask os SIG_BLOCK [SIGINT] (?l @ [(e, q)]) in (nRet, ?c, l)))"
    using True
    by (simp add: TcpClientEpoll_do_init_def get_rlimit_def TcpClientEpoll_epoller_create_def
        TcpClientEpoll_epoller_ctl_def syscall_def Let_def r_def sz_def p_def e_def q_def)
  have "- 1 \<le> rv p" using assms(2) by (simp add: epoll_contract_def p_def)
  then have p: "rv p \<noteq> - 1 \<Longrightarrow> 0 \<le> rv p" by simp
  consider "rv r \<noteq> 0" | "rv r = 0" "rv p = - 1" | "rv r = 0" "rv p \<noteq> - 1" "rv q \<noteq> 0"
    | "rv r = 0" "rv p \<noteq> - 1" "rv q = 0" by blast
  then show ?thesis
  proof cases
    case 1
    then have "c' = c" "l' = l @ [(C_getrlimit RLIMIT_NOFILE, r)]" "ret \<noteq> 0" using assms(1) by (auto simp: eq)
    then show ?thesis by (intro exI [of _ "[(C_getrlimit RLIMIT_NOFILE, r)]"] exI [of _ "{}"])
        (auto simp: fd_effect_def loses_def)
  next
    case 2
    then have "c' = c\<lparr>cl_epfd := - 1\<rparr>" "l' = ?l" "ret = - 1" using assms(1) by (auto simp: eq)
    with 2 show ?thesis
      by (intro exI [of _ "[(C_getrlimit RLIMIT_NOFILE, r), (C_epoll_create sz, p)]"] exI [of _ "{}"])
         (auto simp: fd_effect_def loses_def)
  next
    case 3
    then have "c' = ?c" "l' = ?l @ [(e, q)]" "ret = rv q" using assms(1) by (auto simp: eq)
    with 3 p show ?thesis
      by (intro exI [of _ "[(C_getrlimit RLIMIT_NOFILE, r), (C_epoll_create sz, p), (e, q)]"] exI [of _ "{rv p}"])
         (auto simp: fd_effect_def new_fd_def e_def loses_def)
  next
    case 4
    obtain x y g where m: "signal_mask os SIG_BLOCK [SIGINT] (?l @ [(e, q)])
        = (rv y, (?l @ [(e, q)]) @ [(C_sigaddset SIGINT, x), (C_sigmask SIG_BLOCK g, y)])"
      by (simp add: signal_mask_def syscall_def Let_def)
    have "c' = ?c" "l' = (?l @ [(e, q)]) @ [(C_sigaddset SIGINT, x), (C_sigmask SIG_BLOCK g, y)]" "ret = rv y"
      using assms(1) 4 m by (auto simp: eq)
    with 4 p show ?thesis
      by (intro exI [of _ "[(C_getrlimit RLIMIT_NOFILE, r), (C_epoll_create sz, p), (e, q)]
            @ [(C_sigaddset SIGINT, x), (C_sigmask SIG_BLOCK g, y)]"] exI [of _ "{rv p}"])
         (auto simp: fd_effect_def new_fd_def e_def loses_def)
  qed
qed

lemma client_close_fds:
  assumes "TcpClientEpoll_close os c l = (c', l')"
  shows "\<exists>m. l' = l @ m \<and> cl_svr c' = cl_svr c \<and> cl_asyn c' = cl_asyn c \<and> \<not> cl_open c'
    \<and> cl_handler c' = cl_handler c
    \<and> (cl_open c \<and> cl_asyn c \<longrightarrow> cl_stop_epoll c' \<and> cl_epfd c' = - 1) \<and> loses m {}
    \<and> (\<forall>S0 S. client_holds c S0 S \<longrightarrow> client_holds c' S0 (open_fds m S))"
  using assms
  by (auto simp: TcpClientEpoll_close_def TcpClientEpoll_epoller_ctl_def syscall_def do_call_eq Let_def
      client_holds_def client_fds_def fd_effect_def loses_def split: if_splits)

text \<open>What \<open>connect\<close> opens; \<open>k\<close> is an epoll instance that a failure leaves open.\<close>

lemma client_connect_fds:
  assumes "TcpClientEpoll_connect os c l = (ret, c', l')" and "cl_asyn c \<longrightarrow> epoll_contract os"
  shows "\<exists>m k. l' = l @ m \<and> cl_svr c' = cl_svr c \<and> cl_asyn c' = cl_asyn c \<and> cl_handler c' = cl_handler c
    \<and> k \<subseteq> epoll_made m \<and> loses m k \<and> (k \<noteq> {} \<longrightarrow> cl_asyn c \<and> ret \<noteq> 0)
    \<and> (cl_open c' \<longleftrightarrow> cl_open c \<or> ret = 0)
    \<and> (\<forall>S0 S. client_holds c S0 S \<and> fresh_fds S m \<longrightarrow> client_holds c' (S0 \<union> k) (open_fds m S))"
proof (cases "cl_open c")
  case True
  then show ?thesis
    using assms(1) by (intro exI [of _ "[]"] exI [of _ "{}"]) (auto simp: TcpClientEpoll_connect_def loses_Nil)
next
  case closed: False
  define s where "s = os (length l) (C_socket SOCK_STREAM)"
  define fd where "fd = rv s"
  define k where "k = C_connect fd (c_str (svr_ip (cl_svr c))) (svr_port (cl_svr c))"
  define r where "r = os (Suc (length l)) k"
  let ?a = "[(C_socket SOCK_STREAM, s)]" and ?b = "[(C_socket SOCK_STREAM, s), (k, r)]"
  let ?c = "c\<lparr>cl_fd := fd\<rparr>"
  have eq: "TcpClientEpoll_connect os c l =
     (if fd < 0 then (- 1, c\<lparr>cl_fd := - 1\<rparr>, l @ ?a)
      else if rv r \<noteq> 0 then (rv r, c\<lparr>cl_fd := - 1\<rparr>, do_call os (C_close fd) (l @ ?b))
      else if \<not> cl_asyn c then (0, ?c\<lparr>cl_open := True\<rparr>, l @ ?b)
      else
        (let (nRet, c, l) = TcpClientEpoll_do_init os ?c (l @ ?b) in
         if nRet \<noteq> 0 then (let l = do_call os (C_close (cl_fd c)) l in (nRet, c\<lparr>cl_fd := - 1\<rparr>, l))
         else
           (let (r, l) = syscall os C_thread_create l; nRet = rv r in
            if nRet \<noteq> 0 then
              (let (_, l) = TcpClientEpoll_epoller_ctl os c (cl_fd c) EPOLL_CTL_DEL 0 l;
                   l = do_call os (C_close (cl_epfd c)) l;
                   c = c\<lparr>cl_epfd := - 1\<rparr>;
                   l = do_call os (C_close (cl_fd c)) l
               in (nRet, c\<lparr>cl_fd := - 1\<rparr>, l))
            else
              (let l = do_call os (C_thread_detach (nums r ! 0)) l
               in (nRet, c\<lparr>cl_open := True\<rparr>, l)))))"
    using closed
    by (simp add: TcpClientEpoll_connect_def SocketUtils_connect_s_def syscall_def [of os "C_socket SOCK_STREAM"]
        syscall_def [of os "C_connect _ _ _"] Let_def s_def [symmetric] fd_def [symmetric] k_def r_def)
  have none: "client_holds c S0 S \<longleftrightarrow> S = S0" for S0 S
    using closed by (auto simp: client_holds_def client_fds_def)
  consider "fd < 0" | "0 \<le> fd" "rv r \<noteq> 0" | "0 \<le> fd" "rv r = 0" "\<not> cl_asyn c" | "0 \<le> fd" "rv r = 0" "cl_asyn c"
    by linarith
  then show ?thesis
  proof cases
    case 1
    then have "c' = c\<lparr>cl_fd := - 1\<rparr>" "l' = l @ ?a" "ret = - 1" using assms(1) by (auto simp: eq)
    with 1 closed show ?thesis
      by (intro exI [of _ ?a] exI [of _ "{}"]) (auto simp: none client_holds_def client_fds_def fd_effect_def loses_def fd_def)
  next
    case 2
    then have "c' = c\<lparr>cl_fd := - 1\<rparr>" "ret = rv r" and l: "l' = do_call os (C_close fd) (l @ ?b)"
      using assms(1) by (auto simp: eq)
    moreover obtain q where "l' = l @ ?b @ [(C_close fd, q)]" using l by (auto simp: do_call_eq)
    ultimately show ?thesis using 2 closed
      by (intro exI [of _ "?b @ [(C_close fd, q)]"] exI [of _ "{}"])
         (auto simp: none client_holds_def client_fds_def fd_effect_def loses_def new_fd_def fd_def k_def)
  next
    case 3
    then have "c' = ?c\<lparr>cl_open := True\<rparr>" "l' = l @ ?b" "ret = 0" using assms(1) by (auto simp: eq)
    with 3 closed show ?thesis
      by (intro exI [of _ ?b] exI [of _ "{}"])
         (auto simp: none client_holds_def client_fds_def fd_effect_def loses_def new_fd_def fd_def k_def)
  next
    case 4
    obtain n c1 l1 where di: "TcpClientEpoll_do_init os ?c (l @ ?b) = (n, c1, l1)" by (metis prod_cases3)
    from client_do_init_fds [OF this assms(2) [rule_format, OF 4(3)]] obtain m e where
      m: "l1 = (l @ ?b) @ m" "cl_svr c1 = cl_svr c" "cl_fd c1 = fd" "\<not> cl_open c1" "cl_asyn c1"
         "cl_handler c1 = cl_handler c" "e \<subseteq> epoll_made m" "n = 0 \<longrightarrow> e = {cl_epfd c1}"
         "\<And>S. open_fds m S = S \<union> e" "\<And>S. fresh_fds S m \<Longrightarrow> S \<inter> e = {}" "loses m (if n = 0 then {} else e)"
      using closed 4 by (elim exE conjE) simp
    have o: "open_fds (?b @ m) S = insert fd S \<union> e" for S
      using m(9) 4 by (simp add: fd_effect_def fd_def k_def)
    have f: "fresh_fds S (?b @ m @ t) \<Longrightarrow> fd \<notin> S \<and> insert fd S \<inter> e = {}" for S t
      using m(10) [of "insert fd S"] 4 by (auto simp: fd_effect_def new_fd_def fd_def k_def fresh_fds_append)
    define t where "t = os (length l1) C_thread_create"
    show ?thesis
    proof (cases "n = 0")
      case False
      then obtain q where "c' = c1\<lparr>cl_fd := - 1\<rparr>" "ret = n" "l' = l @ (?b @ m @ [(C_close fd, q)])"
        using assms(1) 4 di m(1,3) by (auto simp: eq do_call_eq)
      then show ?thesis using False m 4 closed o f [of _ "[(C_close fd, q)]"]
        by (intro exI [of _ "?b @ m @ [(C_close fd, q)]"] exI [of _ e])
           (simp add: none client_holds_def client_fds_def fd_effect_def loses_def k_def; blast)
    next
      case ok: True
      show ?thesis
      proof (cases "rv t = 0")
        case True
        then obtain q x where "c' = c1\<lparr>cl_open := True\<rparr>" "ret = 0"
            "l' = l @ (?b @ m @ [(C_thread_create, t), (C_thread_detach x, q)])"
          using assms(1) 4 di m(1,3) ok by (auto simp: eq do_call_eq syscall_def Let_def t_def)
        then show ?thesis using True m 4 closed o ok f [of _ "[(C_thread_create, t), (C_thread_detach x, q)]"]
          by (intro exI [of _ "?b @ m @ [(C_thread_create, t), (C_thread_detach x, q)]"] exI [of _ "{}"])
             (simp add: none client_holds_def client_fds_def fd_effect_def loses_def k_def; blast)
      next
        case False
        then obtain q1 q2 q3 where "c' = c1\<lparr>cl_epfd := - 1, cl_fd := - 1\<rparr>" "ret = rv t"
            "l' = l @ (?b @ m @ [(C_thread_create, t), (C_epoll_ctl (cl_epfd c1) EPOLL_CTL_DEL fd 0, q1),
              (C_close (cl_epfd c1), q2), (C_close fd, q3)])"
          using assms(1) 4 di m(1,3) ok
          by (auto simp: eq do_call_eq syscall_def Let_def t_def TcpClientEpoll_epoller_ctl_def)
        then show ?thesis using False m 4 closed o ok f [of _ "[(C_thread_create, t),
              (C_epoll_ctl (cl_epfd c1) EPOLL_CTL_DEL fd 0, q1), (C_close (cl_epfd c1), q2), (C_close fd, q3)]"]
          by (intro exI [of _ "?b @ m @ [(C_thread_create, t), (C_epoll_ctl (cl_epfd c1) EPOLL_CTL_DEL fd 0, q1),
                (C_close (cl_epfd c1), q2), (C_close fd, q3)]"] exI [of _ "{}"])
             (simp add: none client_holds_def client_fds_def fd_effect_def loses_def k_def; blast)
      qed
    qed
  qed
qed

lemma on_client_event_fds:
  assumes "on_client_event os ev c l = Some (c', l')"
  shows "\<exists>m. l' = l @ m \<and> cl_svr c' = cl_svr c \<and> cl_asyn c' = cl_asyn c
    \<and> loses m {} \<and> (\<forall>S0 S. client_holds c S0 S \<longrightarrow> client_holds c' S0 (open_fds m S))"
proof -
  obtain fd events where ev: "ev = (fd, events)" by fastforce
  consider "c' = c" "l' = l" | h r where "c' = c" "l' = l @ [(H_input h fd, r)]"
    | h a b d e f where
      "TcpClientEpoll_close os c (l @ [(H_input h fd, a), (C_getsockname (cl_fd c), b), (C_getpeername (cl_fd c), d),
        (C_epoll_ctl (cl_epfd c) EPOLL_CTL_DEL (cl_fd c) 0, e), (H_close h (cl_fd c), f)]) = (c', l')"
    using assms
    by (auto simp: on_client_event_def ev syscall_def Let_def do_call_eq get_local_socket_def
        get_remote_socket_def TcpClientEpoll_epoller_ctl_def split: if_splits option.splits)
  then show ?thesis
  proof cases
    case 1
    then show ?thesis by (intro exI [of _ "[]"]) (simp add: loses_Nil)
  next
    case (2 h r)
    then show ?thesis by (auto simp: fd_effect_def loses_def)
  next
    case (3 h a b d e f)
    from client_close_fds [OF this] show ?thesis by (auto simp: fd_effect_def loses_def)
  qed
qed

lemma client_events_fds:
  "client_events os evs c l = Some (c', l') \<Longrightarrow>
   \<exists>m. l' = l @ m \<and> cl_svr c' = cl_svr c \<and> cl_asyn c' = cl_asyn c
     \<and> loses m {} \<and> (\<forall>S0 S. client_holds c S0 S \<longrightarrow> client_holds c' S0 (open_fds m S))"
proof (induction evs arbitrary: c l)
  case Nil
  then show ?case by (intro exI [of _ "[]"]) (simp add: loses_Nil)
next
  case (Cons ev evs)
  then obtain c1 l1 where 1: "on_client_event os ev c l = Some (c1, l1)" "client_events os evs c1 l1 = Some (c', l')"
    by (auto simp: bind_eq_Some_conv)
  from on_client_event_fds [OF 1(1)] Cons.IH [OF 1(2)] loses_append [of _ "{}" _ "{}"] show ?case by fastforce
qed

lemma tcp_epoll_cb_fds:
  assumes "tcp_epoll_cb os c l = Some (r, c', l')"
  shows "\<exists>m. l' = l @ m \<and> cl_svr c' = cl_svr c \<and> cl_asyn c' = cl_asyn c
    \<and> loses m {} \<and> (\<forall>S0 S. client_holds c S0 S \<longrightarrow> client_holds c' S0 (open_fds m S))"
proof -
  define w where "w = os (length l) (C_epoll_wait (cl_epfd c) (cl_ep_size c) 1000)"
  let ?w = "(C_epoll_wait (cl_epfd c) (cl_ep_size c) 1000, w)"
  have "c' = c \<and> l' = l @ [?w] \<or> client_events os (take (nat (rv w)) (ready w)) c (l @ [?w]) = Some (c', l')"
    using assms by (auto simp: tcp_epoll_cb_def syscall_def Let_def w_def bind_eq_Some_conv split: if_splits)
  then show ?thesis
  proof
    assume "c' = c \<and> l' = l @ [?w]"
    then show ?thesis by (auto simp: fd_effect_def loses_def)
  next
    assume "client_events os (take (nat (rv w)) (ready w)) c (l @ [?w]) = Some (c', l')"
    from client_events_fds [OF this] show ?thesis by (auto simp: fd_effect_def loses_def)
  qed
qed

section \<open>Properties\<close>

text \<open>Any sequence of whole operations, of the application and of the client's thread.\<close>

datatype client_call = Call_connect | Call_close | Call_round

fun client_step :: "os \<Rightarrow> client_call \<Rightarrow> tcp_client \<Rightarrow> log \<Rightarrow> (tcp_client \<times> log) option" where
  "client_step os Call_connect c l = Some (snd (TcpClientEpoll_connect os c l))"
| "client_step os Call_close c l = Some (TcpClientEpoll_close os c l)"
| "client_step os Call_round c l = map_option snd (tcp_epoll_cb os c l)"

fun client_run :: "os \<Rightarrow> client_call list \<Rightarrow> tcp_client \<Rightarrow> log \<Rightarrow> (tcp_client \<times> log) option" where
  "client_run os [] c l = Some (c, l)"
| "client_run os (a # as) c l = do { (c, l) \<leftarrow> client_step os a c l; client_run os as c l }"

lemma client_step_fds:
  assumes "client_step os a c l = Some (c', l')" and "epoll_contract os"
  shows "\<exists>m k. l' = l @ m \<and> cl_asyn c' = cl_asyn c \<and> cl_svr c' = cl_svr c \<and> k \<subseteq> epoll_made m \<and> loses m k
    \<and> (\<not> cl_asyn c \<longrightarrow> k = {})
    \<and> (\<forall>S0 S. client_holds c S0 S \<and> fresh_fds S m \<longrightarrow> client_holds c' (S0 \<union> k) (open_fds m S))"
proof (cases a)
  case Call_connect
  then obtain r where "TcpClientEpoll_connect os c l = (r, c', l')" using assms(1) by (cases "TcpClientEpoll_connect os c l") simp
  from client_connect_fds [OF this] assms(2) show ?thesis by blast
next
  case Call_close
  then have "TcpClientEpoll_close os c l = (c', l')" using assms(1) by simp
  from client_close_fds [OF this] show ?thesis by (metis Un_empty_right empty_subsetI)
next
  case Call_round
  then obtain r where "tcp_epoll_cb os c l = Some (r, c', l')" using assms(1) by auto
  from tcp_epoll_cb_fds [OF this] show ?thesis by (metis Un_empty_right empty_subsetI)
qed

lemma client_run_fds:
  "client_run os as c l = Some (c', l') \<Longrightarrow> epoll_contract os \<Longrightarrow>
   \<exists>m k. l' = l @ m \<and> cl_asyn c' = cl_asyn c \<and> cl_svr c' = cl_svr c \<and> k \<subseteq> epoll_made m \<and> loses m k
    \<and> (\<not> cl_asyn c \<longrightarrow> k = {})
    \<and> (\<forall>S0 S. client_holds c S0 S \<and> fresh_fds S m \<longrightarrow> client_holds c' (S0 \<union> k) (open_fds m S))"
proof (induction as arbitrary: c l)
  case Nil
  then show ?case by (intro exI [of _ "[]"] exI [of _ "{}"]) (simp add: loses_Nil)
next
  case (Cons a as)
  then obtain c1 l1 where 1: "client_step os a c l = Some (c1, l1)" "client_run os as c1 l1 = Some (c', l')"
    by (auto simp: bind_eq_Some_conv)
  from client_step_fds [OF 1(1) Cons.prems(2)] obtain m k where m: "l1 = l @ m" "cl_asyn c1 = cl_asyn c"
      "cl_svr c1 = cl_svr c" "k \<subseteq> epoll_made m" "loses m k" "\<not> cl_asyn c \<longrightarrow> k = {}"
      "\<And>S0 S. client_holds c S0 S \<Longrightarrow> fresh_fds S m \<Longrightarrow> client_holds c1 (S0 \<union> k) (open_fds m S)" by blast
  from Cons.IH [OF 1(2) Cons.prems(2)] obtain n j where n: "l' = l1 @ n" "cl_asyn c' = cl_asyn c1"
      "cl_svr c' = cl_svr c1" "j \<subseteq> epoll_made n" "loses n j" "\<not> cl_asyn c1 \<longrightarrow> j = {}"
      "\<And>S0 S. client_holds c1 S0 S \<Longrightarrow> fresh_fds S n \<Longrightarrow> client_holds c' (S0 \<union> j) (open_fds n S)" by blast
  have "client_holds c' (S0 \<union> (k \<union> j)) (open_fds (m @ n) S)" if "client_holds c S0 S" "fresh_fds S (m @ n)" for S0 S
    using n(7) [OF m(7)] that by (simp add: fresh_fds_append Un_assoc)
  then show ?case using m n by (intro exI [of _ "m @ n"] exI [of _ "k \<union> j"]) (auto intro: loses_append)
qed

text \<open>
  C15: after any sequence of \<open>connect\<close>, \<open>close\<close> and rounds of the client's thread, a client that
  blocks holds exactly its own socket if it is open and nothing if it is closed; a client with
  a thread holds its socket and its epoll instance if it is open. What else is open are exactly
  the epoll instances of the \<open>connect\<close>s that failed in \<open>do_init\<close> after they had made one: in
  the log, an instance made, and then a failure to add the socket or to mask the signals.
  Every other failure, and every \<open>close\<close>, closes the instance.
\<close>

theorem client_descriptors:
  assumes "client_run os as (TcpClientEpoll_new s asyn h) l = Some (c, l')" and "epoll_contract os"
  shows "\<exists>m. l' = l @ m \<and> cl_svr c = s \<and> epoll_lost m \<subseteq> epoll_made m \<and> (\<not> asyn \<longrightarrow> epoll_lost m = {})
    \<and> (\<forall>S. fresh_fds S m \<longrightarrow> open_fds m S = S \<union> epoll_lost m
          \<union> (if TcpClientEpoll_is_close c then {} else if asyn then {cl_fd c, cl_epfd c} else {cl_fd c})
        \<and> (\<not> TcpClientEpoll_is_close c \<longrightarrow> 0 \<le> cl_fd c \<and> cl_fd c \<notin> S))"
proof -
  have N: "cl_asyn (TcpClientEpoll_new s asyn h) = asyn" "cl_svr (TcpClientEpoll_new s asyn h) = s"
    by (simp_all add: TcpClientEpoll_new_def)
  from client_run_fds [OF assms, unfolded N] obtain m k where m: "l' = l @ m" "cl_asyn c = asyn" "cl_svr c = s"
      "k \<subseteq> epoll_made m" "loses m k" "\<not> asyn \<longrightarrow> k = {}"
      "\<And>S0 S. client_holds (TcpClientEpoll_new s asyn h) S0 S \<Longrightarrow> fresh_fds S m \<Longrightarrow> client_holds c (S0 \<union> k) (open_fds m S)"
    by blast
  have "client_holds (TcpClientEpoll_new s asyn h) S S" for S
    by (simp add: client_holds_def client_fds_def TcpClientEpoll_new_def)
  from m(7) [OF this] show ?thesis
    using m(1-4,6) loses_lost [OF m(5)]
    by (intro exI [of _ m])
       (auto simp: client_holds_def client_fds_def TcpClientEpoll_is_close_def split: if_splits)
qed

text \<open>Rounds of the client's thread with no other call in between.\<close>

fun client_rounds :: "os \<Rightarrow> nat \<Rightarrow> tcp_client \<Rightarrow> log \<Rightarrow> (tcp_client \<times> log) option" where
  "client_rounds os 0 c l = Some (c, l)"
| "client_rounds os (Suc n) c l =
     do { (c, l) \<leftarrow> client_rounds os n c l; (r, c, l) \<leftarrow> tcp_epoll_cb os c l; Some (c, l) }"

lemma epoll_thread_cb_never: "epoll_thread_cb os c l = None"
proof -
  have "False" if "epoll_thread_cb os c l = Some y" for y
    by (rule epoll_thread_cb.raw_induct [of "\<lambda>os c l y. False", OF _ that])
       (auto simp: bind_eq_Some_conv)
  then show ?thesis by (cases "epoll_thread_cb os c l") auto
qed

text \<open>
  C31: \<open>close\<close> of an open client with a thread sets the stop flag and gives up both descriptors, but
  the thread does not look at the flag: it never returns, and from then on every round asks
  for the events of the descriptor -1, is refused, and changes nothing.
\<close>

theorem client_thread_never_ends:
  assumes "cl_open c" and "cl_asyn c" and "TcpClientEpoll_close os c l = (c', l')"
    and "\<forall>n sz. rv (os n (C_epoll_wait (- 1) sz 1000)) < 0 \<and> err (os n (C_epoll_wait (- 1) sz 1000)) \<noteq> EINTR"
  shows "do_stop_epoll c' \<and> TcpClientEpoll_is_close c' \<and> epoll_thread_cb os c' l' = None
    \<and> (\<forall>n. \<exists>m. client_rounds os n c' l' = Some (c', l' @ m)
          \<and> map fst m = replicate n (C_epoll_wait (- 1) (cl_ep_size c') 1000))"
proof -
  from client_close_fds [OF assms(3)] have c': "\<not> cl_open c'" "cl_stop_epoll c'" "cl_epfd c' = - 1"
    using assms(1,2) by auto
  have step: "\<exists>r. tcp_epoll_cb os c' k = Some (- 1, c', k @ [(C_epoll_wait (- 1) (cl_ep_size c') 1000, r)])" for k
    using assms(4) [THEN spec, of "length k", THEN spec, of "cl_ep_size c'"]
    by (auto simp: tcp_epoll_cb_def syscall_def Let_def c' not_less)
  have "\<exists>m. client_rounds os n c' l' = Some (c', l' @ m)
      \<and> map fst m = replicate n (C_epoll_wait (- 1) (cl_ep_size c') 1000)" for n
  proof (induction n)
    case (Suc n)
    then obtain m where m: "client_rounds os n c' l' = Some (c', l' @ m)"
        "map fst m = replicate n (C_epoll_wait (- 1) (cl_ep_size c') 1000)" by blast
    from step [of "l' @ m"] obtain r where
      "tcp_epoll_cb os c' (l' @ m) = Some (- 1, c', (l' @ m) @ [(C_epoll_wait (- 1) (cl_ep_size c') 1000, r)])" by blast
    with m show ?case
      by (intro exI [of _ "m @ [(C_epoll_wait (- 1) (cl_ep_size c') 1000, r)]"])
         (simp add: replicate_append_same)
  qed simp
  then show ?thesis
    using c' epoll_thread_cb_never by (simp add: do_stop_epoll_def TcpClientEpoll_is_close_def)
qed

text \<open>A system that refuses every \<open>epoll_ctl\<close>, so that \<open>do_init\<close> fails; and one where all calls succeed.\<close>

definition no_ctl_os :: os where
  "no_ctl_os n c = (case c of
      C_getrlimit k \<Rightarrow> (ok_reply 0)\<lparr>nums := [1024]\<rparr>
    | C_epoll_create k \<Rightarrow> ok_reply 5
    | C_socket k \<Rightarrow> ok_reply 6
    | C_epoll_ctl e p f ev \<Rightarrow> ok_reply (- 1)
    | C_epoll_wait e k t \<Rightarrow> (if e = - 1 then (ok_reply (- 1))\<lparr>err := 9\<rparr> else ok_reply 0)
    | _ \<Rightarrow> ok_reply 0)"

definition some_svr :: svr where
  "some_svr = \<lparr>svr_ip = ''1.2.3.4'', svr_ip_out = [], svr_port = 80, svr_domain = []\<rparr>"

lemma client_descriptors_witness:
  "\<exists>c l'. client_run no_ctl_os [Call_connect] (TcpClientEpoll_new some_svr True (Some 1)) [] = Some (c, l')
    \<and> TcpClientEpoll_is_close c \<and> open_fds l' {0} = {0, 5}"
proof -
  obtain r c l' where e: "TcpClientEpoll_connect no_ctl_os (TcpClientEpoll_new some_svr True (Some 1)) [] = (r, c, l')"
    by (metis prod_cases3)
  then have run: "client_run no_ctl_os [Call_connect] (TcpClientEpoll_new some_svr True (Some 1)) [] = Some (c, l')"
    by simp
  have k: "\<not> cl_open c" "fresh_fds {0} l'" "epoll_lost l' = {5}"
    using e by (auto simp: TcpClientEpoll_connect_def TcpClientEpoll_new_def TcpClientEpoll_do_init_def
        get_rlimit_def TcpClientEpoll_epoller_create_def TcpClientEpoll_epoller_ctl_def epoll_lost_def
        SocketUtils_connect_s_def syscall_def do_call_eq Let_def no_ctl_os_def ok_reply_def fd_effect_def new_fd_def)
  have "epoll_contract no_ctl_os" by (simp add: epoll_contract_def no_ctl_os_def ok_reply_def)
  from client_descriptors [OF run this] k have "open_fds l' {0} = {0} \<union> {5}"
    by (auto simp: TcpClientEpoll_is_close_def)
  with run k show ?thesis by (auto simp: TcpClientEpoll_is_close_def)
qed

lemma client_thread_never_ends_witness:
  "\<exists>c' l' m. TcpClientEpoll_close no_ctl_os ((TcpClientEpoll_new some_svr True (Some 1))\<lparr>cl_open := True, cl_fd := 6, cl_epfd := 5\<rparr>) []
      = (c', l') \<and> client_rounds no_ctl_os 1000 c' l' = Some (c', l' @ m) \<and> length m = 1000"
proof -
  let ?c = "(TcpClientEpoll_new some_svr True (Some 1))\<lparr>cl_open := True, cl_fd := 6, cl_epfd := 5\<rparr>"
  obtain c' l' where k: "TcpClientEpoll_close no_ctl_os ?c [] = (c', l')" by fastforce
  have "cl_open ?c" "cl_asyn ?c" by (simp_all add: TcpClientEpoll_new_def)
  moreover have "\<forall>n sz. rv (no_ctl_os n (C_epoll_wait (- 1) sz 1000)) < 0
      \<and> err (no_ctl_os n (C_epoll_wait (- 1) sz 1000)) \<noteq> EINTR"
    by (simp add: no_ctl_os_def ok_reply_def EINTR_def)
  ultimately obtain m where "client_rounds no_ctl_os 1000 c' l' = Some (c', l' @ m)"
      "map fst m = replicate 1000 (C_epoll_wait (- 1) (cl_ep_size c') 1000)"
    using client_thread_never_ends [OF _ _ k] by blast
  moreover have "length m = 1000" using arg_cong [OF calculation(2), of length] by simp
  ultimately show ?thesis using k by blast
qed

end
