(* ===== verification/ConnMgt.thy ===== *)
theory ConnMgt
  imports TcpClientEpoll SelectTimer
begin

text \<open>
  src/ConnMgt/ConnMgtLB.h and ConnMgtLB.cpp: a pool of connections, one per server address,
  which a timer reconnects and from which connections are taken in turn. The pool is a template
  over the class of its connections: the model takes that class as a record of its operations.
  A connection is owned by the pool alone, so erasing it destroys it. Each method is one step,
  since the mutex makes it a critical section.
\<close>

section \<open>State and operations\<close>

record 'c conn_class =
  conn_make :: "svr \<Rightarrow> 'c"
  conn_svr :: "'c \<Rightarrow> svr"
  conn_connect :: "os \<Rightarrow> 'c \<Rightarrow> log \<Rightarrow> int \<times> 'c \<times> log"
  conn_close :: "os \<Rightarrow> 'c \<Rightarrow> log \<Rightarrow> 'c \<times> log"
  conn_delete :: "os \<Rightarrow> 'c \<Rightarrow> log \<Rightarrow> log"
  conn_is_close :: "'c \<Rightarrow> bool"

record 'c conn_mgt =
  conns :: "'c list"
  conn_index :: uint

definition same_addr :: "svr \<Rightarrow> svr \<Rightarrow> bool" where
  "same_addr s t \<longleftrightarrow> svr_ip s = svr_ip t \<and> svr_port s = svr_port t"

text \<open>The two loops of \<open>refresh\<close>: drop the connections not asked for, then add those missing.\<close>

fun refresh_drop :: "'c conn_class \<Rightarrow> os \<Rightarrow> svr list \<Rightarrow> 'c list \<Rightarrow> log \<Rightarrow> 'c list \<times> log" where
  "refresh_drop T os svrs [] l = ([], l)"
| "refresh_drop T os svrs (c # cs) l =
     (if list_ex (\<lambda>s. same_addr s (conn_svr T c)) svrs then
        (let (cs, l) = refresh_drop T os svrs cs l in (c # cs, l))
      else
        (let (c, l) = conn_close T os c l;
             l = conn_delete T os c l
         in refresh_drop T os svrs cs l))"

fun refresh_add :: "'c conn_class \<Rightarrow> os \<Rightarrow> svr list \<Rightarrow> 'c list \<Rightarrow> log \<Rightarrow> 'c list \<times> log" where
  "refresh_add T os [] cs l = (cs, l)"
| "refresh_add T os (s # svrs) cs l =
     (if list_ex (\<lambda>c. same_addr s (conn_svr T c)) cs then refresh_add T os svrs cs l
      else
        (let (_, c, l) = conn_connect T os (conn_make T s) l
         in refresh_add T os svrs (cs @ [c]) l))"

definition ConnMgtLB_refresh :: "'c conn_class \<Rightarrow> os \<Rightarrow> svr list \<Rightarrow> 'c conn_mgt \<Rightarrow> log \<Rightarrow> 'c conn_mgt \<times> log" where
  "ConnMgtLB_refresh T os svrs p l =
     (let (cs, l) = refresh_drop T os svrs (conns p) l;
          (cs, l) = refresh_add T os svrs cs l
      in (p\<lparr>conns := cs\<rparr>, l))"

fun connect_all :: "'c conn_class \<Rightarrow> os \<Rightarrow> 'c list \<Rightarrow> log \<Rightarrow> 'c list \<times> log" where
  "connect_all T os [] l = ([], l)"
| "connect_all T os (c # cs) l =
     (let (_, c, l) = conn_connect T os c l; (cs, l) = connect_all T os cs l in (c # cs, l))"

definition ConnMgtLB_check_conn :: "'c conn_class \<Rightarrow> os \<Rightarrow> 'c conn_mgt \<Rightarrow> log \<Rightarrow> 'c conn_mgt \<times> log" where
  "ConnMgtLB_check_conn T os p l = (let (cs, l) = connect_all T os (conns p) l in (p\<lparr>conns := cs\<rparr>, l))"

text \<open>\<open>handle_timeout\<close> of the timer's handler runs \<open>conn_timer_cb\<close> and returns 0.\<close>

definition conn_timer_cb :: "'c conn_class \<Rightarrow> os \<Rightarrow> 'c conn_mgt \<Rightarrow> log \<Rightarrow> 'c conn_mgt \<times> log" where
  "conn_timer_cb T os p l = ConnMgtLB_check_conn T os p l"

definition ConnTimerHandler_handle_timeout ::
  "'c conn_class \<Rightarrow> os \<Rightarrow> 'c conn_mgt \<Rightarrow> log \<Rightarrow> int \<times> 'c conn_mgt \<times> log" where
  "ConnTimerHandler_handle_timeout T os p l = (let (p, l) = conn_timer_cb T os p l in (0, p, l))"

text \<open>
  \<open>init\<close>: the timer is a new object, its handler the new \<open>ConnTimerHandler\<close> number \<open>h\<close>. The timer
  calls that handler once per interval (theory SelectTimer).
\<close>

definition ConnMgtLB_init :: "'c conn_class \<Rightarrow> os \<Rightarrow> nat \<Rightarrow> slong \<Rightarrow> slong \<Rightarrow> svr list \<Rightarrow> 'c conn_mgt \<Rightarrow> log
    \<Rightarrow> int \<times> 'c conn_mgt \<times> select_timer \<times> thread \<times> log" where
  "ConnMgtLB_init T os h sec usec svrs p l =
     (let p = p\<lparr>conn_index := 0\<rparr>;
          (p, l) = ConnMgtLB_refresh T os svrs p l;
          tm = SelectTimer_new sec usec;
          t = Thread_new;
          (nRet, tm) = SelectTimer_register (Some h) 5000000 tm in
      if nRet \<noteq> 0 then (nRet, p, tm, t, l)
      else
        (let (nRet, t, l) = Thread_init os 1 True 0 '''' t l in
         if nRet \<noteq> 0 then (nRet, p, tm, t, l)
         else
           (let (nRet, t, l) = Thread_run os t l in
            if nRet \<noteq> 0 then (nRet, p, tm, t, l) else (0, p, tm, t, l))))"

text \<open>
  The loop of \<open>get_conn\<close>. The parameter \<open>conn\<close> is a copy of the caller's pointer: the position it
  is set to is the third component here, and the caller does not get it.
\<close>

partial_function (option) get_loop ::
  "'c conn_class \<Rightarrow> 'c list \<Rightarrow> uint \<Rightarrow> uint \<Rightarrow> (bool \<times> nat \<times> uint) option" where
  "get_loop T cs tag index =
     do { conn \<leftarrow> rd cs (unat index);
          let k = unat index;
          let index = index + 1;
          if \<not> conn_is_close T conn then Some (True, k, index)
          else
            (let index = (if unat index \<ge> length cs then 0 else index) in
             if index \<noteq> tag then get_loop T cs tag index else Some (False, k, index)) }"

definition ConnMgtLB_get_conn :: "'c conn_class \<Rightarrow> 'c conn_mgt \<Rightarrow> (bool \<times> nat option \<times> 'c conn_mgt) option" where
  "ConnMgtLB_get_conn T p =
     (if conns p = [] then Some (False, None, p)
      else
        (let p = (if unat (conn_index p) \<ge> length (conns p) then p\<lparr>conn_index := 0\<rparr> else p) in
         do { (ok, k, index) \<leftarrow> get_loop T (conns p) (conn_index p) (conn_index p);
              Some (ok, Some k, p\<lparr>conn_index := index\<rparr>) }))"

section \<open>Taking connections in turn\<close>

lemma mod_next: "0 < n \<Longrightarrow> (if n \<le> Suc (a mod n) then 0 else Suc (a mod n)) = Suc a mod (n :: nat)"
  by (simp add: mod_Suc) (metis Suc_leI le_antisym mod_less_divisor)

lemma mod_turn:
  assumes "t < n" and "d < n" shows "Suc (t + d) mod n = t \<longleftrightarrow> Suc d = (n :: nat)"
proof -
  have "Suc (t + d) mod n = (if n \<le> Suc (t + d) then Suc (t + d) - n else Suc (t + d))"
    using assms by (auto simp: mod_if)
  then show ?thesis using assms by auto
qed

text \<open>From the \<open>d\<close>-th position after the tag on, the loop finds the first open connection.\<close>

lemma get_loop_finds:
  assumes "0 < length cs" and "length cs < 2 ^ 32" and "unat tag < length cs"
    and "d < length cs" and "unat i = (unat tag + d) mod length cs"
  shows "get_loop T cs tag i =
    (case filter (\<lambda>e. \<not> conn_is_close T (cs ! ((unat tag + e) mod length cs))) [d..<length cs] of
       [] \<Rightarrow> Some (False, (unat tag + (length cs - 1)) mod length cs, tag)
     | e # _ \<Rightarrow> Some (True, (unat tag + e) mod length cs, word_of_nat (Suc ((unat tag + e) mod length cs))))"
  using assms(4,5)
proof (induction "length cs - d" arbitrary: d i)
  case (Suc k)
  let ?n = "length cs" and ?t = "unat tag"
  have i: "unat i < ?n" using Suc.prems(2) assms(1) by simp
  then have rd: "rd cs (unat i) = Some (cs ! ((?t + d) mod ?n))" using Suc.prems(2) by (simp add: rd_Some)
  have up: "[d..<?n] = d # [Suc d..<?n]" using Suc.prems(1) by (simp add: upt_conv_Cons)
  have i1: "i + 1 = word_of_nat (Suc (unat i))" by (simp add: add.commute)
  have u1: "unat (i + 1) = Suc (unat i)"
    unfolding i1 using i assms(2) by (simp only: unat_of_nat) (simp add: take_bit_nat_eq_self)
  show ?case
  proof (cases "conn_is_close T (cs ! ((?t + d) mod ?n))")
    case False
    then show ?thesis
      using Suc.prems(2) by (subst get_loop.simps) (simp add: rd rd [unfolded Suc.prems(2)] up i1 Let_def del: upt_Suc)
  next
    case True
    define j where "j = (if unat (i + 1) \<ge> ?n then 0 else i + 1)"
    have j: "unat j = (?t + Suc d) mod ?n"
      using mod_next [OF assms(1), of "?t + d"] u1 Suc.prems(2) by (simp add: j_def split: if_splits)
    have turn: "j = tag \<longleftrightarrow> Suc d = ?n"
      using mod_turn [OF assms(3) Suc.prems(1)] j by (metis add_Suc_right unsigned_word_eqI)
    have step: "get_loop T cs tag i = (if j \<noteq> tag then get_loop T cs tag j else Some (False, unat i, j))"
      using True by (subst get_loop.simps) (simp add: rd Let_def j_def)
    show ?thesis
    proof (cases "Suc d = ?n")
      case last: True
      then have n1: "?n - 1 = d" and up1: "[d..<?n] = [d]" using up by simp_all
      show ?thesis unfolding step up1 n1 using True Suc.prems(2) turn last by simp
    next
      case False
      then have "Suc d < ?n" using Suc.prems(1) by simp
      moreover have "k = ?n - Suc d" using Suc.hyps(2) by simp
      ultimately show ?thesis using Suc.hyps(1) [OF _ _ j] True turn False by (simp add: step up)
    qed
  qed
qed simp

section \<open>The contract of a class of connections\<close>

text \<open>Any sequence of refreshes and of calls of the timer; \<open>asked\<close> is the last list of servers asked for.\<close>

datatype pool_call = Pool_refresh "svr list" | Pool_timer

fun pool_run :: "'c conn_class \<Rightarrow> os \<Rightarrow> pool_call list \<Rightarrow> 'c conn_mgt \<Rightarrow> log \<Rightarrow> 'c conn_mgt \<times> log" where
  "pool_run T os [] p l = (p, l)"
| "pool_run T os (Pool_refresh svrs # as) p l =
     (let (p, l) = ConnMgtLB_refresh T os svrs p l in pool_run T os as p l)"
| "pool_run T os (Pool_timer # as) p l =
     (let (_, p, l) = ConnTimerHandler_handle_timeout T os p l in pool_run T os as p l)"

fun asked :: "svr list \<Rightarrow> pool_call list \<Rightarrow> svr list" where
  "asked svrs [] = svrs"
| "asked svrs (Pool_refresh svrs' # as) = asked svrs' as"
| "asked svrs (Pool_timer # as) = asked svrs as"

text \<open>\<open>separate fds S cs\<close>: the descriptors of the connections are disjoint, also from \<open>S\<close>.\<close>

fun separate :: "('c \<Rightarrow> int set) \<Rightarrow> int set \<Rightarrow> 'c list \<Rightarrow> bool" where
  "separate fds S [] = True"
| "separate fds S (c # cs) = (S \<inter> fds c = {} \<and> separate fds (S \<union> fds c) cs)"

definition all_fds :: "('c \<Rightarrow> int set) \<Rightarrow> 'c list \<Rightarrow> int set" where
  "all_fds fds cs = (\<Union>c \<in> set cs. fds c)"

lemma all_fds_simps [simp]:
  "all_fds fds [] = {}" "all_fds fds (c # cs) = fds c \<union> all_fds fds cs"
  "all_fds fds (cs @ ds) = all_fds fds cs \<union> all_fds fds ds"
  by (auto simp: all_fds_def)

lemma separate_Un: "separate fds (A \<union> B) cs \<longleftrightarrow> separate fds A cs \<and> B \<inter> all_fds fds cs = {}"
proof (induction cs arbitrary: A)
  case (Cons c cs)
  have "A \<union> B \<union> fds c = (A \<union> fds c) \<union> B" by blast
  with Cons show ?case by auto
qed simp

lemma separate_disjoint: "separate fds A cs \<Longrightarrow> A \<inter> all_fds fds cs = {}"
  using separate_Un [of fds "{}" A cs] by simp

lemma separate_snoc: "separate fds A (cs @ [c]) \<longleftrightarrow> separate fds A cs \<and> (A \<union> all_fds fds cs) \<inter> fds c = {}"
  by (induction cs arbitrary: A) (auto simp: Un_assoc)

text \<open>
  The interface that the pool relies on. \<open>fds c\<close> are the descriptors that \<open>c\<close> holds; an operation
  leaves all other descriptors alone. \<open>good\<close> is the invariant of the class.
\<close>

definition svr_addr :: "svr \<Rightarrow> string \<times> ushort" where
  "svr_addr s = (svr_ip s, svr_port s)"

lemma same_addr_iff: "same_addr s t \<longleftrightarrow> svr_addr s = svr_addr t"
  by (simp add: same_addr_def svr_addr_def)

locale conn_contract =
  fixes T :: "'c conn_class" and fds :: "'c \<Rightarrow> int set" and good :: "'c \<Rightarrow> bool"
  assumes make: "good (conn_make T s) \<and> fds (conn_make T s) = {} \<and> conn_svr T (conn_make T s) = s"
    and connect: "good c \<Longrightarrow> conn_connect T os c l = (r, c', l') \<Longrightarrow>
      \<exists>m. l' = l @ m \<and> good c' \<and> conn_svr T c' = conn_svr T c
        \<and> (\<forall>S. S \<inter> fds c = {} \<and> fresh_fds (S \<union> fds c) m
              \<longrightarrow> open_fds m (S \<union> fds c) = S \<union> fds c' \<and> S \<inter> fds c' = {})"
    and delete: "good c \<Longrightarrow> conn_close T os c l = (c', l1) \<Longrightarrow> conn_delete T os c' l1 = l2 \<Longrightarrow>
      \<exists>m. l2 = l @ m \<and> (\<forall>S. S \<inter> fds c = {} \<longrightarrow> open_fds m (S \<union> fds c) = S)"
begin

text \<open>What a method does to the pool: descriptors before and after.\<close>

definition pool_step :: "'c list \<Rightarrow> 'c list \<Rightarrow> log \<Rightarrow> bool" where
  "pool_step cs cs' m \<longleftrightarrow> (\<forall>S. separate fds S cs \<and> fresh_fds (S \<union> all_fds fds cs) m \<longrightarrow>
     separate fds S cs' \<and> open_fds m (S \<union> all_fds fds cs) = S \<union> all_fds fds cs')"

lemma refresh_drop_step:
  "\<forall>c \<in> set cs. good c \<Longrightarrow> refresh_drop T os svrs cs l = (cs', l') \<Longrightarrow>
   cs' = filter (\<lambda>c. \<exists>s \<in> set svrs. same_addr s (conn_svr T c)) cs
   \<and> (\<exists>m. l' = l @ m \<and> pool_step cs cs' m)"
proof (induction cs arbitrary: cs' l l')
  case Nil
  then show ?case by (intro conjI exI [of _ "[]"]) (auto simp: pool_step_def)
next
  case (Cons c cs)
  show ?case
  proof (cases "\<exists>s \<in> set svrs. same_addr s (conn_svr T c)")
    case True
    obtain ds k where d: "refresh_drop T os svrs cs l = (ds, k)" by fastforce
    from Cons.IH [OF _ this] Cons.prems(1) obtain m where
      m: "ds = filter (\<lambda>c. \<exists>s \<in> set svrs. same_addr s (conn_svr T c)) cs" "k = l @ m" "pool_step cs ds m" by auto
    have "cs' = c # ds" "l' = k" using Cons.prems(2) True d by (auto simp: list_ex_iff)
    moreover have "pool_step (c # cs) (c # ds) m"
      using m(3) by (auto simp: pool_step_def Un_assoc [symmetric])
    ultimately show ?thesis using m True by auto
  next
    case False
    obtain c1 l1 where k: "conn_close T os c l = (c1, l1)" by fastforce
    from delete [OF _ k refl] Cons.prems(1) obtain m where
      m: "conn_delete T os c1 l1 = l @ m" "\<And>S. S \<inter> fds c = {} \<Longrightarrow> open_fds m (S \<union> fds c) = S" by auto
    have r: "refresh_drop T os svrs cs (l @ m) = (cs', l')"
      using Cons.prems(2) False k m(1) by (auto simp: list_ex_iff)
    from Cons.IH [OF _ r] Cons.prems(1) obtain n where
      n: "cs' = filter (\<lambda>c. \<exists>s \<in> set svrs. same_addr s (conn_svr T c)) cs" "l' = (l @ m) @ n" "pool_step cs cs' n"
      by auto
    have "separate fds S cs' \<and> open_fds (m @ n) (S \<union> all_fds fds (c # cs)) = S \<union> all_fds fds cs'"
      if "separate fds S (c # cs)" "fresh_fds (S \<union> all_fds fds (c # cs)) (m @ n)" for S
    proof -
      have s: "separate fds S cs" "(S \<union> all_fds fds cs) \<inter> fds c = {}"
        using that(1) by (auto simp: separate_Un)
      then have "open_fds m (S \<union> all_fds fds (c # cs)) = S \<union> all_fds fds cs"
        using m(2) [of "S \<union> all_fds fds cs"] by (simp add: Un_ac)
      then show ?thesis using n(3) s(1) that(2) by (simp add: pool_step_def fresh_fds_append)
    qed
    then have "pool_step (c # cs) cs' (m @ n)" by (simp add: pool_step_def)
    then show ?thesis using n False by auto
  qed
qed

lemma pool_step_trans: "pool_step cs ds m \<Longrightarrow> pool_step ds es n \<Longrightarrow> pool_step cs es (m @ n)"
  by (auto simp: pool_step_def fresh_fds_append)

lemma pool_step_snoc:
  assumes "\<And>S. fresh_fds S m \<Longrightarrow> open_fds m S = S \<union> fds c \<and> S \<inter> fds c = {}"
  shows "pool_step cs (cs @ [c]) m"
  using assms by (auto simp: pool_step_def separate_snoc Un_assoc)

abbreviation addr_of :: "'c \<Rightarrow> string \<times> ushort" where
  "addr_of c \<equiv> svr_addr (conn_svr T c)"

lemma refresh_add_step:
  "\<forall>c \<in> set cs. good c \<Longrightarrow> refresh_add T os svrs cs l = (cs', l') \<Longrightarrow>
   (\<forall>c \<in> set cs'. good c) \<and> (\<exists>new. cs' = cs @ new)
   \<and> addr_of ` set cs' = addr_of ` set cs \<union> svr_addr ` set svrs
   \<and> (distinct (map addr_of cs) \<longrightarrow> distinct (map addr_of cs'))
   \<and> (\<exists>m. l' = l @ m \<and> pool_step cs cs' m)"
proof (induction svrs arbitrary: cs l)
  case Nil
  then show ?case by (auto simp: pool_step_def)
next
  case (Cons s svrs)
  show ?case
  proof (cases "\<exists>c \<in> set cs. same_addr s (conn_svr T c)")
    case True
    then have "svr_addr s \<in> addr_of ` set cs" by (auto simp: same_addr_iff)
    moreover have "refresh_add T os svrs cs l = (cs', l')" using Cons.prems(2) True by (auto simp: list_ex_iff)
    note Cons.IH [OF Cons.prems(1) this]
    ultimately show ?thesis by (auto simp: insert_absorb)
  next
    case False
    obtain r c l1 where k: "conn_connect T os (conn_make T s) l = (r, c, l1)" by (metis prod_cases3)
    from connect [OF _ k] make obtain m where m: "l1 = l @ m" "good c" "conn_svr T c = s"
        "\<And>S. fresh_fds S m \<Longrightarrow> open_fds m S = S \<union> fds c \<and> S \<inter> fds c = {}" by auto
    have r: "refresh_add T os svrs (cs @ [c]) (l @ m) = (cs', l')"
      using Cons.prems(2) False k m(1) by (auto simp: list_ex_iff)
    have g: "\<forall>c \<in> set (cs @ [c]). good c" using Cons.prems(1) m(2) by simp
    have "svr_addr s \<notin> addr_of ` set cs" using False by (auto simp: same_addr_iff)
    moreover from Cons.IH [OF g r] obtain n where "l' = (l @ m) @ n" "pool_step (cs @ [c]) cs' n" by blast
    moreover note pool_step_trans [OF pool_step_snoc [OF m(4)] this(2)]
    ultimately show ?thesis using Cons.IH [OF g r] m(3) by auto
  qed
qed

lemma connect_all_step:
  "\<forall>c \<in> set cs. good c \<Longrightarrow> connect_all T os cs l = (cs', l') \<Longrightarrow>
   (\<forall>c \<in> set cs'. good c) \<and> map (conn_svr T) cs' = map (conn_svr T) cs
   \<and> (\<exists>m. l' = l @ m \<and> pool_step cs cs' m)"
proof (induction cs arbitrary: cs' l l')
  case Nil
  then show ?case by (auto simp: pool_step_def)
next
  case (Cons c cs)
  obtain r c1 l1 where k: "conn_connect T os c l = (r, c1, l1)" by (metis prod_cases3)
  from connect [OF _ k] Cons.prems(1) obtain m where m: "l1 = l @ m" "good c1" "conn_svr T c1 = conn_svr T c"
      "\<And>S. S \<inter> fds c = {} \<Longrightarrow> fresh_fds (S \<union> fds c) m \<Longrightarrow> open_fds m (S \<union> fds c) = S \<union> fds c1 \<and> S \<inter> fds c1 = {}"
    by auto
  obtain ds k where d: "connect_all T os cs l1 = (ds, k)" by fastforce
  from Cons.IH [OF _ this] Cons.prems(1) obtain n where
    n: "\<forall>c \<in> set ds. good c" "map (conn_svr T) ds = map (conn_svr T) cs" "k = l1 @ n" "pool_step cs ds n" by auto
  have "separate fds S (c1 # ds) \<and> open_fds (m @ n) (S \<union> all_fds fds (c # cs)) = S \<union> all_fds fds (c1 # ds)"
    if s: "separate fds S (c # cs)" "fresh_fds (S \<union> all_fds fds (c # cs)) (m @ n)" for S
  proof -
    have u: "S \<union> all_fds fds (c # cs) = (S \<union> all_fds fds cs) \<union> fds c" by auto
    have "separate fds S cs" "(S \<union> all_fds fds cs) \<inter> fds c = {}" "fds c \<inter> all_fds fds cs = {}"
      using s(1) by (auto simp: separate_Un)
    moreover from m(4) [OF this(2)] s(2) have
      "open_fds m (S \<union> all_fds fds (c # cs)) = (S \<union> fds c1) \<union> all_fds fds cs"
      "(S \<union> all_fds fds cs) \<inter> fds c1 = {}"
      unfolding u fresh_fds_append by auto
    ultimately show ?thesis
      using n(4) [unfolded pool_step_def, rule_format, of "S \<union> fds c1"] s(2)
      by (auto simp: separate_Un fresh_fds_append Un_assoc)
  qed
  then have "pool_step (c # cs) (c1 # ds) (m @ n)" by (simp add: pool_step_def)
  then show ?case using Cons.prems(2) k d m n by auto
qed

text \<open>A refresh: the addresses asked for, one connection each; what is asked for again is kept as it is.\<close>

lemma refresh_step:
  assumes "\<forall>c \<in> set (conns p). good c" and "ConnMgtLB_refresh T os svrs p l = (p', l')"
    and "distinct (map addr_of (conns p))"
  shows "(\<forall>c \<in> set (conns p'). good c) \<and> distinct (map addr_of (conns p'))
    \<and> addr_of ` set (conns p') = svr_addr ` set svrs
    \<and> (\<exists>new. conns p' = filter (\<lambda>c. addr_of c \<in> svr_addr ` set svrs) (conns p) @ new)
    \<and> conn_index p' = conn_index p
    \<and> (\<exists>m. l' = l @ m \<and> pool_step (conns p) (conns p') m)"
proof -
  obtain ds k where d: "refresh_drop T os svrs (conns p) l = (ds, k)" by fastforce
  have f: "(\<lambda>c. \<exists>s \<in> set svrs. same_addr s (conn_svr T c)) = (\<lambda>c. addr_of c \<in> svr_addr ` set svrs)"
    by (auto simp: same_addr_iff fun_eq_iff image_iff intro: sym)
  from refresh_drop_step [OF assms(1) d] obtain m where
    m: "ds = filter (\<lambda>c. addr_of c \<in> svr_addr ` set svrs) (conns p)" "k = l @ m" "pool_step (conns p) ds m"
    unfolding f by blast
  obtain cs where a: "refresh_add T os svrs ds k = (cs, l')" and p': "p' = p\<lparr>conns := cs\<rparr>"
    using assms(2) d by (auto simp: ConnMgtLB_refresh_def split: prod.splits)
  have g: "\<forall>c \<in> set ds. good c" using m(1) assms(1) by simp
  have sub: "addr_of ` set ds \<subseteq> svr_addr ` set svrs" using m(1) by auto
  have "distinct (map addr_of ds)" using assms(3) m(1) by (simp add: distinct_map_filter)
  with refresh_add_step [OF g a] sub p' m pool_step_trans show ?thesis
    by (auto simp: Un_absorb1)
qed

lemma pool_run_step:
  "\<forall>c \<in> set (conns p). good c \<Longrightarrow> distinct (map addr_of (conns p)) \<Longrightarrow>
   addr_of ` set (conns p) = svr_addr ` set svrs \<Longrightarrow> pool_run T os as p l = (p', l') \<Longrightarrow>
   (\<forall>c \<in> set (conns p'). good c) \<and> distinct (map addr_of (conns p'))
   \<and> addr_of ` set (conns p') = svr_addr ` set (asked svrs as)
   \<and> (\<exists>m. l' = l @ m \<and> pool_step (conns p) (conns p') m)"
proof (induction "as" arbitrary: p l svrs)
  case Nil
  then show ?case by (auto simp: pool_step_def)
next
  case (Cons a as)
  obtain p1 l1 where 1: "pool_run T os as p1 l1 = (p', l')" "\<forall>c \<in> set (conns p1). good c"
      "distinct (map addr_of (conns p1))" "addr_of ` set (conns p1) = svr_addr ` set (asked svrs [a])"
      "\<exists>m. l1 = l @ m \<and> pool_step (conns p) (conns p1) m"
  proof (cases a)
    case (Pool_refresh svrs')
    obtain p1 l1 where r: "ConnMgtLB_refresh T os svrs' p l = (p1, l1)" by fastforce
    from refresh_step [OF Cons.prems(1) r Cons.prems(2)] show ?thesis
      using that Cons.prems(4) r Pool_refresh by auto
  next
    case Pool_timer
    obtain cs k where c: "connect_all T os (conns p) l = (cs, k)" by fastforce
    from connect_all_step [OF Cons.prems(1) c] have s: "map (conn_svr T) cs = map (conn_svr T) (conns p)" by blast
    have "map addr_of cs = map svr_addr (map (conn_svr T) cs)" by simp
    also have "\<dots> = map addr_of (conns p)" unfolding s by simp
    finally have addr: "map addr_of cs = map addr_of (conns p)" .
    then have "addr_of ` set cs = addr_of ` set (conns p)" by (metis list.set_map)
    then show ?thesis
      using that [of "p\<lparr>conns := cs\<rparr>" k] Cons.prems connect_all_step [OF Cons.prems(1) c] addr c Pool_timer
      by (auto simp: ConnTimerHandler_handle_timeout_def conn_timer_cb_def ConnMgtLB_check_conn_def)
  qed
  have "asked (asked svrs [a]) as = asked svrs (a # as)" by (cases a) simp_all
  moreover obtain m where m: "l1 = l @ m" "pool_step (conns p) (conns p1) m" using 1(5) by blast
  moreover note Cons.IH [OF 1(2-4) 1(1)]
  ultimately show ?case using pool_step_trans by fastforce
qed

end

section \<open>The pool of TCP clients\<close>

definition tcp_class :: "tcp_client conn_class" where
  "tcp_class = \<lparr>conn_make = (\<lambda>s. TcpClientEpoll_new s False None), conn_svr = cl_svr,
     conn_connect = TcpClientEpoll_connect, conn_close = TcpClientEpoll_close,
     conn_delete = TcpClientEpoll_delete, conn_is_close = TcpClientEpoll_is_close\<rparr>"

definition good_client :: "tcp_client \<Rightarrow> bool" where
  "good_client c \<longleftrightarrow> \<not> cl_asyn c \<and> (cl_open c \<longrightarrow> 0 \<le> cl_fd c)"

lemma client_holds_iff:
  "client_holds c S T \<longleftrightarrow> T = S \<union> client_fds c \<and> S \<inter> client_fds c = {} \<and> (cl_open c \<longrightarrow> 0 \<le> cl_fd c)"
  by (simp add: client_holds_def)

lemma good_client_connect:
  assumes "good_client c" and "TcpClientEpoll_connect os c l = (r, c', l')"
  shows "\<exists>m. l' = l @ m \<and> good_client c' \<and> cl_svr c' = cl_svr c
    \<and> (\<forall>S. S \<inter> client_fds c = {} \<and> fresh_fds (S \<union> client_fds c) m
          \<longrightarrow> open_fds m (S \<union> client_fds c) = S \<union> client_fds c' \<and> S \<inter> client_fds c' = {})"
proof -
  have "cl_asyn c \<longrightarrow> epoll_contract os" using assms(1) by (simp add: good_client_def)
  from client_connect_fds [OF assms(2) this] assms(1) obtain m where m: "l' = l @ m" "cl_svr c' = cl_svr c"
      "\<not> cl_asyn c'"
      "\<And>S0 S. client_holds c S0 S \<Longrightarrow> fresh_fds S m \<Longrightarrow> client_holds c' S0 (open_fds m S)"
    by (auto simp: good_client_def)
  have "cl_open c' \<longrightarrow> 0 \<le> cl_fd c'"
    using assms
    by (auto simp: good_client_def TcpClientEpoll_connect_def SocketUtils_connect_s_def syscall_def Let_def
        split: if_splits)
  with m assms(1) show ?thesis
    by (auto simp: client_holds_iff good_client_def)
qed

interpretation tcp_pool: conn_contract tcp_class client_fds good_client
proof unfold_locales
  show "good_client (conn_make tcp_class s) \<and> client_fds (conn_make tcp_class s) = {}
      \<and> conn_svr tcp_class (conn_make tcp_class s) = s" for s
    by (simp add: tcp_class_def TcpClientEpoll_new_def good_client_def client_fds_def)
next
  fix c os l r c' l'
  assume "good_client c" "conn_connect tcp_class os c l = (r, c', l')"
  then show "\<exists>m. l' = l @ m \<and> good_client c' \<and> conn_svr tcp_class c' = conn_svr tcp_class c
    \<and> (\<forall>S. S \<inter> client_fds c = {} \<and> fresh_fds (S \<union> client_fds c) m
          \<longrightarrow> open_fds m (S \<union> client_fds c) = S \<union> client_fds c' \<and> S \<inter> client_fds c' = {})"
    using good_client_connect by (simp add: tcp_class_def)
next
  fix c os l c' l1 l2
  assume g: "good_client c" and "conn_close tcp_class os c l = (c', l1)" "conn_delete tcp_class os c' l1 = l2"
  then have k: "TcpClientEpoll_close os c l = (c', l1)" and d: "TcpClientEpoll_delete os c' l1 = l2"
    by (simp_all add: tcp_class_def)
  from client_close_fds [OF k] obtain m where m: "l1 = l @ m" "\<not> cl_asyn c'" "\<not> cl_open c'"
      "\<And>S0 S. client_holds c S0 S \<Longrightarrow> client_holds c' S0 (open_fds m S)"
    using g by (auto simp: good_client_def)
  have "l2 = l @ m" using d m by (simp add: TcpClientEpoll_delete_def TcpClientEpoll_close_def)
  moreover have "S \<inter> client_fds c = {} \<Longrightarrow> open_fds m (S \<union> client_fds c) = S" for S
    using m(4) [of S "S \<union> client_fds c"] m(3) g by (simp add: client_holds_iff good_client_def client_fds_def)
  ultimately show "\<exists>m. l2 = l @ m \<and> (\<forall>S. S \<inter> client_fds c = {} \<longrightarrow> open_fds m (S \<union> client_fds c) = S)"
    by blast
qed


section \<open>Properties\<close>

text \<open>
  C11: whatever is asked of the pool and however often its timer runs, the pool has exactly one
  connection for each address of the last list it was given, however often the list names it,
  and the descriptors that it has opened and not closed are exactly the sockets of its open
  connections: those of servers no longer asked for were closed, each failed reconnection
  closed its socket.
\<close>

theorem pool_connections:
  assumes "pool_run tcp_class os as \<lparr>conns = [], conn_index = i\<rparr> l = (p, l')"
  shows "distinct (map (\<lambda>c. (svr_ip (cl_svr c), svr_port (cl_svr c))) (conns p))
    \<and> (\<lambda>c. (svr_ip (cl_svr c), svr_port (cl_svr c))) ` set (conns p)
       = (\<lambda>s. (svr_ip s, svr_port s)) ` set (asked [] as)
    \<and> (\<exists>m. l' = l @ m \<and> (\<forall>S. fresh_fds S m \<longrightarrow>
          open_fds m S = S \<union> {cl_fd c |c. c \<in> set (conns p) \<and> \<not> TcpClientEpoll_is_close c}))"
proof -
  from tcp_pool.pool_run_step [OF _ _ _ assms, of "[]"] obtain m where
    p: "\<forall>c \<in> set (conns p). good_client c" "distinct (map (\<lambda>c. svr_addr (cl_svr c)) (conns p))"
      "(\<lambda>c. svr_addr (cl_svr c)) ` set (conns p) = svr_addr ` set (asked [] as)"
      "l' = l @ m" "tcp_pool.pool_step [] (conns p) m"
    by (auto simp: tcp_class_def)
  have "all_fds client_fds (conns p) = {cl_fd c |c. c \<in> set (conns p) \<and> \<not> TcpClientEpoll_is_close c}"
    using p(1) by (auto simp: all_fds_def client_fds_def good_client_def TcpClientEpoll_is_close_def)
  then show ?thesis
    using p by (auto simp: svr_addr_def tcp_pool.pool_step_def)
qed

text \<open>The position the index designates at the start of a call; a number of calls in sequence.\<close>

definition start_at :: "'c conn_mgt \<Rightarrow> nat" where
  "start_at p = (if unat (conn_index p) \<ge> length (conns p) then 0 else unat (conn_index p))"

fun get_conns :: "'c conn_class \<Rightarrow> nat \<Rightarrow> 'c conn_mgt \<Rightarrow> (nat option list \<times> 'c conn_mgt) option" where
  "get_conns T 0 p = Some ([], p)"
| "get_conns T (Suc n) p =
     do { (ok, k, p) \<leftarrow> ConnMgtLB_get_conn T p; (ks, p) \<leftarrow> get_conns T n p; Some (k # ks, p) }"

lemma get_conn_finds:
  assumes "0 < length (conns p)" and "length (conns p) < 2 ^ 32"
  shows "ConnMgtLB_get_conn T p =
    (case filter (\<lambda>e. \<not> conn_is_close T (conns p ! ((start_at p + e) mod length (conns p)))) [0..<length (conns p)] of
       [] \<Rightarrow> Some (False, Some ((start_at p + (length (conns p) - 1)) mod length (conns p)),
              p\<lparr>conn_index := word_of_nat (start_at p)\<rparr>)
     | e # _ \<Rightarrow> Some (True, Some ((start_at p + e) mod length (conns p)),
              p\<lparr>conn_index := word_of_nat (Suc ((start_at p + e) mod length (conns p)))\<rparr>))"
proof -
  define q where "q = (if unat (conn_index p) \<ge> length (conns p) then p\<lparr>conn_index := 0\<rparr> else p)"
  have q: "conns q = conns p" "unat (conn_index q) = start_at p" "q\<lparr>conn_index := x\<rparr> = p\<lparr>conn_index := x\<rparr>" for x
    by (simp_all add: q_def start_at_def)
  have i: "conn_index q = word_of_nat (start_at p)" by (simp flip: q(2))
  have s: "start_at p < length (conns p)" using assms(1) by (simp add: start_at_def)
  have "ConnMgtLB_get_conn T p = do { (ok, k, index) \<leftarrow> get_loop T (conns p) (conn_index q) (conn_index q);
              Some (ok, Some k, p\<lparr>conn_index := index\<rparr>) }"
    using assms(1) by (simp add: ConnMgtLB_get_conn_def q_def [symmetric] Let_def q(1) q(3))
  moreover have "get_loop T (conns p) (conn_index q) (conn_index q) = (case filter
      (\<lambda>e. \<not> conn_is_close T (conns p ! ((start_at p + e) mod length (conns p)))) [0..<length (conns p)] of
       [] \<Rightarrow> Some (False, (start_at p + (length (conns p) - 1)) mod length (conns p), conn_index q)
     | e # _ \<Rightarrow> Some (True, (start_at p + e) mod length (conns p), word_of_nat (Suc ((start_at p + e) mod length (conns p)))))"
    using get_loop_finds [OF assms, of "conn_index q" 0 "conn_index q" T] s assms(1) unfolding q(2) by simp
  ultimately show ?thesis by (simp add: i split: list.splits)
qed

lemma filter_upt_Cons:
  "filter P [0..<n] = e # es \<Longrightarrow> e < n \<and> P e \<and> (\<forall>d < e. \<not> P d)"
proof (induction n arbitrary: es)
  case (Suc n)
  show ?case
  proof (cases "filter P [0..<n]")
    case Nil
    then show ?thesis using Suc.prems by (auto simp: filter_empty_conv split: if_splits)
  next
    case (Cons a as)
    then have "a = e" using Suc.prems by (simp split: if_splits)
    then show ?thesis using Suc.IH [of "as"] Cons by simp
  qed
qed simp

lemma turn_covers: "0 < n \<Longrightarrow> (\<exists>e < n. P ((s + e) mod n)) \<longleftrightarrow> (\<exists>j < n. P (j :: nat))"
proof
  assume n: "0 < n" and "\<exists>j < n. P j"
  then obtain j where j: "j < n" "P j" by blast
  have "(s + (n - s mod n + j) mod n) mod n = j"
  proof -
    have "(s + (n - s mod n + j) mod n) mod n = (s mod n + (n - s mod n) + j) mod n"
      by (simp add: mod_simps add.assoc)
    also have "\<dots> = j" using n j(1) by simp
    finally show ?thesis .
  qed
  with n j(2) show "\<exists>e < n. P ((s + e) mod n)" by (intro exI [of _ "(n - s mod n + j) mod n"]) simp
next
  assume "0 < n" and "\<exists>e < n. P ((s + e) mod n)"
  then show "\<exists>j < n. P j" using mod_less_divisor by blast
qed

lemma get_conn_step:
  assumes "conns p \<noteq> []" and "length (conns p) < 2 ^ 32"
  shows "\<exists>ok k p'. ConnMgtLB_get_conn T p = Some (ok, k, p') \<and> conns p' = conns p
    \<and> (ok \<longleftrightarrow> (\<exists>c \<in> set (conns p). \<not> conn_is_close T c))
    \<and> (ok \<longrightarrow> (\<exists>d < length (conns p). k = Some ((start_at p + d) mod length (conns p))
          \<and> \<not> conn_is_close T (conns p ! ((start_at p + d) mod length (conns p)))
          \<and> (\<forall>e < d. conn_is_close T (conns p ! ((start_at p + e) mod length (conns p))))
          \<and> start_at p' = Suc (start_at p + d) mod length (conns p)))
    \<and> (\<not> ok \<longrightarrow> start_at p' = start_at p)"
proof -
  let ?n = "length (conns p)"
  let ?P = "\<lambda>e. \<not> conn_is_close T (conns p ! ((start_at p + e) mod ?n))"
  have n: "0 < ?n" using assms(1) by simp
  have "(\<exists>c \<in> set (conns p). \<not> conn_is_close T c) \<longleftrightarrow> (\<exists>e < ?n. ?P e)"
    unfolding turn_covers [OF n, of "\<lambda>j. \<not> conn_is_close T (conns p ! j)"] by (metis in_set_conv_nth)
  note op = this
  have w: "unat (word_of_nat j :: uint) = j" if "j \<le> ?n" for j
  proof -
    have "j < 2 ^ 32" using that assms(2) by simp
    then show ?thesis by (simp only: unat_of_nat) (simp add: take_bit_nat_eq_self)
  qed
  have s: "start_at p < ?n" using n by (simp add: start_at_def)
  note find = get_conn_finds [OF n assms(2), of T]
  show ?thesis
  proof (cases "filter ?P [0..<?n]")
    case Nil
    then have "\<not> (\<exists>e < ?n. ?P e)" by (auto simp: filter_empty_conv)
    then have none: "\<not> (\<exists>c \<in> set (conns p). \<not> conn_is_close T c)" using op by blast
    have "start_at (p\<lparr>conn_index := word_of_nat (start_at p)\<rparr>) = start_at p"
      using s by (simp add: start_at_def [of "p\<lparr>conn_index := _\<rparr>"] w)
    then show ?thesis using find Nil none by (intro exI [of _ False]) simp
  next
    case (Cons e es)
    from filter_upt_Cons [OF Cons] have e: "e < ?n" "?P e" "\<forall>d < e. \<not> ?P d" by auto
    have "(start_at p + e) mod ?n < ?n" using n by simp
    then have "start_at (p\<lparr>conn_index := word_of_nat (Suc ((start_at p + e) mod ?n))\<rparr>) = Suc (start_at p + e) mod ?n"
      using w [of "Suc ((start_at p + e) mod ?n)"] mod_next [OF n, of "start_at p + e"]
      by (auto simp: start_at_def [of "p\<lparr>conn_index := _\<rparr>"] split: if_split_asm)
    with find Cons op e show ?thesis by auto
  qed
qed

lemma get_conns_open:
  "conns p \<noteq> [] \<Longrightarrow> length (conns p) < 2 ^ 32 \<Longrightarrow> \<forall>c \<in> set (conns p). \<not> conn_is_close T c \<Longrightarrow>
   \<exists>p'. get_conns T r p = Some (map (\<lambda>i. Some ((start_at p + i) mod length (conns p))) [0..<r], p')"
proof (induction r arbitrary: p)
  case (Suc r)
  let ?n = "length (conns p)"
  have "\<exists>c \<in> set (conns p). \<not> conn_is_close T c" using Suc.prems(1,3) by (cases "conns p") auto
  moreover from get_conn_step [OF Suc.prems(1,2), of T] obtain ok k p1 where g:
      "ConnMgtLB_get_conn T p = Some (ok, k, p1)" "conns p1 = conns p"
      "ok \<longleftrightarrow> (\<exists>c \<in> set (conns p). \<not> conn_is_close T c)"
      "ok \<Longrightarrow> \<exists>d < ?n. k = Some ((start_at p + d) mod ?n)
          \<and> \<not> conn_is_close T (conns p ! ((start_at p + d) mod ?n))
          \<and> (\<forall>e < d. conn_is_close T (conns p ! ((start_at p + e) mod ?n)))
          \<and> start_at p1 = Suc (start_at p + d) mod ?n"
    by blast
  ultimately have ok: "ok" by blast
  with g obtain d where 1: "ConnMgtLB_get_conn T p = Some (True, k, p1)" "conns p1 = conns p" "d < ?n"
      "k = Some ((start_at p + d) mod ?n)" "start_at p1 = Suc (start_at p + d) mod ?n"
      "\<forall>e < d. conn_is_close T (conns p ! ((start_at p + e) mod ?n))"
    by auto
  have "d = 0"
  proof (rule ccontr)
    assume "d \<noteq> 0"
    then have "conn_is_close T (conns p ! ((start_at p + 0) mod ?n))" using 1(6) by blast
    then show False using Suc.prems(1,3) by simp
  qed
  from Suc.IH [of p1] obtain p2 where
    "get_conns T r p1 = Some (map (\<lambda>i. Some ((start_at p1 + i) mod ?n)) [0..<r], p2)"
    using Suc.prems 1(2) by auto
  moreover have "(start_at p1 + i) mod ?n = (start_at p + Suc i) mod ?n" for i
    using 1(5) \<open>d = 0\<close> by (simp add: mod_simps)
  moreover have "map (\<lambda>i. Some ((start_at p + i) mod ?n)) [0..<Suc r]
      = Some (start_at p mod ?n) # map (\<lambda>i. Some ((start_at p + Suc i) mod ?n)) [0..<r]"
    by (simp add: map_upt_Suc del: upt_Suc)
  ultimately show ?case using 1(1,4) \<open>d = 0\<close> by (simp del: upt_Suc)
qed simp

text \<open>
  C23: \<open>get_conn\<close> always returns. It succeeds exactly if some connection of the pool is open, and
  then takes the first open one from the position of the index on, around the pool, and sets
  the index after it; otherwise the index is only brought into range. If all connections are
  open, a sequence of calls takes them in turn.
\<close>

theorem get_conn_in_turn:
  assumes "conns p \<noteq> []" and "length (conns p) < 2 ^ 32"
  shows "\<exists>ok k p'. ConnMgtLB_get_conn T p = Some (ok, k, p') \<and> conns p' = conns p
    \<and> (ok \<longleftrightarrow> (\<exists>c \<in> set (conns p). \<not> conn_is_close T c))
    \<and> (ok \<longrightarrow> (\<exists>d < length (conns p). k = Some ((start_at p + d) mod length (conns p))
          \<and> \<not> conn_is_close T (conns p ! ((start_at p + d) mod length (conns p)))
          \<and> (\<forall>e < d. conn_is_close T (conns p ! ((start_at p + e) mod length (conns p))))
          \<and> start_at p' = Suc (start_at p + d) mod length (conns p)))
    \<and> (\<not> ok \<longrightarrow> start_at p' = start_at p)
    \<and> ((\<forall>c \<in> set (conns p). \<not> conn_is_close T c) \<longrightarrow>
        (\<forall>r. \<exists>p''. get_conns T r p
           = Some (map (\<lambda>i. Some ((start_at p + i) mod length (conns p))) [0..<r], p'')))"
  using get_conn_step [OF assms, of T] get_conns_open [OF assms, of T] by (elim exE conjE) (intro exI conjI; assumption | blast)

text \<open>A system on which every call succeeds and sockets are numbered by the calls made before.\<close>

definition counting_os :: os where
  "counting_os n c = (case c of C_socket k \<Rightarrow> ok_reply (int n + 3) | _ \<Rightarrow> ok_reply 0)"

definition other_svr :: svr where
  "other_svr = some_svr\<lparr>svr_port := 81\<rparr>"

lemma two_servers_run:
  "pool_run tcp_class counting_os [Pool_refresh [some_svr, some_svr, other_svr], Pool_refresh [other_svr], Pool_timer]
     \<lparr>conns = [], conn_index = 0\<rparr> [] =
   (\<lparr>conns = [(TcpClientEpoll_new other_svr False None)\<lparr>cl_fd := 5, cl_open := True\<rparr>], conn_index = 0\<rparr>,
    [(C_socket SOCK_STREAM, ok_reply 3), (C_connect 3 ''1.2.3.4'' 80, ok_reply 0),
     (C_socket SOCK_STREAM, ok_reply 5), (C_connect 5 ''1.2.3.4'' 81, ok_reply 0),
     (C_close 3, ok_reply 0)])"
  by (simp add: tcp_class_def ConnMgtLB_refresh_def ConnTimerHandler_handle_timeout_def conn_timer_cb_def
      ConnMgtLB_check_conn_def same_addr_def TcpClientEpoll_connect_def TcpClientEpoll_close_def
      TcpClientEpoll_delete_def SocketUtils_connect_s_def syscall_def do_call_eq Let_def counting_os_def
      TcpClientEpoll_new_def some_svr_def other_svr_def ok_reply_def c_str_def)

lemma pool_connections_witness:
  "\<exists>p l. pool_run tcp_class counting_os
      [Pool_refresh [some_svr, some_svr, other_svr], Pool_refresh [other_svr], Pool_timer]
      \<lparr>conns = [], conn_index = 0\<rparr> [] = (p, l) \<and> length (conns p) = 1 \<and> open_fds l {0} = {0, 5}"
proof -
  from pool_connections [OF two_servers_run] show ?thesis
    unfolding two_servers_run
    by (auto simp: ok_reply_def new_fd_def fd_effect_def TcpClientEpoll_is_close_def dest!: spec [of _ "{0}"])
qed

lemma get_conn_in_turn_witness:
  "\<exists>p''. get_conns tcp_class 3 \<lparr>conns = [(TcpClientEpoll_new some_svr False None)\<lparr>cl_open := True\<rparr>,
      (TcpClientEpoll_new other_svr False None)\<lparr>cl_open := True\<rparr>], conn_index = 7\<rparr>
    = Some ([Some 0, Some 1, Some 0], p'')"
proof -
  let ?p = "\<lparr>conns = [(TcpClientEpoll_new some_svr False None)\<lparr>cl_open := True\<rparr>,
      (TcpClientEpoll_new other_svr False None)\<lparr>cl_open := True\<rparr>], conn_index = 7\<rparr>"
  have "conns ?p \<noteq> []" "length (conns ?p) < 2 ^ 32" by simp_all
  moreover have "\<forall>c \<in> set (conns ?p). \<not> conn_is_close tcp_class c"
    by (simp add: tcp_class_def TcpClientEpoll_is_close_def)
  ultimately obtain p'' where
    "get_conns tcp_class 3 ?p = Some (map (\<lambda>i. Some ((start_at ?p + i) mod length (conns ?p))) [0..<3], p'')"
    using get_conn_in_turn [of ?p tcp_class] by blast
  moreover have "start_at ?p = 0" "length (conns ?p) = 2" by (simp_all add: start_at_def)
  moreover have "map (\<lambda>i. Some ((0 + i) mod 2)) [0..<3] = [Some 0, Some 1, Some (0 :: nat)]"
    by (simp add: upt_rec)
  ultimately show ?thesis by (simp add: numeral_2_eq_2)
qed

end
