(* ===== verification/PoolTimer.thy ===== *)
theory PoolTimer
  imports ConnMgt
begin

text \<open>
  The timer of the pool: the thread that \<open>ConnMgtLB::init\<close> starts (SelectTimer.cpp), whose handler
  reconnects (ConnMgtLB.h, \<open>ConnTimerHandler\<close>). The two locales of SelectTimer are interpreted on
  the pool of TCP clients.
\<close>

section \<open>What a call of the timer does to the pool\<close>

definition pool_ok :: "tcp_client conn_mgt \<Rightarrow> bool" where
  "pool_ok p \<longleftrightarrow> (\<forall>c \<in> set (conns p). good_client c)"

definition pool_keeps :: "tcp_client conn_mgt \<Rightarrow> tcp_client conn_mgt \<Rightarrow> log \<Rightarrow> bool" where
  "pool_keeps p p' m \<longleftrightarrow> map cl_svr (conns p') = map cl_svr (conns p) \<and> conn_index p' = conn_index p
     \<and> tcp_pool.pool_step (conns p) (conns p') m"

text \<open>A system on which, from the \<open>n\<close>-th call on, every socket is made and every server answers.\<close>

definition servers_answer :: "os \<Rightarrow> nat \<Rightarrow> bool" where
  "servers_answer os n \<longleftrightarrow> (\<forall>k \<ge> n. (\<forall>kd. 0 \<le> rv (os k (C_socket kd)))
     \<and> (\<forall>f ip port. rv (os k (C_connect f ip port)) = 0))"

definition pool_connected :: "tcp_client conn_mgt \<Rightarrow> bool" where
  "pool_connected p \<longleftrightarrow> (\<forall>c \<in> set (conns p). \<not> TcpClientEpoll_is_close c)"

lemma timer_call:
  "ConnTimerHandler_handle_timeout tcp_class os p l = (r, p', l') \<longleftrightarrow>
   r = 0 \<and> (\<exists>cs. connect_all tcp_class os (conns p) l = (cs, l') \<and> p' = p\<lparr>conns := cs\<rparr>)"
  by (auto simp: ConnTimerHandler_handle_timeout_def conn_timer_cb_def ConnMgtLB_check_conn_def
      split: prod.splits)

lemma connect_good:
  assumes "good_client c" and "TcpClientEpoll_connect os c l = (r, c', l')"
  shows "good_client c'" and "\<exists>m. l' = l @ m \<and> (\<forall>e \<in> set m. \<not> timed_out e)"
    and "cl_open c \<Longrightarrow> cl_open c'" and "servers_answer os (length l) \<Longrightarrow> cl_open c'"
proof -
  show "good_client c'" using good_client_connect [OF assms] by blast
  show "\<exists>m. l' = l @ m \<and> (\<forall>e \<in> set m. \<not> timed_out e)" "cl_open c \<Longrightarrow> cl_open c'"
    using assms
    by (auto simp: good_client_def TcpClientEpoll_connect_def SocketUtils_connect_s_def syscall_def
        do_call_eq Let_def timed_out_def split: if_splits)
  assume ans: "servers_answer os (length l)"
  then have "0 \<le> rv (os (length l) (C_socket SOCK_STREAM))"
    "\<And>f ip port. rv (os (Suc (length l)) (C_connect f ip port)) = 0"
    by (auto simp: servers_answer_def)
  then show "cl_open c'"
    using assms
    by (auto simp: good_client_def TcpClientEpoll_connect_def SocketUtils_connect_s_def syscall_def
        Let_def split: if_splits)
qed

lemma connect_all_good:
  "\<forall>c \<in> set cs. good_client c \<Longrightarrow> connect_all tcp_class os cs l = (cs', l') \<Longrightarrow>
   (\<exists>m. l' = l @ m \<and> (\<forall>e \<in> set m. \<not> timed_out e))
   \<and> (servers_answer os (length l) \<or> (\<forall>c \<in> set cs. cl_open c) \<longrightarrow> (\<forall>c \<in> set cs'. cl_open c))"
proof (induction cs arbitrary: cs' l l')
  case (Cons c cs)
  obtain r c1 l1 where k: "TcpClientEpoll_connect os c l = (r, c1, l1)" by (metis prod_cases3)
  obtain ds where d: "connect_all tcp_class os cs l1 = (ds, l')" and cs': "cs' = c1 # ds"
    using Cons.prems(2) k by (auto simp: tcp_class_def split: prod.splits)
  have g: "good_client c" using Cons.prems(1) by simp
  from connect_good(2) [OF g k] obtain m where m: "l1 = l @ m" "\<forall>e \<in> set m. \<not> timed_out e" by blast
  have ans: "servers_answer os (length l1)" if "servers_answer os (length l)"
    using that m(1) by (simp add: servers_answer_def)
  from Cons.IH [OF _ d] Cons.prems(1) obtain n where n: "l' = l1 @ n" "\<forall>e \<in> set n. \<not> timed_out e"
      "servers_answer os (length l1) \<or> (\<forall>c \<in> set cs. cl_open c) \<longrightarrow> (\<forall>c \<in> set ds. cl_open c)" by auto
  show ?case
    using m n ans connect_good(3,4) [OF g k] by (auto simp: cs' intro!: exI [of _ "m @ n"])
qed simp

interpretation pool_timer: timer_restores "ConnTimerHandler_handle_timeout tcp_class" pool_ok pool_keeps
  servers_answer pool_connected
proof unfold_locales
  fix p os l r p' l'
  assume ok: "pool_ok p" and h: "ConnTimerHandler_handle_timeout tcp_class os p l = (r, p', l')"
  from h obtain cs where cs: "connect_all tcp_class os (conns p) l = (cs, l')" "p' = p\<lparr>conns := cs\<rparr>"
    by (auto simp: timer_call)
  from tcp_pool.connect_all_step [OF _ cs(1)] ok show "pool_ok p' \<and> (\<exists>m. l' = l @ m \<and> pool_keeps p p' m)"
    by (auto simp: pool_ok_def pool_keeps_def cs(2) tcp_class_def)
  note good = connect_all_good [OF ok [unfolded pool_ok_def] cs(1)]
  show "servers_answer os (length l) \<Longrightarrow> pool_connected p'" and "pool_connected p \<Longrightarrow> pool_connected p'"
    using good by (auto simp: pool_connected_def TcpClientEpoll_is_close_def cs(2))
next
  show "pool_keeps p p [e]" if "idle_call (fst e)" for p e
    using that by (auto simp: pool_keeps_def tcp_pool.pool_step_def idle_call_def fd_effect_def split: call.splits)
next
  show "pool_keeps p p2 (m @ n)" if "pool_keeps p p1 m" "pool_keeps p1 p2 n" for p p1 p2 m n
    using that tcp_pool.pool_step_trans by (auto simp: pool_keeps_def)
next
  show "servers_answer os k" if "servers_answer os n" "n \<le> k" for os n k
    using that by (simp add: servers_answer_def)
next
  fix p os l r p' m
  assume ok: "pool_ok p" and h: "ConnTimerHandler_handle_timeout tcp_class os p l = (r, p', l @ m)"
  then show "\<forall>e \<in> set m. \<not> timed_out e"
    using connect_all_good [OF ok [unfolded pool_ok_def]] by (fastforce simp: timer_call)
qed

section \<open>A pool that runs\<close>

lemma pool_init_state:
  assumes "ConnMgtLB_init tcp_class os h sec usec svrs \<lparr>conns = [], conn_index = i\<rparr> l = (0, p, tm, t, l1)"
  shows "pool_ok p \<and> distinct (map (\<lambda>c. svr_addr (cl_svr c)) (conns p))
    \<and> (\<lambda>c. svr_addr (cl_svr c)) ` set (conns p) = svr_addr ` set svrs
    \<and> SelectTimer_get_interval tm = 5000000
    \<and> (\<exists>m. l1 = l @ m \<and> tcp_pool.pool_step [] (conns p) m)"
proof -
  obtain q k where r: "ConnMgtLB_refresh tcp_class os svrs \<lparr>conns = [], conn_index = 0\<rparr> l = (q, k)" by fastforce
  from tcp_pool.refresh_step [OF _ r] obtain m where
    q: "\<forall>c \<in> set (conns q). good_client c" "distinct (map (\<lambda>c. svr_addr (cl_svr c)) (conns q))"
      "(\<lambda>c. svr_addr (cl_svr c)) ` set (conns q) = svr_addr ` set svrs"
      "k = l @ m" "tcp_pool.pool_step [] (conns q) m"
    by (auto simp: tcp_class_def)
  obtain t0 k1 where i: "Thread_init os 1 True 0 [] Thread_new k = (0, t0, k1)"
      "Thread_run os t0 k1 = (0, t, l1)" "p = q"
      "tm = \<lparr>timer_handler = Some h, t_sec = 5, t_usec = 0\<rparr>"
    using assms r by (auto simp: ConnMgtLB_init_def SelectTimer_register_def SelectTimer_new_def Let_def
        split: prod.splits if_splits)
  from Thread_init_neutral [OF i(1)] Thread_run_neutral [OF i(2)] obtain n where
    n: "l1 = k @ n" "neutral_log n" using neutral_append by fastforce
  then have "tcp_pool.pool_step [] (conns p) (m @ n)"
    using q(5) by (auto simp: i(3) tcp_pool.pool_step_def neutral_log_def fresh_fds_append)
  then show ?thesis
    using q n by (auto simp: i(3,4) pool_ok_def SelectTimer_get_interval_def)
qed

text \<open>
  C12: the timer that \<open>init\<close> starts keeps the pool connected. While its thread runs, the pool has
  one connection for each address it was given, the descriptors opened and not closed are
  exactly the sockets of the open connections, and as soon as one of its waits of five seconds
  has timed out after the servers began to answer, all connections of the pool are open, and
  stay so.
\<close>

theorem pool_reconnects:
  assumes "ConnMgtLB_init tcp_class os h sec usec svrs \<lparr>conns = [], conn_index = i\<rparr> l = (0, p, tm, t, l1)"
    and "thread_proc os (SelectTimer_svc_on (ConnTimerHandler_handle_timeout tcp_class) os tm) stops t p l1
      = Some (t2, p2, l2)"
  shows "SelectTimer_get_interval tm = 5000000
    \<and> distinct (map (\<lambda>c. svr_addr (cl_svr c)) (conns p2))
    \<and> (\<lambda>c. svr_addr (cl_svr c)) ` set (conns p2) = svr_addr ` set svrs
    \<and> (\<exists>m. l2 = l @ m \<and> (\<forall>S. fresh_fds S m \<longrightarrow>
          open_fds m S = S \<union> {cl_fd c |c. c \<in> set (conns p2) \<and> \<not> TcpClientEpoll_is_close c}))
    \<and> (\<exists>n. l2 = l1 @ n \<and> (\<forall>N k. servers_answer os N \<and> k < length n \<and> timed_out (n ! k) \<and> N \<le> length l1 + k
          \<longrightarrow> (\<forall>c \<in> set (conns p2). \<not> TcpClientEpoll_is_close c)))"
proof -
  from pool_init_state [OF assms(1)] obtain m where p: "pool_ok p"
      "distinct (map (\<lambda>c. svr_addr (cl_svr c)) (conns p))"
      "(\<lambda>c. svr_addr (cl_svr c)) ` set (conns p) = svr_addr ` set svrs"
      "SelectTimer_get_interval tm = 5000000" "l1 = l @ m" "tcp_pool.pool_step [] (conns p) m" by blast
  from pool_timer.thread_keeps [OF assms(2) p(1)] obtain n where n: "pool_ok p2" "l2 = l1 @ n" "pool_keeps p p2 n"
    by blast
  have svrs: "map cl_svr (conns p2) = map cl_svr (conns p)" using n(3) by (simp add: pool_keeps_def)
  then have addr: "map (\<lambda>c. svr_addr (cl_svr c)) (conns p2) = map (\<lambda>c. svr_addr (cl_svr c)) (conns p)"
    by (metis (no_types, lifting) list.map_comp map_eq_conv comp_apply)
  have img: "(\<lambda>c. svr_addr (cl_svr c)) ` set (conns p2) = svr_addr ` set svrs"
    using arg_cong [OF addr, of set] p(3) by simp
  have "tcp_pool.pool_step [] (conns p2) (m @ n)"
    using tcp_pool.pool_step_trans p(6) n(3) by (auto simp: pool_keeps_def)
  moreover have "all_fds client_fds (conns p2) = {cl_fd c |c. c \<in> set (conns p2) \<and> \<not> TcpClientEpoll_is_close c}"
    using n(1) by (auto simp: all_fds_def client_fds_def good_client_def TcpClientEpoll_is_close_def pool_ok_def)
  ultimately have fds: "fresh_fds S (m @ n) \<Longrightarrow>
      open_fds (m @ n) S = S \<union> {cl_fd c |c. c \<in> set (conns p2) \<and> \<not> TcpClientEpoll_is_close c}" for S
    by (auto simp: tcp_pool.pool_step_def simp del: open_fds_append)
  have all_open: "\<forall>c \<in> set (conns p2). \<not> TcpClientEpoll_is_close c"
    if "servers_answer os N" "k < length n" "timed_out (n ! k)" "N \<le> length l1 + k" for N k
    using pool_timer.thread_restores [OF assms(2) [unfolded n(2)] p(1) that] by (simp add: pool_connected_def)
  show ?thesis
    using p(2,4,5) addr img n(2) fds all_open
    by (intro conjI exI [of _ "m @ n"] exI [of _ n]) (auto simp del: open_fds_append)
qed

text \<open>A server that answers from the third call on, and one timeout.\<close>

definition late_os :: os where
  "late_os n c = (case c of
      C_socket k \<Rightarrow> ok_reply (int n + 3)
    | C_connect f ip port \<Rightarrow> ok_reply (if n < 3 then - 1 else 0)
    | C_thread_create \<Rightarrow> (ok_reply 0)\<lparr>nums := [7]\<rparr>
    | _ \<Rightarrow> ok_reply 0)"

lemma late_init:
  "\<exists>p tm t l. ConnMgtLB_init tcp_class late_os 4 0 0 [some_svr] \<lparr>conns = [], conn_index = 9\<rparr> []
     = (0, p, tm, t, l) \<and> length l = 7 \<and> conns p = [TcpClientEpoll_new some_svr False None]
     \<and> tm = \<lparr>timer_handler = Some 4, t_sec = 5, t_usec = 0\<rparr>"
  by (simp add: ConnMgtLB_init_def tcp_class_def ConnMgtLB_refresh_def TcpClientEpoll_connect_def
      SocketUtils_connect_s_def syscall_def do_call_eq Let_def late_os_def TcpClientEpoll_new_def some_svr_def
      ok_reply_def SelectTimer_register_def SelectTimer_new_def Thread_init_def Thread_new_def Thread_run_def)

lemma pool_reconnects_witness:
  "\<exists>p tm t l1 t2 p2 l2. ConnMgtLB_init tcp_class late_os 4 0 0 [some_svr] \<lparr>conns = [], conn_index = 9\<rparr> []
       = (0, p, tm, t, l1)
     \<and> thread_proc late_os (SelectTimer_svc_on (ConnTimerHandler_handle_timeout tcp_class) late_os tm)
         (\<lambda>n. True) t p l1 = Some (t2, p2, l2)
     \<and> TcpClientEpoll_is_close (hd (conns p)) \<and> (\<forall>c \<in> set (conns p2). \<not> TcpClientEpoll_is_close c)"
proof -
  from late_init obtain p tm t l1 where i:
      "ConnMgtLB_init tcp_class late_os 4 0 0 [some_svr] \<lparr>conns = [], conn_index = 9\<rparr> [] = (0, p, tm, t, l1)"
      "length l1 = 7" "conns p = [TcpClientEpoll_new some_svr False None]"
      "tm = \<lparr>timer_handler = Some 4, t_sec = 5, t_usec = 0\<rparr>" by blast
  let ?m = "[(H_prepare, ok_reply 0), (C_select 1 5 0, ok_reply 0), (C_socket SOCK_STREAM, ok_reply 12),
    (C_connect 12 (c_str (svr_ip some_svr)) (svr_port some_svr), ok_reply 0), (C_attr_destroy, ok_reply 0)]"
  obtain t2 p2 where r:
      "thread_proc late_os (SelectTimer_svc_on (ConnTimerHandler_handle_timeout tcp_class) late_os tm)
         (\<lambda>n. True) t p l1 = Some (t2, p2, l1 @ ?m)"
    using i(2-4)
    by (simp add: thread_proc_def svc_loop.simps SelectTimer_svc_on_def syscall_def do_call_eq Let_def
        late_os_def ok_reply_def timer_call ConnTimerHandler_handle_timeout_def conn_timer_cb_def
        ConnMgtLB_check_conn_def tcp_class_def TcpClientEpoll_connect_def SocketUtils_connect_s_def
        TcpClientEpoll_new_def Thread_clean_up_def some_svr_def c_str_def)
  have "servers_answer late_os 8" by (auto simp: servers_answer_def late_os_def ok_reply_def)
  then have "servers_answer late_os 8 \<and> 1 < length ?m \<and> timed_out (?m ! 1) \<and> 8 \<le> length l1 + 1"
    using i(2) by (simp add: timed_out_def ok_reply_def)
  with pool_reconnects [OF i(1) r] have "\<forall>c \<in> set (conns p2). \<not> TcpClientEpoll_is_close c"
    unfolding append_same_eq same_append_eq by blast
  moreover have "TcpClientEpoll_is_close (hd (conns p))"
    by (simp add: i(3) TcpClientEpoll_new_def TcpClientEpoll_is_close_def)
  ultimately show ?thesis using i(1) r by blast
qed

end
