(* ===== verification/TcpReactor.thy ===== *)
theory TcpReactor
  imports Thread TMap OSUtils SocketUtils
begin

text \<open>
  src/TcpReactor.cpp: a thread that waits on an epoll instance and calls the handlers of the
  connections that are ready. A handler is an object of the application, known by a number;
  its methods are outside calls (\<open>H_accept\<close>, \<open>H_input\<close>, ...) that do not themselves open or close
  the reactor's descriptors. A negative reply of \<open>renew\<close> is the null pointer. Calling a method of
  the null handler, and \<open>abort\<close>, are \<open>None\<close>.
\<close>

section \<open>State and operations\<close>

record tcp_args =
  arg_ip :: string
  arg_port :: ushort
  backlog :: uint
  epoll_size :: uint

definition StTcpReactorAgrs :: tcp_args where
  "StTcpReactorAgrs = \<lparr>arg_ip = '''', arg_port = 3300, backlog = 20480, epoll_size = 40960\<rparr>"

record tcp_reactor =
  t_handler :: "nat option"
  handlers :: "nat int_map"
  listen_fd :: int
  epfd :: int
  ep_events :: bool
  ep_size :: int

definition TcpReactor_new :: "nat option \<Rightarrow> tcp_reactor" where
  "TcpReactor_new h = \<lparr>t_handler = h, handlers = TMapInt_new, listen_fd = - 1, epfd = - 1,
     ep_events = False, ep_size = 0\<rparr>"

definition TcpReactor_prepare :: "os \<Rightarrow> log \<Rightarrow> int \<times> log" where
  "TcpReactor_prepare os l = signal_mask os SIG_BLOCK [SIGINT] l"

definition epoller_create :: "os \<Rightarrow> int \<Rightarrow> tcp_reactor \<Rightarrow> log \<Rightarrow> int \<times> tcp_reactor \<times> log" where
  "epoller_create os sz R l =
     (let (r, l) = syscall os (C_epoll_create sz) l; R = R\<lparr>epfd := rv r\<rparr> in
      if epfd R = - 1 then (- 1, R, l)
      else (0, R\<lparr>ep_size := sz, ep_events := True\<rparr>, l))"

definition epoller_ctl :: "os \<Rightarrow> tcp_reactor \<Rightarrow> int \<Rightarrow> ep_op \<Rightarrow> uint \<Rightarrow> log \<Rightarrow> int \<times> log" where
  "epoller_ctl os R fd op events l =
     (let (r, l) = syscall os (C_epoll_ctl (epfd R) op fd events) l in (rv r, l))"

definition do_listen :: "os \<Rightarrow> string \<Rightarrow> ushort \<Rightarrow> uint \<Rightarrow> tcp_reactor \<Rightarrow> log \<Rightarrow> int \<times> tcp_reactor \<times> log" where
  "do_listen os ip port bl R l =
     (let (r, l) = syscall os (C_socket SOCK_STREAM) l; R = R\<lparr>listen_fd := rv r\<rparr>; fd = listen_fd R in
      if fd < 0 then (fd, R, l)
      else
        (let (_, l) = set_reuseaddr os fd l;
             (_, l) = set_non_bolck os fd l;
             (_, l) = set_nodelay os fd l;
             (r, l) = syscall os (C_bind fd (c_str ip) port) l in
         if rv r \<noteq> 0 then (rv r, R, do_call os (C_close fd) l)
         else
           (let (r, l) = syscall os (C_listen fd (sint bl)) l in
            if rv r \<noteq> 0 then (rv r, R, do_call os (C_close fd) l)
            else
              (let (nRet, l) = epoller_ctl os R fd EPOLL_CTL_ADD EPOLLIN l in
               if nRet \<noteq> 0 then (nRet, R, do_call os (C_close fd) l)
               else (nRet, R, l)))))"

definition TcpReactor_do_init :: "os \<Rightarrow> tcp_args option \<Rightarrow> tcp_reactor \<Rightarrow> log \<Rightarrow> int \<times> tcp_reactor \<times> log" where
  "TcpReactor_do_init os args R l =
     (case args of
        None \<Rightarrow> (- 1, R, l)
      | Some a \<Rightarrow>
          (let (nRet, rlim_cur, l) = get_rlimit os RLIMIT_NOFILE l in
           if nRet \<noteq> 0 then (nRet, R, l)
           else
             (let sz = as_int (if rlim_cur > uint (epoll_size a) then uint (epoll_size a) else rlim_cur);
                  (nRet, R, l) = epoller_create os sz R l in
              if nRet \<noteq> 0 then (nRet, R, l)
              else do_listen os (arg_ip a) (arg_port a) (backlog a) R l)))"

definition TcpReactor_listen_fd :: "tcp_reactor \<Rightarrow> int" where
  "TcpReactor_listen_fd R = listen_fd R"

definition stop_listen :: "os \<Rightarrow> tcp_reactor \<Rightarrow> log \<Rightarrow> log" where
  "stop_listen os R l = do_call os (C_close (listen_fd R)) l"

definition TcpReactor_release :: "os \<Rightarrow> tcp_reactor \<Rightarrow> log \<Rightarrow> tcp_reactor \<times> log" where
  "TcpReactor_release os R l =
     (let l = do_call os (C_close (epfd R)) l;
          l = (case t_handler R of None \<Rightarrow> l | Some h \<Rightarrow> do_call os (H_delete h) l)
      in (R\<lparr>epfd := - 1, t_handler := None, ep_events := False, handlers := TMapInt_clear (handlers R)\<rparr>, l))"

definition TcpReactor_delete :: "os \<Rightarrow> tcp_reactor \<Rightarrow> log \<Rightarrow> tcp_reactor \<times> log" where
  "TcpReactor_delete os R l = TcpReactor_release os R l"

definition del_fd :: "os \<Rightarrow> int \<Rightarrow> tcp_reactor \<Rightarrow> log \<Rightarrow> tcp_reactor \<times> log" where
  "del_fd os fd R l =
     (let (_, l) = epoller_ctl os R fd EPOLL_CTL_DEL 0 l;
          l = do_call os (C_close fd) l
      in (R\<lparr>handlers := TMapInt_del (handlers R) fd\<rparr>, l))"

text \<open>The branches of the loop of \<open>svc\<close>, for one ready descriptor.\<close>

definition on_accept :: "os \<Rightarrow> tcp_reactor \<Rightarrow> log \<Rightarrow> (tcp_reactor \<times> log) option" where
  "on_accept os R l =
     (let (r, l) = syscall os (C_accept (listen_fd R)) l; conn_fd = rv r in
      if conn_fd < 0 then Some (R, l)
      else
        (let (_, l) = set_snd_timeout os conn_fd 3 l in
         case t_handler R of
           None \<Rightarrow> None
         | Some proto \<Rightarrow>
             (let (r, l) = syscall os (H_renew proto) l in
              if rv r < 0 then None
              else
                (let h = nat (rv r);
                     (r, l) = syscall os (H_accept h conn_fd) l in
                 if rv r \<noteq> 0 then Some (R, do_call os (C_close conn_fd) l)
                 else
                   (let (_, l) = epoller_ctl os R conn_fd EPOLL_CTL_ADD (EPOLLIN + EPOLLPRI) l
                    in Some (R\<lparr>handlers := TMapInt_insert (handlers R) conn_fd h\<rparr>, l))))))"

definition on_input :: "os \<Rightarrow> int \<Rightarrow> tcp_reactor \<Rightarrow> log \<Rightarrow> tcp_reactor \<times> log" where
  "on_input os fd R l =
     (case TMapInt_get (handlers R) fd of
        (True, Some h) \<Rightarrow>
          (let (r, l) = syscall os (H_input h fd) l in
           if rv r \<noteq> 0 then
             (let (_, l) = epoller_ctl os R fd EPOLL_CTL_DEL 0 l;
                  l = do_call os (H_close h fd) l;
                  l = do_call os (C_close fd) l
              in (R\<lparr>handlers := TMapInt_del (handlers R) fd\<rparr>, l))
           else (R, l))
      | _ \<Rightarrow> (R, l))"

definition on_event :: "os \<Rightarrow> int \<times> uint \<Rightarrow> tcp_reactor \<Rightarrow> log \<Rightarrow> (tcp_reactor \<times> log) option" where
  "on_event os ev R l =
     (let (fd, events) = ev in
      if events AND EPOLLOUT \<noteq> 0 then
        (case TMapInt_get (handlers R) fd of
           (True, Some h) \<Rightarrow> Some (R, do_call os (H_output h fd) l)
         | _ \<Rightarrow> Some (R, l))
      else if events AND EPOLLIN \<noteq> 0 then
        (if listen_fd R = fd then on_accept os R l else Some (on_input os fd R l))
      else if events AND EPOLLPRI \<noteq> 0 then
        (case TMapInt_get (handlers R) fd of
           (True, Some h) \<Rightarrow> Some (R, do_call os (H_exception h fd) l)
         | _ \<Rightarrow> Some (R, l))
      else Some (R, l))"

fun on_events :: "os \<Rightarrow> (int \<times> uint) list \<Rightarrow> tcp_reactor \<Rightarrow> log \<Rightarrow> (tcp_reactor \<times> log) option" where
  "on_events os [] R l = Some (R, l)"
| "on_events os (ev # evs) R l = do { (R, l) \<leftarrow> on_event os ev R l; on_events os evs R l }"

definition TcpReactor_svc :: "os \<Rightarrow> tcp_reactor \<Rightarrow> log \<Rightarrow> (int \<times> tcp_reactor \<times> log) option" where
  "TcpReactor_svc os R l =
     (let (r, l) = syscall os (C_epoll_wait (epfd R) (ep_size R) (- 1)) l; fd_cnt = rv r in
      if fd_cnt > 0 then
        do { (R, l) \<leftarrow> on_events os (take (nat fd_cnt) (ready r)) R l; Some (0, R, l) }
      else if fd_cnt = 0 then Some (0, R, l)
      else if err r = EINTR then Some (0, R, l)
      else None)"

section \<open>The life of a connection\<close>

text \<open>
  What the handlers see, as an automaton over the log: a connection is live from an accepted
  \<open>H_accept\<close> to its \<open>H_close\<close>; while it lives, its own handler alone gets its events, and no
  event of it comes before or after. \<open>None\<close> is a violation.
\<close>

definition life_step :: "call \<times> reply \<Rightarrow> (int \<Rightarrow> nat option) \<Rightarrow> (int \<Rightarrow> nat option) option" where
  "life_step e f = (case fst e of
       H_accept h fd \<Rightarrow>
         (if f fd \<noteq> None then None else if rv (snd e) = 0 then Some (f(fd \<mapsto> h)) else Some f)
     | H_input h fd \<Rightarrow> (if f fd = Some h then Some f else None)
     | H_output h fd \<Rightarrow> (if f fd = Some h then Some f else None)
     | H_exception h fd \<Rightarrow> (if f fd = Some h then Some f else None)
     | H_close h fd \<Rightarrow> (if f fd = Some h then Some (f(fd := None)) else None)
     | _ \<Rightarrow> Some f)"

fun life :: "log \<Rightarrow> (int \<Rightarrow> nat option) \<Rightarrow> (int \<Rightarrow> nat option) option" where
  "life [] f = Some f"
| "life (e # l) f = do { f \<leftarrow> life_step e f; life l f }"

lemma life_append: "life (l @ m) f = do { f \<leftarrow> life l f; life m f }"
proof (induction l arbitrary: f)
  case (Cons e l)
  then show ?case by (cases "life_step e f") simp_all
qed simp

text \<open>
  The invariant: the handler map is well formed, and the open descriptors are the two of the
  reactor and those of the live connections, which are distinct.
\<close>

definition reactor_inv :: "tcp_reactor \<Rightarrow> int set \<Rightarrow> int set \<Rightarrow> bool" where
  "reactor_inv R S0 S \<longleftrightarrow> map_wf (handlers R) \<and> S = S0 \<union> dom (map_find (handlers R))
     \<and> S0 \<inter> dom (map_find (handlers R)) = {}"

text \<open>What a piece of the log does, if the kernel gives out fresh descriptors.\<close>

definition piece_ok :: "int set \<Rightarrow> tcp_reactor \<Rightarrow> tcp_reactor \<Rightarrow> log \<Rightarrow> bool" where
  "piece_ok S0 R R' m \<longleftrightarrow>
     (\<forall>S. reactor_inv R S0 S \<and> fresh_fds S m \<longrightarrow>
        reactor_inv R' S0 (open_fds m S)
        \<and> life m (map_find (handlers R)) = Some (map_find (handlers R')))"

lemma piece_ok_refl [simp]: "piece_ok S0 R R []"
  by (simp add: piece_ok_def)

lemma piece_ok_trans:
  assumes "piece_ok S0 R R1 m" and "piece_ok S0 R1 R2 n" shows "piece_ok S0 R R2 (m @ n)"
  unfolding piece_ok_def
proof (intro allI impI)
  fix S assume S: "reactor_inv R S0 S \<and> fresh_fds S (m @ n)"
  then have "reactor_inv R1 S0 (open_fds m S)"
      "life m (map_find (handlers R)) = Some (map_find (handlers R1))"
      "fresh_fds (open_fds m S) n"
    using assms(1) by (auto simp: piece_ok_def fresh_fds_append)
  with assms(2) show "reactor_inv R2 S0 (open_fds (m @ n) S)
      \<and> life (m @ n) (map_find (handlers R)) = Some (map_find (handlers R2))"
    by (simp add: piece_ok_def life_append)
qed

lemma TMapInt_get_iff: "TMapInt_get m k = (True, Some v) \<longleftrightarrow> map_find m k = Some v"
  by (auto simp: TMapInt_get_def split: option.splits)


lemmas log_simps = syscall_def do_call_eq Let_def fd_effect_def new_fd_def life_step_def

lemma TMapInt_insert_new:
  "map_find m k = None \<Longrightarrow> map_wf m \<Longrightarrow> map_find (TMapInt_insert m k v) = (map_find m)(k \<mapsto> v)"
  by (auto simp: TMapInt_insert_def fun_eq_iff)

lemma TMapInt_del_find: "map_wf m \<Longrightarrow> map_find (TMapInt_del m k) = (map_find m)(k := None)"
  by (auto simp: TMapInt_del_def fun_eq_iff split: option.splits)

lemma TMapInt_wf [simp]:
  "map_wf m \<Longrightarrow> map_wf (TMapInt_insert m k v)" "map_wf m \<Longrightarrow> map_wf (TMapInt_del m k)"
  by (simp_all add: TMapInt_insert_def TMapInt_del_def split: option.splits)

lemma on_accept_piece:
  assumes "on_accept os R l = Some (R', l')"
  shows "\<exists>m. l' = l @ m \<and> piece_ok S0 R R' m \<and> listen_fd R' = listen_fd R \<and> epfd R' = epfd R"
proof -
  define r where "r = os (length l) (C_accept (listen_fd R))"
  define c where "c = rv r"
  show ?thesis
  proof (cases "c < 0")
    case True
    then have "R' = R" "l' = l @ [(C_accept (listen_fd R), r)]"
      using assms by (auto simp: on_accept_def log_simps c_def r_def)
    with True show ?thesis by (simp add: piece_ok_def log_simps c_def)
  next
    case False
    with assms obtain p where p: "t_handler R = Some p"
      by (auto simp: on_accept_def log_simps c_def r_def split: option.splits prod.splits)
    define t where "t = os (Suc (length l)) (C_setsockopt c SO_SNDTIMEO 3)"
    define n where "n = os (Suc (Suc (length l))) (H_renew p)"
    define h where "h = nat (rv n)"
    define a where "a = os (Suc (Suc (Suc (length l)))) (H_accept h c)"
    let ?m = "[(C_accept (listen_fd R), r), (C_setsockopt c SO_SNDTIMEO 3, t), (H_renew p, n), (H_accept h c, a)]"
    have "rv n \<ge> 0"
      using assms False p
      by (auto simp: on_accept_def set_snd_timeout_def syscall_def Let_def c_def r_def n_def split: if_splits)
    then have eq: "on_accept os R l = (if rv a \<noteq> 0 then Some (R, do_call os (C_close c) (l @ ?m))
       else (let (_, l) = epoller_ctl os R c EPOLL_CTL_ADD (EPOLLIN + EPOLLPRI) (l @ ?m)
             in Some (R\<lparr>handlers := TMapInt_insert (handlers R) c h\<rparr>, l)))"
      using False p
      by (simp add: on_accept_def set_snd_timeout_def syscall_def Let_def c_def r_def t_def n_def h_def a_def)
    show ?thesis
    proof (cases "rv a = 0")
      case True
      define e where "e = os (length (l @ ?m)) (C_epoll_ctl (epfd R) EPOLL_CTL_ADD c (EPOLLIN + EPOLLPRI))"
      have "R' = R\<lparr>handlers := TMapInt_insert (handlers R) c h\<rparr>"
        and "l' = l @ ?m @ [(C_epoll_ctl (epfd R) EPOLL_CTL_ADD c (EPOLLIN + EPOLLPRI), e)]"
        using assms True by (auto simp: eq epoller_ctl_def syscall_def Let_def e_def)
      moreover have "piece_ok S0 R (R\<lparr>handlers := TMapInt_insert (handlers R) c h\<rparr>)
          (?m @ [(C_epoll_ctl (epfd R) EPOLL_CTL_ADD c (EPOLLIN + EPOLLPRI), e)])"
        using True False
        by (auto simp: piece_ok_def reactor_inv_def log_simps c_def TMapInt_insert_new domIff)
      ultimately show ?thesis by auto
    next
      case ref: False
      define e where "e = os (length (l @ ?m)) (C_close c)"
      have "R' = R" and "l' = l @ ?m @ [(C_close c, e)]"
        using assms ref by (auto simp: eq do_call_eq e_def)
      moreover have "piece_ok S0 R R (?m @ [(C_close c, e)])"
        using ref False by (auto simp: piece_ok_def reactor_inv_def log_simps c_def domIff)
      ultimately show ?thesis by auto
    qed
  qed
qed

lemma on_input_piece:
  assumes "on_input os fd R l = (R', l')"
  shows "\<exists>m. l' = l @ m \<and> piece_ok S0 R R' m \<and> listen_fd R' = listen_fd R \<and> epfd R' = epfd R"
proof (cases "map_find (handlers R) fd")
  case None
  then have "on_input os fd R l = (R, l)" by (simp add: on_input_def TMapInt_get_def)
  with assms show ?thesis by (intro exI [of _ "[]"]) simp
next
  case (Some h)
  define r where "r = os (length l) (H_input h fd)"
  show ?thesis
  proof (cases "rv r = 0")
    case True
    then have "R' = R" "l' = l @ [(H_input h fd, r)]"
      using assms Some by (auto simp: on_input_def TMapInt_get_def syscall_def Let_def r_def)
    then show ?thesis using Some by (simp add: piece_ok_def log_simps)
  next
    case False
    let ?e = "C_epoll_ctl (epfd R) EPOLL_CTL_DEL fd 0"
    define e where "e = os (Suc (length l)) ?e"
    define c where "c = os (Suc (Suc (length l))) (H_close h fd)"
    define d where "d = os (Suc (Suc (Suc (length l)))) (C_close fd)"
    let ?m = "[(H_input h fd, r), (?e, e), (H_close h fd, c), (C_close fd, d)]"
    have "R' = R\<lparr>handlers := TMapInt_del (handlers R) fd\<rparr>" and "l' = l @ ?m"
      using assms Some False
      by (auto simp: on_input_def TMapInt_get_def epoller_ctl_def syscall_def do_call_eq Let_def r_def
          e_def c_def d_def)
    moreover have "piece_ok S0 R (R\<lparr>handlers := TMapInt_del (handlers R) fd\<rparr>) ?m"
      using Some by (auto simp: piece_ok_def reactor_inv_def log_simps TMapInt_del_find)
    ultimately show ?thesis by auto
  qed
qed

lemma single_piece:
  "map_find (handlers R) fd = Some h \<Longrightarrow> piece_ok S0 R R [(H_output h fd, r)]"
  "map_find (handlers R) fd = Some h \<Longrightarrow> piece_ok S0 R R [(H_exception h fd, r)]"
  by (simp_all add: piece_ok_def log_simps)

lemma on_event_piece:
  assumes "on_event os ev R l = Some (R', l')"
  shows "\<exists>m. l' = l @ m \<and> piece_ok S0 R R' m \<and> listen_fd R' = listen_fd R \<and> epfd R' = epfd R"
proof -
  obtain fd events where ev: "ev = (fd, events)" by fastforce
  have "on_accept os R l = Some (R', l') \<or> on_input os fd R l = (R', l')
    \<or> (\<exists>h. map_find (handlers R) fd = Some h \<and> R' = R \<and> l' = do_call os (H_output h fd) l)
    \<or> (\<exists>h. map_find (handlers R) fd = Some h \<and> R' = R \<and> l' = do_call os (H_exception h fd) l)
    \<or> R' = R \<and> l' = l"
    using assms
    by (simp add: on_event_def ev TMapInt_get_def Let_def split: if_split_asm option.split_asm)
  then show ?thesis
  proof (elim disjE exE conjE)
    assume "on_accept os R l = Some (R', l')"
    then show ?thesis by (rule on_accept_piece)
  next
    assume "on_input os fd R l = (R', l')"
    then show ?thesis by (rule on_input_piece)
  next
    fix h assume "map_find (handlers R) fd = Some h" "R' = R" "l' = do_call os (H_output h fd) l"
    then show ?thesis using single_piece(1) by (auto simp: do_call_eq)
  next
    fix h assume "map_find (handlers R) fd = Some h" "R' = R" "l' = do_call os (H_exception h fd) l"
    then show ?thesis using single_piece(2) by (auto simp: do_call_eq)
  next
    assume "R' = R" "l' = l"
    then show ?thesis by (intro exI [of _ "[]"]) simp
  qed
qed

lemma on_events_piece:
  "on_events os evs R l = Some (R', l') \<Longrightarrow>
   \<exists>m. l' = l @ m \<and> piece_ok S0 R R' m \<and> listen_fd R' = listen_fd R \<and> epfd R' = epfd R"
proof (induction evs arbitrary: R l)
  case (Cons ev evs)
  then obtain R1 l1 where 1: "on_event os ev R l = Some (R1, l1)" "on_events os evs R1 l1 = Some (R', l')"
    by (auto simp: bind_eq_Some_conv)
  from on_event_piece [OF 1(1), of S0] obtain m where
    m: "l1 = l @ m" "piece_ok S0 R R1 m" "listen_fd R1 = listen_fd R" "epfd R1 = epfd R" by blast
  from Cons.IH [OF 1(2)] obtain n where
    n: "l' = l1 @ n" "piece_ok S0 R1 R' n" "listen_fd R' = listen_fd R1" "epfd R' = epfd R1" by blast
  show ?case
    using m n piece_ok_trans [OF m(2) n(2)] by (intro exI [of _ "m @ n"]) simp
qed simp

lemma svc_piece:
  assumes "TcpReactor_svc os R l = Some (r, R', l')"
  shows "r = 0 \<and> (\<exists>m. l' = l @ m \<and> piece_ok S0 R R' m \<and> listen_fd R' = listen_fd R \<and> epfd R' = epfd R)"
proof -
  define w where "w = os (length l) (C_epoll_wait (epfd R) (ep_size R) (- 1))"
  let ?w = "(C_epoll_wait (epfd R) (ep_size R) (- 1), w)"
  have w: "piece_ok S0 R R [?w]" by (simp add: piece_ok_def log_simps)
  have "r = 0 \<and> (l' = l @ [?w] \<and> R' = R
      \<or> on_events os (take (nat (rv w)) (ready w)) R (l @ [?w]) = Some (R', l'))"
    using assms by (auto simp: TcpReactor_svc_def syscall_def Let_def w_def bind_eq_Some_conv split: if_splits)
  then show ?thesis
  proof (elim conjE disjE)
    assume "r = 0" "l' = l @ [?w]" "R' = R"
    with w show ?thesis by auto
  next
    assume "r = 0" and e: "on_events os (take (nat (rv w)) (ready w)) R (l @ [?w]) = Some (R', l')"
    from on_events_piece [OF e, of S0] obtain n where n: "l' = (l @ [?w]) @ n" "piece_ok S0 R R' n"
        "listen_fd R' = listen_fd R" "epfd R' = epfd R" by blast
    with piece_ok_trans [OF w n(2)] \<open>r = 0\<close> show ?thesis by (intro conjI exI [of _ "[?w] @ n"]) simp_all
  qed
qed


section \<open>Properties\<close>

text \<open>Any number of rounds of the reactor's thread.\<close>

fun svc_rounds :: "os \<Rightarrow> nat \<Rightarrow> tcp_reactor \<Rightarrow> log \<Rightarrow> (tcp_reactor \<times> log) option" where
  "svc_rounds os 0 R l = Some (R, l)"
| "svc_rounds os (Suc n) R l =
     do { (R, l) \<leftarrow> svc_rounds os n R l; (r, R, l) \<leftarrow> TcpReactor_svc os R l; Some (R, l) }"

lemma svc_rounds_piece:
  "svc_rounds os n R l = Some (R', l') \<Longrightarrow>
   \<exists>m. l' = l @ m \<and> piece_ok S0 R R' m \<and> listen_fd R' = listen_fd R \<and> epfd R' = epfd R"
proof (induction n arbitrary: R' l')
  case (Suc n)
  then obtain R1 l1 r where 1: "svc_rounds os n R l = Some (R1, l1)" "TcpReactor_svc os R1 l1 = Some (r, R', l')"
    by (auto simp: bind_eq_Some_conv)
  from Suc.IH [OF 1(1)] obtain m where
    m: "l1 = l @ m" "piece_ok S0 R R1 m" "listen_fd R1 = listen_fd R" "epfd R1 = epfd R" by blast
  from svc_piece [OF 1(2), of S0] obtain n where
    n: "l' = l1 @ n" "piece_ok S0 R1 R' n" "listen_fd R' = listen_fd R1" "epfd R' = epfd R1" by blast
  show ?case
    using m n piece_ok_trans [OF m(2) n(2)] by (intro exI [of _ "m @ n"]) simp
qed simp

lemma fresh_reactor_inv: "handlers R = TMapInt_new \<Longrightarrow> reactor_inv R S S"
  by (auto simp: reactor_inv_def TMapInt_new_def)

text \<open>
  C7: after any number of rounds of the reactor, with any replies of the system and any results
  of the handlers, the descriptors open are those that were open when it started and those
  of the connections in its handler map: no accepted connection is lost track of, none is
  closed twice, and no entry of the map is stale. A round always returns 0.
\<close>

theorem reactor_descriptors:
  assumes "handlers R = TMapInt_new" and "svc_rounds os n R l = Some (R', l')"
  shows "\<exists>m. l' = l @ m \<and> (\<forall>S. fresh_fds S m \<longrightarrow>
      open_fds m S = S \<union> {fd. \<exists>h. TMapInt_get (handlers R') fd = (True, Some h)}
      \<and> S \<inter> {fd. \<exists>h. TMapInt_get (handlers R') fd = (True, Some h)} = {})
    \<and> (\<forall>r R2 l2. TcpReactor_svc os R' l' = Some (r, R2, l2) \<longrightarrow> r = 0)"
proof -
  have dom: "{fd. \<exists>h. TMapInt_get (handlers R') fd = (True, Some h)} = dom (map_find (handlers R'))"
    by (auto simp: TMapInt_get_iff)
  obtain m where m: "l' = l @ m" using svc_rounds_piece [OF assms(2)] by blast
  have "piece_ok S R R' m" for S using svc_rounds_piece [OF assms(2), of S] m by auto
  then have "fresh_fds S m \<Longrightarrow> reactor_inv R' S (open_fds m S)" for S
    using fresh_reactor_inv [OF assms(1)] by (simp add: piece_ok_def)
  then show ?thesis
    unfolding dom using m svc_piece by (intro exI [of _ m]) (auto simp: reactor_inv_def)
qed

text \<open>
  C6: the handlers see each connection as one life: \<open>handle_accept\<close> first, then events of this
  connection only on the handler that accepted it, \<open>handle_close\<close> exactly once and last. The
  connections alive at the end are those in the handler map.
\<close>

theorem reactor_lives:
  assumes "handlers R = TMapInt_new" and "svc_rounds os n R l = Some (R', l')"
  shows "\<exists>m. l' = l @ m \<and> (\<forall>S. fresh_fds S m \<longrightarrow>
      life m (\<lambda>fd. None) = Some (\<lambda>fd. snd (TMapInt_get (handlers R') fd)))"
proof -
  obtain m where m: "l' = l @ m" using svc_rounds_piece [OF assms(2)] by blast
  have "piece_ok S R R' m" for S using svc_rounds_piece [OF assms(2), of S] m by auto
  moreover have "map_find (handlers R) = (\<lambda>fd. None)" using assms(1) by (simp add: TMapInt_new_def fun_eq_iff)
  moreover have "(\<lambda>fd. snd (TMapInt_get (handlers R') fd)) = map_find (handlers R')"
    by (simp add: TMapInt_get_find)
  ultimately show ?thesis
    using m fresh_reactor_inv [OF assms(1)] by (auto simp: piece_ok_def)
qed

text \<open>A system with one connection: it comes, has input once, and is closed by its handler.\<close>

definition one_conn_os :: os where
  "one_conn_os n c = (case c of
      C_epoll_wait ep k t \<Rightarrow> (ok_reply 1)\<lparr>ready := [(if n = 0 then 3 else 9, EPOLLIN)]\<rparr>
    | C_accept f \<Rightarrow> ok_reply 9
    | H_renew p \<Rightarrow> ok_reply 50
    | H_input h f \<Rightarrow> ok_reply (if n < 8 then 0 else 1)
    | _ \<Rightarrow> ok_reply 0)"

definition one_conn_reactor :: tcp_reactor where
  "one_conn_reactor = (TcpReactor_new (Some 40))\<lparr>listen_fd := 3, epfd := 4, ep_events := True, ep_size := 10\<rparr>"

lemma one_conn_run:
  "svc_rounds one_conn_os 2 one_conn_reactor [] = Some (one_conn_reactor\<lparr>handlers := [(9, 50)]\<rparr>,
     [(C_epoll_wait 4 10 (- 1), (ok_reply 1)\<lparr>ready := [(3, EPOLLIN)]\<rparr>), (C_accept 3, ok_reply 9),
      (C_setsockopt 9 SO_SNDTIMEO 3, ok_reply 0), (H_renew 40, ok_reply 50), (H_accept 50 9, ok_reply 0),
      (C_epoll_ctl 4 EPOLL_CTL_ADD 9 3, ok_reply 0),
      (C_epoll_wait 4 10 (- 1), (ok_reply 1)\<lparr>ready := [(9, EPOLLIN)]\<rparr>), (H_input 50 9, ok_reply 0)])"
  by (simp add: eval_nat_numeral one_conn_os_def one_conn_reactor_def TcpReactor_new_def TcpReactor_svc_def
      syscall_def Let_def ok_reply_def on_event_def on_accept_def on_input_def set_snd_timeout_def
      epoller_ctl_def EPOLLIN_def EPOLLOUT_def EPOLLPRI_def TMapInt_new_def TMapInt_insert_def
      TMapInt_get_def map_insert_def)

lemma reactor_descriptors_witness:
  "\<exists>l'. svc_rounds one_conn_os 2 one_conn_reactor [] = Some (one_conn_reactor\<lparr>handlers := [(9, 50)]\<rparr>, l')
    \<and> open_fds l' {3, 4} = {3, 4, 9}"
proof -
  have h: "handlers one_conn_reactor = TMapInt_new" by (simp add: one_conn_reactor_def TcpReactor_new_def)
  from reactor_descriptors [OF h one_conn_run] show ?thesis
    unfolding one_conn_run
    by (auto simp: TMapInt_get_def ok_reply_def new_fd_def fd_effect_def)
qed

lemma reactor_lives_witness:
  "\<exists>l'. svc_rounds one_conn_os 2 one_conn_reactor [] = Some (one_conn_reactor\<lparr>handlers := [(9, 50)]\<rparr>, l')
    \<and> life l' (\<lambda>fd. None) = Some (\<lambda>fd. if fd = 9 then Some 50 else None)"
proof -
  have h: "handlers one_conn_reactor = TMapInt_new" by (simp add: one_conn_reactor_def TcpReactor_new_def)
  obtain l' where run: "svc_rounds one_conn_os 2 one_conn_reactor [] =
      Some (one_conn_reactor\<lparr>handlers := [(9, 50)]\<rparr>, l')" and f: "fresh_fds {3, 4} l'"
    unfolding one_conn_run by (simp add: ok_reply_def new_fd_def fd_effect_def)
  from reactor_lives [OF h run] f have
    "life l' (\<lambda>fd. None) = Some (\<lambda>fd. snd (TMapInt_get [(9, 50)] fd))" by auto
  moreover have "(\<lambda>fd. snd (TMapInt_get [(9, 50 :: nat)] fd)) = (\<lambda>fd. if fd = 9 then Some 50 else None)"
    by (auto simp: TMapInt_get_def fun_eq_iff)
  ultimately show ?thesis using run by auto
qed


section \<open>The thread of the reactor\<close>

interpretation tcp_thread: threaded "TcpReactor_svc os" "\<lambda>R. True"
  "\<lambda>R R' m. piece_ok S0 R R' m \<and> listen_fd R' = listen_fd R \<and> epfd R' = epfd R" for os S0
proof unfold_locales
  fix R l r R' l'
  assume "TcpReactor_svc os R l = Some (r, R', l')"
  from svc_piece [OF this, of S0]
  show "True \<and> (\<exists>m. l' = l @ m \<and> piece_ok S0 R R' m \<and> listen_fd R' = listen_fd R \<and> epfd R' = epfd R)" by simp
next
  show "piece_ok S0 R R [(H_prepare, q)] \<and> listen_fd R = listen_fd R \<and> epfd R = epfd R"
    "piece_ok S0 R R [(C_attr_destroy, q)] \<and> listen_fd R = listen_fd R \<and> epfd R = epfd R" for R q
    by (simp_all add: piece_ok_def log_simps)
qed (auto intro: piece_ok_trans)

lemma reactor_thread_piece:
  assumes "thread_proc os (TcpReactor_svc os) stops t R l = Some (t', R', l')"
  shows "\<exists>m. l' = l @ m \<and> piece_ok S0 R R' m \<and> listen_fd R' = listen_fd R \<and> epfd R' = epfd R"
  using tcp_thread.thread_piece [OF assms] by simp

section \<open>Starting and stopping\<close>

lemma do_listen_fds:
  assumes "do_listen os ip port bl R l = (ret, R', l')"
  shows "\<exists>m. l' = l @ m \<and> epfd R' = epfd R \<and> handlers R' = handlers R \<and> t_handler R' = t_handler R
    \<and> (ret = 0 \<longrightarrow> 0 \<le> listen_fd R')
    \<and> (\<forall>S. fresh_fds S m \<longrightarrow> open_fds m S = (if ret = 0 then insert (listen_fd R') S else S)
        \<and> (ret = 0 \<longrightarrow> listen_fd R' \<notin> S))"
proof -
  define s where "s = os (length l) (C_socket SOCK_STREAM)"
  define fd where "fd = rv s"
  define l1 where "l1 = l @ [(C_socket SOCK_STREAM, s)]"
  show ?thesis
  proof (cases "fd < 0")
    case True
    then show ?thesis
      using assms by (auto simp: do_listen_def syscall_def Let_def fd_def s_def fd_effect_def)
  next
    case False
    obtain a where a: "snd (set_reuseaddr os fd l1) = l1 @ a" "neutral_log a"
      using set_option_neutral(1) by blast
    obtain b where b: "snd (set_non_bolck os fd (l1 @ a)) = (l1 @ a) @ b" "neutral_log b"
      using set_non_bolck_neutral by blast
    obtain c where c: "snd (set_nodelay os fd (l1 @ a @ b)) = (l1 @ a @ b) @ c" "neutral_log c"
      using set_option_neutral(2) by blast
    define q where "q = a @ b @ c"
    have q: "neutral_log q" using a b c by (simp add: q_def neutral_append)
    define l2 where "l2 = l1 @ q"
    let ?R = "R\<lparr>listen_fd := fd\<rparr>"
    define d where "d = (C_bind fd (c_str ip) port, os (length l2) (C_bind fd (c_str ip) port))"
    define e where "e = (C_listen fd (sint bl), os (Suc (length l2)) (C_listen fd (sint bl)))"
    define f where "f = (C_epoll_ctl (epfd R) EPOLL_CTL_ADD fd EPOLLIN,
      os (Suc (Suc (length l2))) (C_epoll_ctl (epfd R) EPOLL_CTL_ADD fd EPOLLIN))"
    have eq: "do_listen os ip port bl R l =
        (if rv (snd d) \<noteq> 0 then (rv (snd d), ?R, do_call os (C_close fd) (l2 @ [d]))
         else if rv (snd e) \<noteq> 0 then (rv (snd e), ?R, do_call os (C_close fd) (l2 @ [d, e]))
         else if rv (snd f) \<noteq> 0 then (rv (snd f), ?R, do_call os (C_close fd) (l2 @ [d, e, f]))
         else (rv (snd f), ?R, l2 @ [d, e, f]))"
      using False a b c
      by (simp add: do_listen_def epoller_ctl_def syscall_def Let_def split_beta s_def [symmetric]
          fd_def [symmetric] l1_def [symmetric] q_def l2_def d_def e_def f_def)
    have R': "R' = ?R \<and> (\<exists>n t. l' = l2 @ n @ t \<and> n \<in> {[d], [d, e], [d, e, f]}
        \<and> (if ret = 0 then t = [] else \<exists>r. t = [(C_close fd, r)]))"
    proof -
      consider "rv (snd d) \<noteq> 0" | "rv (snd d) = 0" "rv (snd e) \<noteq> 0"
        | "rv (snd d) = 0" "rv (snd e) = 0" "rv (snd f) \<noteq> 0"
        | "rv (snd d) = 0" "rv (snd e) = 0" "rv (snd f) = 0" by blast
      then show ?thesis
      proof cases
        case 1
        then show ?thesis using assms by (force simp: eq do_call_eq intro: exI [of _ "[d]"])
      next
        case 2
        then show ?thesis using assms by (force simp: eq do_call_eq intro: exI [of _ "[d, e]"])
      next
        case 3
        then show ?thesis using assms by (force simp: eq do_call_eq intro: exI [of _ "[d, e, f]"])
      next
        case 4
        then show ?thesis using assms by (force simp: eq intro: exI [of _ "[d, e, f]"])
      qed
    qed
    then obtain n t where nt: "l' = l2 @ n @ t" "n \<in> {[d], [d, e], [d, e, f]}"
        "if ret = 0 then t = [] else \<exists>r. t = [(C_close fd, r)]" by blast
    have n: "neutral_log n"
      using nt(2) by (auto simp: neutral_log_def d_def e_def f_def fd_effect_def new_fd_def)
    let ?m = "(C_socket SOCK_STREAM, s) # q @ n @ t"
    have "l' = l @ ?m" using nt(1) by (simp add: l2_def l1_def)
    moreover have "fresh_fds S ?m \<Longrightarrow> fd \<notin> S" for S
      using False by (simp add: new_fd_def fd_def)
    moreover have "fresh_fds S ?m \<Longrightarrow> open_fds ?m S = (if ret = 0 then insert fd S else S)" for S
      using q n nt(3) False
      by (cases "ret = 0") (auto simp: neutral_log_def fd_effect_def fd_def new_fd_def)
    ultimately show ?thesis using R' False by (intro exI [of _ ?m]) auto
  qed
qed

lemma tcp_init_fds:
  assumes "TcpReactor_do_init os args (TcpReactor_new h) l = (ret, R, l1)"
    and "\<forall>n sz. - 1 \<le> rv (os n (C_epoll_create sz))"
  shows "\<exists>k. l1 = l @ k \<and> handlers R = TMapInt_new \<and> (args = None \<longrightarrow> ret = - 1)
    \<and> (\<forall>S. fresh_fds S k \<longrightarrow> (\<forall>f \<in> S. 0 \<le> f) \<longrightarrow>
        (ret = 0 \<longrightarrow> open_fds k S = S \<union> {listen_fd R, epfd R} \<and> listen_fd R \<notin> S \<and> epfd R \<notin> S
            \<and> listen_fd R \<noteq> epfd R)
        \<and> (ret \<noteq> 0 \<longrightarrow> open_fds k S \<subseteq> insert (epfd R) S \<and> open_fds k S - {epfd R} = S))"
proof -
  let ?N = "TcpReactor_new h"
  have base: "handlers ?N = TMapInt_new" "epfd ?N = - 1" "listen_fd ?N = - 1" "t_handler ?N = h"
    by (simp_all add: TcpReactor_new_def)
  have fin: ?thesis
    if "l1 = l @ k" and "handlers R = TMapInt_new" and "args = None \<longrightarrow> ret = - 1"
      and "\<And>S. fresh_fds S k \<Longrightarrow> \<forall>f \<in> S. 0 \<le> f \<Longrightarrow>
        (ret = 0 \<longrightarrow> open_fds k S = S \<union> {listen_fd R, epfd R} \<and> listen_fd R \<notin> S \<and> epfd R \<notin> S
            \<and> listen_fd R \<noteq> epfd R)
        \<and> (ret \<noteq> 0 \<longrightarrow> open_fds k S \<subseteq> insert (epfd R) S \<and> open_fds k S - {epfd R} = S)" for k
    using that by (intro exI [of _ k]) simp
  show ?thesis
  proof (cases args)
    case None
    then have "ret = - 1" "R = ?N" "l1 = l" using assms(1) by (simp_all add: TcpReactor_do_init_def)
    then show ?thesis using None base by (intro fin [of "[]"]) auto
  next
    case (Some a)
    define r where "r = os (length l) (C_getrlimit RLIMIT_NOFILE)"
    define sz where "sz = as_int (if nums r ! 0 > uint (epoll_size a) then uint (epoll_size a) else nums r ! 0)"
    define r2 where "r2 = os (Suc (length l)) (C_epoll_create sz)"
    let ?g = "(C_getrlimit RLIMIT_NOFILE, r)" and ?e = "(C_epoll_create sz, r2)"
    have eq: "TcpReactor_do_init os args ?N l =
        (if rv r \<noteq> 0 then (rv r, ?N, l @ [?g])
         else if rv r2 = - 1 then (- 1, ?N\<lparr>epfd := - 1\<rparr>, l @ [?g, ?e])
         else do_listen os (arg_ip a) (arg_port a) (backlog a)
           (?N\<lparr>epfd := rv r2, ep_size := sz, ep_events := True\<rparr>) (l @ [?g, ?e]))"
      by (simp add: TcpReactor_do_init_def Some get_rlimit_def epoller_create_def syscall_def Let_def
          r_def sz_def r2_def)
    consider "rv r \<noteq> 0" | "rv r = 0" "rv r2 = - 1" | "rv r = 0" "rv r2 \<noteq> - 1" by blast
    then show ?thesis
    proof cases
      case 1
      then have "ret \<noteq> 0" "R = ?N" "l1 = l @ [?g]" using assms(1) by (auto simp: eq)
      then show ?thesis using base Some by (intro fin [of "[?g]"]) (auto simp: fd_effect_def)
    next
      case 2
      then have "ret = - 1" "R = ?N\<lparr>epfd := - 1\<rparr>" "l1 = l @ [?g, ?e]" using assms(1) by (auto simp: eq)
      then show ?thesis using 2 base Some by (intro fin [of "[?g, ?e]"]) (auto simp: fd_effect_def)
    next
      case 3
      then have dl: "do_listen os (arg_ip a) (arg_port a) (backlog a)
           (?N\<lparr>epfd := rv r2, ep_size := sz, ep_events := True\<rparr>) (l @ [?g, ?e]) = (ret, R, l1)"
        using assms(1) by (simp add: eq)
      have "- 1 \<le> rv r2" using assms(2) by (simp add: r2_def)
      then have pos: "0 \<le> rv r2" using 3(2) by simp
      from do_listen_fds [OF dl] obtain q where q: "l1 = l @ [?g, ?e] @ q" "epfd R = rv r2"
          "handlers R = TMapInt_new"
          "\<And>S. fresh_fds S q \<Longrightarrow> open_fds q S = (if ret = 0 then insert (listen_fd R) S else S)
            \<and> (ret = 0 \<longrightarrow> listen_fd R \<notin> S)"
        using base by auto
      show ?thesis
      proof (rule fin [of "[?g, ?e] @ q"])
        fix S assume S: "fresh_fds S ([?g, ?e] @ q)" "\<forall>f \<in> S. 0 \<le> f"
        have 1: "open_fds [?g, ?e] S = insert (epfd R) S" using pos by (simp add: fd_effect_def q(2))
        have o: "open_fds ([?g, ?e] @ q) S = open_fds q (insert (epfd R) S)"
          unfolding open_fds_append 1 ..
        have 2: "epfd R \<notin> S" "fresh_fds (insert (epfd R) S) q"
          using S(1) pos by (auto simp: new_fd_def fd_effect_def q(2))
        show "(ret = 0 \<longrightarrow> open_fds ([?g, ?e] @ q) S = S \<union> {listen_fd R, epfd R} \<and> listen_fd R \<notin> S
            \<and> epfd R \<notin> S \<and> listen_fd R \<noteq> epfd R)
          \<and> (ret \<noteq> 0 \<longrightarrow> open_fds ([?g, ?e] @ q) S \<subseteq> insert (epfd R) S
            \<and> open_fds ([?g, ?e] @ q) S - {epfd R} = S)"
          unfolding o using q(4) [OF 2(2)] 2(1) by (cases "ret = 0") auto
      qed (use q Some in auto)
    qed
  qed
qed

lemma tcp_release_fds:
  assumes "TcpReactor_release os R l = (R', l')"
  shows "\<exists>m. l' = l @ m \<and> handlers R' = TMapInt_new \<and> (\<forall>S. open_fds m S = S - {epfd R})"
proof -
  obtain d where m: "l' = l @ (C_close (epfd R), os (length l) (C_close (epfd R))) # d" "neutral_log d"
    and R: "handlers R' = TMapInt_new"
    using assms
    by (auto simp: TcpReactor_release_def do_call_eq Let_def TMapInt_clear_def TMapInt_new_def neutral_log_def
        fd_effect_def new_fd_def split: option.splits)
  have "open_fds ((C_close (epfd R), os (length l) (C_close (epfd R))) # d) S = S - {epfd R}" for S
    using m(2) by (simp add: neutral_log_def fd_effect_def)
  with m(1) R show ?thesis by blast
qed

text \<open>
  \<open>do_init\<close> that succeeds leaves open, besides what was open, exactly the listening socket and
  the epoll instance, with an empty handler map. If it fails, nothing but the epoll instance
  is left, and \<open>release\<close> closes that. But \<open>release\<close> after a success closes the epoll instance
  only: the listening socket stays open.
\<close>

lemma reactor_init_release:
  assumes "TcpReactor_do_init os args (TcpReactor_new h) l = (ret, R, l1)"
    and "TcpReactor_release os2 R l1 = (R2, l2)"
    and "\<forall>n sz. - 1 \<le> rv (os n (C_epoll_create sz))"
  shows "\<exists>m m2. l1 = l @ m \<and> l2 = l1 @ m2 \<and> handlers R = TMapInt_new \<and> handlers R2 = TMapInt_new
    \<and> (args = None \<longrightarrow> ret = - 1)
    \<and> (\<forall>S. fresh_fds S m \<and> (\<forall>f \<in> S. 0 \<le> f) \<longrightarrow>
        (ret = 0 \<longrightarrow> open_fds m S = S \<union> {listen_fd R, epfd R} \<and> listen_fd R \<notin> S \<and> epfd R \<notin> S
            \<and> listen_fd R \<noteq> epfd R \<and> open_fds (m @ m2) S = insert (listen_fd R) S)
        \<and> (ret \<noteq> 0 \<longrightarrow> open_fds m S \<subseteq> insert (epfd R) S \<and> open_fds (m @ m2) S = S))"
proof -
  from tcp_init_fds [OF assms(1,3)] obtain k where k: "l1 = l @ k" "handlers R = TMapInt_new" "args = None \<longrightarrow> ret = - 1"
      "\<And>S. fresh_fds S k \<Longrightarrow> \<forall>f \<in> S. 0 \<le> f \<Longrightarrow>
        (ret = 0 \<longrightarrow> open_fds k S = S \<union> {listen_fd R, epfd R} \<and> listen_fd R \<notin> S \<and> epfd R \<notin> S
            \<and> listen_fd R \<noteq> epfd R)
        \<and> (ret \<noteq> 0 \<longrightarrow> open_fds k S \<subseteq> insert (epfd R) S \<and> open_fds k S - {epfd R} = S)" by blast
  from tcp_release_fds [OF assms(2)] obtain m2 where m2: "l2 = l1 @ m2" "handlers R2 = TMapInt_new"
      "\<And>S. open_fds m2 S = S - {epfd R}" by blast
  show ?thesis
    by (rule exI [of _ k], rule exI [of _ m2]) (use k m2 in \<open>auto\<close>)
qed

text \<open>A system on which every call succeeds; the socket is 6, the epoll instance 5.\<close>

definition good_os :: os where
  "good_os n c = (case c of
      C_getrlimit k \<Rightarrow> (ok_reply 0)\<lparr>nums := [1024]\<rparr>
    | C_epoll_create k \<Rightarrow> ok_reply 5
    | C_socket k \<Rightarrow> ok_reply 6
    | _ \<Rightarrow> ok_reply 0)"

lemma reactor_init_release_witness:
  "\<exists>R l1 R2 l2. TcpReactor_do_init good_os (Some StTcpReactorAgrs) (TcpReactor_new (Some 1)) [] = (0, R, l1)
    \<and> TcpReactor_release good_os R l1 = (R2, l2) \<and> open_fds l1 {0} = {0, 5, 6} \<and> open_fds l2 {0} = {0, 6}"
proof -
  obtain ret R l1 where i: "TcpReactor_do_init good_os (Some StTcpReactorAgrs) (TcpReactor_new (Some 1)) [] = (ret, R, l1)"
    by (metis prod_cases3)
  obtain R2 l2 where r: "TcpReactor_release good_os R l1 = (R2, l2)" by fastforce
  have k: "ret = 0" "listen_fd R = 6" "epfd R = 5" and f: "fresh_fds {0} l1"
    using i by (auto simp: TcpReactor_do_init_def StTcpReactorAgrs_def get_rlimit_def epoller_create_def
        do_listen_def set_reuseaddr_def set_non_bolck_def set_nodelay_def epoller_ctl_def syscall_def Let_def
        good_os_def ok_reply_def TcpReactor_new_def new_fd_def fd_effect_def)
  have "\<forall>n sz. - 1 \<le> rv (good_os n (C_epoll_create sz))" by (simp add: good_os_def ok_reply_def)
  from reactor_init_release [OF i r this] k f i r show ?thesis by fastforce
qed

text \<open>A server with one connection, which is stopped after its first round.\<close>

definition one_round_os :: os where
  "one_round_os n c = (case c of
      C_getrlimit k \<Rightarrow> (ok_reply 0)\<lparr>nums := [1024]\<rparr>
    | C_epoll_create k \<Rightarrow> ok_reply 5
    | C_socket k \<Rightarrow> ok_reply 6
    | C_epoll_wait e k w \<Rightarrow> (ok_reply 1)\<lparr>ready := [(6, EPOLLIN)]\<rparr>
    | C_accept f \<Rightarrow> ok_reply 9
    | H_renew p \<Rightarrow> ok_reply 50
    | _ \<Rightarrow> ok_reply 0)"

end
