(* ===== verification/SessionMgt.thy ===== *)
theory SessionMgt
  imports Std_Map TimeStamp SelectTimer SocketUtils StringUtils
begin

text \<open>
  src/SessionMgt/Session.h, SessionMgt.h and SessionMgt.cpp: the sessions of the connections of
  a server, found by descriptor and by session id. Each method is one step, since the mutex
  makes it a critical section. An out parameter that a method may leave alone is an option.
\<close>

section \<open>State and operations\<close>

record session =
  s_id :: string
  s_client_id :: ullong
  s_fd :: int
  s_ip :: string
  s_port :: ushort
  s_status :: bool
  s_create_time :: ullong
  s_access_time :: ullong
  s_close_time :: ullong
  s_r_num :: ullong
  s_w_num :: ullong

definition Session_new :: session where
  "Session_new = \<lparr>s_id = '''', s_client_id = 0, s_fd = - 1, s_ip = [], s_port = 0, s_status = False,
     s_create_time = 0, s_access_time = 0, s_close_time = 0, s_r_num = 0, s_w_num = 0\<rparr>"

record session_mgt =
  sessions :: "(int, session) std_map"
  id_fds :: "(string, int) std_map"
  m_uid :: ullong

definition TCP_IDLE_TIMEOUT :: ulong where
  "TCP_IDLE_TIMEOUT = 60000000"

definition InitSessionTimer :: "os \<Rightarrow> nat \<Rightarrow> slong \<Rightarrow> slong \<Rightarrow> log \<Rightarrow> int \<times> select_timer \<times> thread \<times> log" where
  "InitSessionTimer os h sec usec l =
     (let t = Thread_new;
          (nRet, tm) = SelectTimer_register (Some h) TCP_IDLE_TIMEOUT (SelectTimer_new sec usec) in
      if nRet \<noteq> 0 then (- 1, tm, t, l)
      else
        (let (nRet, t, l) = Thread_init os 1 True 0 '''' t l in
         if nRet \<noteq> 0 then (- 1, tm, t, l)
         else
           (let (nRet, t, l) = Thread_run os t l in
            if nRet \<noteq> 0 then (- 1, tm, t, l) else (0, tm, t, l))))"

text \<open>The constructor starts the timer and does not look at the result.\<close>

definition SessionMgt_new ::
  "os \<Rightarrow> nat \<Rightarrow> slong \<Rightarrow> slong \<Rightarrow> log \<Rightarrow> session_mgt \<times> select_timer \<times> thread \<times> log" where
  "SessionMgt_new os h sec usec l =
     (let (_, tm, t, l) = InitSessionTimer os h sec usec l
      in (\<lparr>sessions = [], id_fds = [], m_uid = 0\<rparr>, tm, t, l))"

definition gen_uid :: "string \<Rightarrow> ulong \<Rightarrow> session_mgt \<Rightarrow> string \<times> session_mgt" where
  "gen_uid prefix second m =
     (let m = m\<lparr>m_uid := m_uid m + 1\<rparr>
      in (prefix @ ''_'' @ show_nat (unat second) @ ''_'' @ show_nat (unat (m_uid m)), m))"

definition insert_session :: "os \<Rightarrow> int \<Rightarrow> session_mgt \<Rightarrow> log \<Rightarrow> string \<times> session_mgt \<times> log" where
  "insert_session os fd m l =
     (let (_, addr, l) = get_remote_socket os fd l;
          (ip, port) = (case addr of None \<Rightarrow> ('''', 0) | Some a \<Rightarrow> a);
          (ts, l) = TimeStamp_now os l;
          tmp = format_s_u ip (unat port);
          (sid, m) = gen_uid tmp (getSeconds ts) m;
          s = Session_new\<lparr>s_id := sid, s_fd := fd, s_status := True, s_ip := ip, s_port := port,
                s_create_time := ToUSeconds ts, s_access_time := ToUSeconds ts\<rparr>
      in (sid, m\<lparr>sessions := map_assign (sessions m) fd s, id_fds := map_assign (id_fds m) sid fd\<rparr>, l))"

definition remove_session :: "os \<Rightarrow> int \<Rightarrow> session_mgt \<Rightarrow> log \<Rightarrow> string option \<times> session_mgt \<times> log" where
  "remove_session os fd m l =
     (case map_find (sessions m) fd of
        None \<Rightarrow> (None, m, l)
      | Some s \<Rightarrow>
          (let (_, l) = TimeStamp_now os l
           in (Some (s_id s),
               m\<lparr>id_fds := map_erase (id_fds m) (s_id s), sessions := map_erase (sessions m) fd\<rparr>, l)))"

definition is_valid_sesssion :: "session_mgt \<Rightarrow> string \<Rightarrow> bool" where
  "is_valid_sesssion m sid = (case map_find (id_fds m) sid of Some _ \<Rightarrow> True | None \<Rightarrow> False)"

definition get_fd :: "session_mgt \<Rightarrow> string \<Rightarrow> bool \<times> int option" where
  "get_fd m sid = (case map_find (id_fds m) sid of Some fd \<Rightarrow> (True, Some fd) | None \<Rightarrow> (False, None))"

definition update_status :: "int \<Rightarrow> bool \<Rightarrow> session_mgt \<Rightarrow> session_mgt" where
  "update_status fd status m =
     (case map_find (sessions m) fd of
        Some s \<Rightarrow> m\<lparr>sessions := map_assign (sessions m) fd (s\<lparr>s_status := status\<rparr>)\<rparr>
      | None \<Rightarrow> m)"

definition update_read :: "os \<Rightarrow> int \<Rightarrow> ullong \<Rightarrow> session_mgt \<Rightarrow> log \<Rightarrow> string option \<times> session_mgt \<times> log" where
  "update_read os fd num m l =
     (case map_find (sessions m) fd of
        Some s \<Rightarrow>
          (if s_status s then
             (let (ts, l) = TimeStamp_now os l;
                  s = s\<lparr>s_access_time := ToUSeconds ts, s_r_num := s_r_num s + num\<rparr>
              in (Some (s_id s), m\<lparr>sessions := map_assign (sessions m) fd s\<rparr>, l))
           else (None, m, l))
      | None \<Rightarrow> (None, m, l))"

definition update_write :: "os \<Rightarrow> int \<Rightarrow> ullong \<Rightarrow> session_mgt \<Rightarrow> log \<Rightarrow> session_mgt \<times> log" where
  "update_write os fd num m l =
     (case map_find (sessions m) fd of
        Some s \<Rightarrow>
          (if s_status s then
             (let (ts, l) = TimeStamp_now os l;
                  s = s\<lparr>s_access_time := ToUSeconds ts, s_w_num := s_w_num s + num\<rparr>
              in (m\<lparr>sessions := map_assign (sessions m) fd s\<rparr>, l))
           else (m, l))
      | None \<Rightarrow> (m, l))"

definition set_client_id :: "string \<Rightarrow> ullong \<Rightarrow> session_mgt \<Rightarrow> bool \<times> session_mgt" where
  "set_client_id sid client_id m =
     (case map_find (id_fds m) sid of
        None \<Rightarrow> (False, m)
      | Some fd \<Rightarrow>
          (case map_find (sessions m) fd of
             Some s \<Rightarrow> (True, m\<lparr>sessions := map_assign (sessions m) fd (s\<lparr>s_client_id := client_id\<rparr>)\<rparr>)
           | None \<Rightarrow> (True, m)))"

definition get_client_id :: "session_mgt \<Rightarrow> string \<Rightarrow> bool \<times> ullong option" where
  "get_client_id m sid =
     (case map_find (id_fds m) sid of
        None \<Rightarrow> (False, None)
      | Some fd \<Rightarrow>
          (case map_find (sessions m) fd of
             Some s \<Rightarrow> (True, Some (s_client_id s))
           | None \<Rightarrow> (True, None)))"

text \<open>The loop of \<open>check\<close> over the sessions in the order of their descriptors.\<close>

fun check_loop :: "os \<Rightarrow> ullong \<Rightarrow> (int, session) std_map \<Rightarrow> (string, int) std_map \<Rightarrow> log
    \<Rightarrow> (int, session) std_map \<times> (string, int) std_map \<times> log" where
  "check_loop os cur_stmp [] fds l = ([], fds, l)"
| "check_loop os cur_stmp ((fd, s) # ss) fds l =
     (if cur_stmp - s_access_time s > TCP_IDLE_TIMEOUT then
        (let (_, _, l) = get_local_socket os fd l;
             (_, _, l) = get_remote_socket os fd l;
             (_, l) = TimeStamp_now os l
         in check_loop os cur_stmp ss (map_erase fds (s_id s)) l)
      else
        (let (ss, fds, l) = check_loop os cur_stmp ss fds l in ((fd, s) # ss, fds, l)))"

definition SessionMgt_check :: "os \<Rightarrow> session_mgt \<Rightarrow> log \<Rightarrow> session_mgt \<times> log" where
  "SessionMgt_check os m l =
     (let (curts, l) = TimeStamp_now os l;
          (ss, fds, l) = check_loop os (ToUSeconds curts) (sessions m) (id_fds m) l
      in (m\<lparr>sessions := ss, id_fds := fds\<rparr>, l))"

definition SessionTimerHandler_handle_timeout :: "os \<Rightarrow> session_mgt \<Rightarrow> log \<Rightarrow> int \<times> session_mgt \<times> log" where
  "SessionTimerHandler_handle_timeout os m l = (let (m, l) = SessionMgt_check os m l in (0, m, l))"

section \<open>The two maps\<close>

text \<open>Any sequence of calls; the ids handed out so far, the latest first.\<close>

datatype session_call =
    S_insert int
  | S_remove int
  | S_status int bool
  | S_read int ullong
  | S_write int ullong
  | S_client string ullong
  | S_check

fun session_step :: "os \<Rightarrow> session_call \<Rightarrow> session_mgt \<times> string list \<times> log
    \<Rightarrow> session_mgt \<times> string list \<times> log" where
  "session_step os (S_insert fd) (m, given, l) =
     (let (sid, m, l) = insert_session os fd m l in (m, sid # given, l))"
| "session_step os (S_remove fd) (m, given, l) =
     (let (_, m, l) = remove_session os fd m l in (m, given, l))"
| "session_step os (S_status fd st) (m, given, l) = (update_status fd st m, given, l)"
| "session_step os (S_read fd num) (m, given, l) =
     (let (_, m, l) = update_read os fd num m l in (m, given, l))"
| "session_step os (S_write fd num) (m, given, l) =
     (let (m, l) = update_write os fd num m l in (m, given, l))"
| "session_step os (S_client sid cid) (m, given, l) =
     (let (_, m) = set_client_id sid cid m in (m, given, l))"
| "session_step os S_check (m, given, l) =
     (let (_, m, l) = SessionTimerHandler_handle_timeout os m l in (m, given, l))"

fun session_run :: "os \<Rightarrow> session_call list \<Rightarrow> session_mgt \<times> string list \<times> log
    \<Rightarrow> session_mgt \<times> string list \<times> log" where
  "session_run os [] st = st"
| "session_run os (a # as) st = session_run os as (session_step os a st)"

text \<open>
  The use that the header of the class describes: no insertion finds a session on its descriptor.
  Theory SessionStale shows what other uses do.
\<close>

definition fresh_insert :: "session_call \<Rightarrow> session_mgt \<Rightarrow> bool" where
  "fresh_insert a m = (case a of S_insert fd \<Rightarrow> map_find (sessions m) fd = None | _ \<Rightarrow> True)"

fun fresh_inserts :: "os \<Rightarrow> session_call list \<Rightarrow> session_mgt \<times> string list \<times> log \<Rightarrow> bool" where
  "fresh_inserts os [] st = True"
| "fresh_inserts os (a # as) st = (fresh_insert a (fst st) \<and> fresh_inserts os as (session_step os a st))"

text \<open>The invariant: the two maps are inverse to each other, and an id ends in the number of its making.\<close>

definition numbered :: "string \<Rightarrow> nat \<Rightarrow> bool" where
  "numbered sid k \<longleftrightarrow> (\<exists>pre. sid = pre @ CHR ''_'' # show_nat k)"

definition maps_inverse :: "(int, session) std_map \<Rightarrow> (string, int) std_map \<Rightarrow> bool" where
  "maps_inverse ss fds \<longleftrightarrow> map_wf ss \<and> map_wf fds
     \<and> (\<forall>sid fd. map_find fds sid = Some fd \<longleftrightarrow> (\<exists>s. map_find ss fd = Some s \<and> s_id s = sid))"

definition session_inv :: "session_mgt \<Rightarrow> string list \<Rightarrow> bool" where
  "session_inv m given \<longleftrightarrow> maps_inverse (sessions m) (id_fds m) \<and> distinct given
     \<and> (\<forall>sid \<in> set given. \<exists>k \<le> unat (m_uid m). numbered sid k)
     \<and> (\<forall>fd s. map_find (sessions m) fd = Some s \<longrightarrow> s_id s \<in> set given)"

lemma numbered_inj: "numbered sid j \<Longrightarrow> numbered sid k \<Longrightarrow> j = k"
  using split_at_last_sep [of _ "CHR ''_''" "show_nat j" _ "show_nat k"]
  by (auto simp: numbered_def text_simps)

lemma maps_inverse_update:
  assumes "maps_inverse ss fds" and "map_find ss fd = Some s" and "s_id s' = s_id s"
  shows "maps_inverse (map_assign ss fd s') fds"
  using assms by (auto simp: maps_inverse_def)

lemma maps_inverse_erase:
  assumes "maps_inverse ss fds" and "map_find ss fd = Some s"
  shows "maps_inverse (map_erase ss fd) (map_erase fds (s_id s))"
proof -
  have to: "map_find ss f = Some t \<Longrightarrow> map_find fds (s_id t) = Some f" for f t
    using assms(1) unfolding maps_inverse_def by blast
  have "s_id t = s_id s \<Longrightarrow> map_find ss f = Some t \<Longrightarrow> f = fd" for f t
    using to [of f t] to [OF assms(2)] by simp
  note same = this
  have wf: "map_wf ss" "map_wf fds"
    and inv: "\<And>sid f. map_find fds sid = Some f \<longleftrightarrow> (\<exists>t. map_find ss f = Some t \<and> s_id t = sid)"
    using assms(1) by (simp_all add: maps_inverse_def)
  have "map_find (map_erase fds (s_id s)) sid = Some f
      \<longleftrightarrow> (\<exists>t. map_find (map_erase ss fd) f = Some t \<and> s_id t = sid)" for sid f
  proof (cases "sid = s_id s")
    case True
    then show ?thesis using wf same by auto
  next
    case False
    then show ?thesis using wf inv [of sid f] assms(2) by auto
  qed
  then show ?thesis using wf by (simp add: maps_inverse_def)
qed

lemma maps_inverse_insert:
  assumes "maps_inverse ss fds" and "map_find ss fd = None" and "s_id s = sid"
    and "\<forall>fd s. map_find ss fd = Some s \<longrightarrow> s_id s \<noteq> sid"
  shows "maps_inverse (map_assign ss fd s) (map_assign fds sid fd)"
  using assms by (auto simp: maps_inverse_def)

definition idle :: "ullong \<Rightarrow> session \<Rightarrow> bool" where
  "idle now s \<longleftrightarrow> now - s_access_time s > TCP_IDLE_TIMEOUT"

lemma check_loop_result:
  "check_loop os now ss fds l = (ss', fds', l') \<Longrightarrow>
   ss' = filter (\<lambda>(fd, s). \<not> idle now s) ss
   \<and> (map_wf fds \<longrightarrow> map_wf fds'
      \<and> (\<forall>sid. map_find fds' sid =
           (if \<exists>e \<in> set ss. idle now (snd e) \<and> s_id (snd e) = sid then None else map_find fds sid)))"
proof (induction ss arbitrary: fds l ss')
  case (Cons e ss)
  obtain fd s where e: "e = (fd, s)" by fastforce
  show ?case
  proof (cases "idle now s")
    case True
    obtain k where r: "check_loop os now ss (map_erase fds (s_id s)) k = (ss', fds', l')"
      using Cons.prems True by (auto simp: e idle_def Let_def split: prod.splits)
    from Cons.IH [OF r] True show ?thesis by (auto simp: e)
  next
    case False
    obtain ss1 where r: "check_loop os now ss fds l = (ss1, fds', l')" and "ss' = e # ss1"
      using Cons.prems False by (auto simp: e idle_def split: prod.splits)
    with Cons.IH [OF r] False show ?thesis by (auto simp: e)
  qed
qed simp

lemma check_loop_inverse:
  assumes "maps_inverse ss fds" and "check_loop os now ss fds l = (ss', fds', l')"
  shows "maps_inverse ss' fds'"
    and "map_find ss' fd = (case map_find ss fd of Some s \<Rightarrow> if idle now s then None else Some s | None \<Rightarrow> None)"
proof -
  have wf: "map_wf ss" "map_wf fds"
    and inv: "\<And>sid f. map_find fds sid = Some f \<longleftrightarrow> (\<exists>t. map_find ss f = Some t \<and> s_id t = sid)"
    using assms(1) by (simp_all add: maps_inverse_def)
  from check_loop_result [OF assms(2)] wf have r: "ss' = filter (\<lambda>(fd, s). \<not> idle now s) ss" "map_wf fds'"
      "\<And>sid. map_find fds' sid =
        (if \<exists>e \<in> set ss. idle now (snd e) \<and> s_id (snd e) = sid then None else map_find fds sid)" by auto
  show find: "map_find ss' fd = (case map_find ss fd of Some s \<Rightarrow> if idle now s then None else Some s | None \<Rightarrow> None)"
    for fd
    using map_find_filter [OF wf(1), of "\<lambda>s. \<not> idle now s"] by (auto simp: r(1) split: option.splits)
  have gone: "(\<exists>e \<in> set ss. idle now (snd e) \<and> s_id (snd e) = sid)
      \<longleftrightarrow> (\<exists>f t. map_find ss f = Some t \<and> idle now t \<and> s_id t = sid)" for sid
    using map_find_in [OF wf(1)] by force
  have "map_find fds' sid = Some f \<longleftrightarrow> (\<exists>t. map_find ss' f = Some t \<and> s_id t = sid)" for sid f
  proof (cases "\<exists>g t. map_find ss g = Some t \<and> idle now t \<and> s_id t = sid")
    case True
    then obtain g t where t: "map_find ss g = Some t" "idle now t" "s_id t = sid" by blast
    have "f = g" if "map_find ss f = Some u" "s_id u = sid" for u
      using inv [of sid f] inv [of sid g] that t by auto
    with t True show ?thesis by (auto simp: r(3) gone find split: option.splits if_splits)
  next
    case False
    then show ?thesis using inv [of sid f] by (auto simp: r(3) gone find split: option.splits)
  qed
  then show "maps_inverse ss' fds'" using r(1,2) wf by (simp add: maps_inverse_def)
qed

lemma session_inv_update:
  assumes "session_inv m given" and "map_find (sessions m) fd = Some s" and "s_id s' = s_id s"
  shows "session_inv (m\<lparr>sessions := map_assign (sessions m) fd s'\<rparr>) given"
  using assms maps_inverse_update [of "sessions m" "id_fds m" fd s s']
  by (auto simp: session_inv_def maps_inverse_def split: if_splits)

lemma insert_session_inv:
  assumes "session_inv m given" and "map_find (sessions m) fd = None"
    and "insert_session os fd m l = (sid, m', l')" and "unat (m_uid m) + 1 < 2 ^ 64"
  shows "session_inv m' (sid # given) \<and> unat (m_uid m') = unat (m_uid m) + 1
    \<and> (\<exists>s. sessions m' = map_assign (sessions m) fd s \<and> s_client_id s = 0 \<and> s_id s = sid)"
proof -
  have u: "unat (m_uid m + 1) = unat (m_uid m) + 1"
    using assms(4) by (simp add: unat_word_ariths)
  obtain pre s where r: "m' = m\<lparr>m_uid := m_uid m + 1, sessions := map_assign (sessions m) fd s,
        id_fds := map_assign (id_fds m) sid fd\<rparr>"
      "sid = pre @ CHR ''_'' # show_nat (unat (m_uid m + 1))" "s_id s = sid" "s_client_id s = 0"
    using assms(3)
    by (auto simp: insert_session_def gen_uid_def Let_def Session_new_def simp del: append.simps
        split: prod.splits)
  have num: "numbered sid (unat (m_uid m) + 1)" unfolding numbered_def u [symmetric] using r(2) by blast
  have fresh: "sid \<notin> set given"
    using assms(1) numbered_inj [OF num] by (force simp: session_inv_def)
  then have new: "\<forall>f t. map_find (sessions m) f = Some t \<longrightarrow> s_id t \<noteq> sid"
    using assms(1) by (auto simp: session_inv_def)
  have inv: "maps_inverse (sessions m') (id_fds m')"
    using maps_inverse_insert [OF _ assms(2) r(3) new] assms(1) by (simp add: r(1) session_inv_def)
  have "map_wf (sessions m)" using assms(1) by (simp add: session_inv_def maps_inverse_def)
  then have find: "map_find (sessions m') f = (if f = fd then Some s else map_find (sessions m) f)" for f
    by (simp add: r(1))
  have old: "\<exists>k \<le> unat (m_uid m). numbered t k" if "t \<in> set given" for t
    using assms(1) that by (simp add: session_inv_def)
  have uid: "unat (m_uid m') = unat (m_uid m) + 1" by (simp only: r(1) u) (simp add: u)
  have "\<exists>k \<le> unat (m_uid m'). numbered t k" if "t \<in> set (sid # given)" for t
  proof (cases "t = sid")
    case True
    then show ?thesis using num uid by auto
  next
    case False
    then obtain k where "k \<le> unat (m_uid m)" "numbered t k" using old \<open>t \<in> set (sid # given)\<close> by auto
    then show ?thesis using uid by (intro exI [of _ k]) simp
  qed
  moreover have "distinct (sid # given)" using fresh assms(1) by (simp add: session_inv_def)
  moreover have "s_id t \<in> set (sid # given)" if "map_find (sessions m') f = Some t" for f t
    using that assms(1) r(3) by (auto simp: find session_inv_def split: if_splits)
  ultimately have "session_inv m' (sid # given)" using inv by (simp add: session_inv_def)
  moreover have "sessions m' = map_assign (sessions m) fd s" by (simp add: r(1))
  ultimately show ?thesis using uid r(3,4) by blast
qed

lemma session_step_inv:
  assumes "session_step os a (m, given, l) = (m', given', l')" and "session_inv m given" and "fresh_insert a m"
    and "unat (m_uid m) + 1 < 2 ^ 64"
  shows "session_inv m' given' \<and> unat (m_uid m') \<le> unat (m_uid m) + 1 \<and> (\<exists>new. given' = new @ given)"
proof (cases a)
  case (S_insert fd)
  obtain sid m1 l1 where i: "insert_session os fd m l = (sid, m1, l1)" by (metis prod_cases3)
  moreover have "map_find (sessions m) fd = None" using assms(3) S_insert by (simp add: fresh_insert_def)
  ultimately show ?thesis
    using insert_session_inv [OF assms(2) _ i assms(4)] assms(1) S_insert by auto
next
  case (S_remove fd)
  show ?thesis
  proof (cases "map_find (sessions m) fd")
    case None
    then show ?thesis using assms S_remove by (simp add: remove_session_def)
  next
    case (Some s)
    have "m' = m\<lparr>id_fds := map_erase (id_fds m) (s_id s), sessions := map_erase (sessions m) fd\<rparr>" "given' = given"
      using assms(1) S_remove Some by (auto simp: remove_session_def Let_def split: prod.splits)
    moreover have "map_wf (sessions m)" using assms(2) by (simp add: session_inv_def maps_inverse_def)
    ultimately show ?thesis
      using maps_inverse_erase [OF _ Some] assms(2) by (auto simp: session_inv_def split: if_splits)
  qed
next
  case (S_status fd st)
  then show ?thesis
    using assms session_inv_update [OF assms(2)] by (auto simp: update_status_def split: option.splits)
next
  case (S_read fd num)
  then show ?thesis
    using assms session_inv_update [OF assms(2)]
    by (auto simp: update_read_def Let_def split: option.splits prod.splits if_splits)
next
  case (S_write fd num)
  then show ?thesis
    using assms session_inv_update [OF assms(2)]
    by (auto simp: update_write_def Let_def split: option.splits prod.splits if_splits)
next
  case (S_client sid cid)
  then show ?thesis
    using assms session_inv_update [OF assms(2)]
    by (auto simp: set_client_id_def split: option.splits prod.splits if_splits)
next
  case S_check
  obtain now l1 where n: "TimeStamp_now os l = (now, l1)" by fastforce
  obtain ss fds l2 where c: "check_loop os (ToUSeconds now) (sessions m) (id_fds m) l1 = (ss, fds, l2)"
    by (metis prod_cases3)
  have m': "m' = m\<lparr>sessions := ss, id_fds := fds\<rparr>" "given' = given"
    using assms(1) S_check n c by (simp_all add: SessionTimerHandler_handle_timeout_def SessionMgt_check_def)
  have inv: "maps_inverse (sessions m) (id_fds m)" using assms(2) by (simp add: session_inv_def)
  show ?thesis
    using assms(2) check_loop_inverse [OF inv c] by (auto simp: m' session_inv_def split: option.splits if_splits)
qed

lemma session_run_inv:
  "session_run os as (m, given, l) = (m', given', l') \<Longrightarrow> fresh_inserts os as (m, given, l) \<Longrightarrow>
   session_inv m given \<Longrightarrow> unat (m_uid m) + length as < 2 ^ 64 \<Longrightarrow> session_inv m' given'"
proof (induction "as" arbitrary: m given l)
  case (Cons a as)
  obtain m1 g1 l1 where s: "session_step os a (m, given, l) = (m1, g1, l1)" by (metis prod_cases3)
  then have r: "session_run os as (m1, g1, l1) = (m', given', l')" "fresh_insert a m"
      "fresh_inserts os as (m1, g1, l1)"
    using Cons.prems(1,2) by simp_all
  have b: "unat (m_uid m) + 1 < 2 ^ 64" using Cons.prems(4) by simp
  from session_step_inv [OF s Cons.prems(3) r(2) b] have
    "session_inv m1 g1" "unat (m_uid m1) \<le> unat (m_uid m) + 1" by blast+
  with Cons.IH [OF r(1,3)] Cons.prems(4) show ?case by simp
qed simp

section \<open>Properties\<close>

lemma new_session_inv:
  "SessionMgt_new os h sec usec l0 = (m, tm, t, l) \<Longrightarrow> session_inv m [] \<and> unat (m_uid m) = 0"
  by (auto simp: SessionMgt_new_def session_inv_def maps_inverse_def split: prod.splits)

lemma valid_iff:
  assumes "maps_inverse (sessions m) (id_fds m)"
  shows "is_valid_sesssion m sid \<longleftrightarrow> (\<exists>fd s. map_find (sessions m) fd = Some s \<and> s_id s = sid)"
proof -
  have "is_valid_sesssion m sid \<longleftrightarrow> (\<exists>fd. map_find (id_fds m) sid = Some fd)"
    by (simp add: is_valid_sesssion_def split: option.splits)
  then show ?thesis using assms by (simp add: maps_inverse_def)
qed

text \<open>
  C13: after any sequence of calls in which no insertion finds a session on its descriptor, no id was handed
  out twice; an id is valid exactly if it is the id of a session, and then leads to the
  descriptor of that session; and a client id that is set is what is read back for that id,
  and for no other.
\<close>

theorem session_maps:
  assumes "SessionMgt_new os0 h sec usec l0 = (m0, tm, t, l1)"
    and "session_run os as (m0, [], l) = (m, given, l')" and "fresh_inserts os as (m0, [], l)"
    and "length as < 2 ^ 64"
  shows "distinct given
    \<and> (\<forall>sid fd. get_fd m sid = (True, Some fd) \<longleftrightarrow> (\<exists>s. map_find (sessions m) fd = Some s \<and> s_id s = sid))
    \<and> (\<forall>sid. is_valid_sesssion m sid \<longleftrightarrow> (\<exists>fd s. map_find (sessions m) fd = Some s \<and> s_id s = sid))
    \<and> (\<forall>sid. is_valid_sesssion m sid \<longrightarrow> sid \<in> set given)
    \<and> (\<forall>sid cid. is_valid_sesssion m sid \<longrightarrow> (\<exists>m2. set_client_id sid cid m = (True, m2)
          \<and> (\<forall>sid'. get_client_id m2 sid' = (if sid' = sid then (True, Some cid) else get_client_id m sid'))))"
proof -
  have "session_inv m given"
    using session_run_inv [OF assms(2,3)] new_session_inv [OF assms(1)] assms(4) by simp
  then have wf: "map_wf (sessions m)" and given: "distinct given"
    and inv: "\<And>sid f. map_find (id_fds m) sid = Some f \<longleftrightarrow> (\<exists>t. map_find (sessions m) f = Some t \<and> s_id t = sid)"
    and ids: "\<And>f t. map_find (sessions m) f = Some t \<Longrightarrow> s_id t \<in> set given"
    by (auto simp: session_inv_def maps_inverse_def)
  have valid: "is_valid_sesssion m sid \<longleftrightarrow> (\<exists>fd s. map_find (sessions m) fd = Some s \<and> s_id s = sid)" for sid
    using valid_iff \<open>session_inv m given\<close> by (simp add: session_inv_def)
  have client: "\<exists>m2. set_client_id sid cid m = (True, m2)
      \<and> (\<forall>sid'. get_client_id m2 sid' = (if sid' = sid then (True, Some cid) else get_client_id m sid'))"
    if v: "is_valid_sesssion m sid" for sid cid
  proof -
    obtain fd s where s: "map_find (sessions m) fd = Some s" "s_id s = sid" using v valid by blast
    then have fd: "map_find (id_fds m) sid = Some fd" using inv by blast
    have "map_find (id_fds m) sid' \<noteq> Some fd" if "sid' \<noteq> sid" for sid'
      using inv [of sid' fd] s that by auto
    then show ?thesis
      using s fd wf by (auto simp: set_client_id_def get_client_id_def split: option.splits)
  qed
  have "get_fd m sid = (True, Some fd) \<longleftrightarrow> map_find (id_fds m) sid = Some fd" for sid fd
    by (simp add: get_fd_def split: option.splits)
  moreover have "\<forall>sid. is_valid_sesssion m sid \<longrightarrow> sid \<in> set given" using ids by (auto simp: valid)
  ultimately show ?thesis using given valid client inv by simp
qed

text \<open>
  C25: \<open>check\<close> removes exactly the sessions whose last access is more than 60 seconds before the
  clock it reads, and those whose last access is after it, unless it is more than \<open>2 ^ 64\<close>
  microseconds less 60 seconds after; the ids of the removed ones are no longer valid, all
  others are kept as they are.
\<close>

theorem session_check:
  assumes "SessionMgt_new os0 h sec usec l0 = (m0, tm, t, l1)"
    and "session_run os as (m0, [], l) = (m, given, l')" and "fresh_inserts os as (m0, [], l)"
    and "length as < 2 ^ 64"
    and "SessionMgt_check os2 m l2 = (m', l3)"
    and "now = uint (ToUSeconds (ts_of_reply (os2 (length l2) C_gettimeofday)))"
  shows "(\<forall>fd. map_find (sessions m') fd =
      (case map_find (sessions m) fd of
         Some s \<Rightarrow>
           (if uint (s_access_time s) \<le> now \<and> now - uint (s_access_time s) > 60000000
              \<or> now < uint (s_access_time s) \<and> uint (s_access_time s) - now < 2 ^ 64 - 60000000
            then None else Some s)
       | None \<Rightarrow> None))
    \<and> (\<forall>sid. is_valid_sesssion m' sid \<longleftrightarrow> (\<exists>fd s. map_find (sessions m') fd = Some s \<and> s_id s = sid))
    \<and> m_uid m' = m_uid m"
proof -
  have "session_inv m given"
    using session_run_inv [OF assms(2,3)] new_session_inv [OF assms(1)] assms(4) by simp
  then have inv: "maps_inverse (sessions m) (id_fds m)" by (simp add: session_inv_def)
  define w where "w = ToUSeconds (ts_of_reply (os2 (length l2) C_gettimeofday))"
  obtain ss fds l4 where c: "check_loop os2 w (sessions m) (id_fds m)
      (l2 @ [(C_gettimeofday, os2 (length l2) C_gettimeofday)]) = (ss, fds, l4)"
    by (metis prod_cases3)
  then have m': "m' = m\<lparr>sessions := ss, id_fds := fds\<rparr>"
    using assms(5) by (simp add: SessionMgt_check_def TimeStamp_now_def syscall_def Let_def w_def)
  have idle: "idle w s \<longleftrightarrow> uint (s_access_time s) \<le> now \<and> now - uint (s_access_time s) > 60000000
      \<or> now < uint (s_access_time s) \<and> uint (s_access_time s) - now < 2 ^ 64 - 60000000" for s
  proof -
    have "now = uint w" using assms(6) by (simp add: w_def)
    moreover have "uint TCP_IDLE_TIMEOUT = 60000000" by (simp add: TCP_IDLE_TIMEOUT_def)
    ultimately show ?thesis by (auto simp: idle_def word_less_def uint_sub_if')
  qed
  have "maps_inverse (sessions m') (id_fds m')" using check_loop_inverse(1) [OF inv c] by (simp add: m')
  from valid_iff [OF this] have
    "is_valid_sesssion m' sid \<longleftrightarrow> (\<exists>fd s. map_find (sessions m') fd = Some s \<and> s_id s = sid)" for sid .
  then show ?thesis
    unfolding idle [symmetric] using check_loop_inverse(2) [OF inv c] by (simp add: m')
qed

text \<open>A clock that shows as many minutes as calls were made before; the peer is 1.2.3.4:99.\<close>

definition minute_os :: os where
  "minute_os n c = (case c of
      C_gettimeofday \<Rightarrow> (ok_reply 0)\<lparr>nums := [60 * int n, 0]\<rparr>
    | C_getpeername fd \<Rightarrow> (ok_reply 0)\<lparr>peer := (''1.2.3.4'', 99)\<rparr>
    | _ \<Rightarrow> ok_reply 0)"

definition no_sessions :: session_mgt where
  "no_sessions = \<lparr>sessions = [], id_fds = [], m_uid = 0\<rparr>"

lemma no_sessions_new: "\<exists>tm t l. SessionMgt_new os h sec usec l0 = (no_sessions, tm, t, l)"
  by (simp add: SessionMgt_new_def no_sessions_def split: prod.splits)

lemma two_sessions_run:
  "\<exists>m l. session_run minute_os [S_insert 5, S_insert 6, S_client ''1.2.3.4_99_60_1'' 77] (no_sessions, [], [])
     = (m, [''1.2.3.4_99_180_2'', ''1.2.3.4_99_60_1''], l)
   \<and> fresh_inserts minute_os [S_insert 5, S_insert 6, S_client ''1.2.3.4_99_60_1'' 77] (no_sessions, [], [])
   \<and> map (\<lambda>(fd, s). (fd, s_id s, s_client_id s, s_access_time s)) (sessions m)
     = [(5, ''1.2.3.4_99_60_1'', 77, 60000000), (6, ''1.2.3.4_99_180_2'', 0, 180000000)]"
  by (simp add: insert_session_def gen_uid_def get_remote_socket_def TimeStamp_now_def ts_of_reply_def
      set_client_id_def syscall_def Let_def minute_os_def ok_reply_def no_sessions_def Session_new_def
      format_s_u_def c_str_def show_nat.simps digit_char_def char_of_def bit_0 ToUSeconds_def
      fresh_insert_def)

lemma session_maps_witness:
  "\<exists>m given l. session_run minute_os [S_insert 5, S_insert 6, S_client ''1.2.3.4_99_60_1'' 77] (no_sessions, [], [])
     = (m, given, l) \<and> get_fd m ''1.2.3.4_99_60_1'' = (True, Some 5)
     \<and> is_valid_sesssion m ''1.2.3.4_99_180_2''"
proof -
  obtain m l where run: "session_run minute_os [S_insert 5, S_insert 6, S_client ''1.2.3.4_99_60_1'' 77] (no_sessions, [], [])
      = (m, [''1.2.3.4_99_180_2'', ''1.2.3.4_99_60_1''], l)"
    and fr: "fresh_inserts minute_os [S_insert 5, S_insert 6, S_client ''1.2.3.4_99_60_1'' 77] (no_sessions, [], [])"
    and ss: "map (\<lambda>(fd, s). (fd, s_id s, s_client_id s, s_access_time s)) (sessions m)
      = [(5, ''1.2.3.4_99_60_1'', 77, 60000000), (6, ''1.2.3.4_99_180_2'', 0, 180000000)]"
    using two_sessions_run by (elim exE conjE)
  obtain tm t l0 where new: "SessionMgt_new minute_os 0 0 0 [] = (no_sessions, tm, t, l0)"
    using no_sessions_new by blast
  from ss obtain s1 s2 where s: "sessions m = [(5, s1), (6, s2)]" "s_id s1 = ''1.2.3.4_99_60_1''"
      "s_id s2 = ''1.2.3.4_99_180_2''"
    by (auto simp: map_eq_Cons_conv)
  have f: "map_find (sessions m) 5 = Some s1" "map_find (sessions m) 6 = Some s2" by (simp_all add: s(1))
  from session_maps [OF new run fr] have
    "\<And>sid fd. get_fd m sid = (True, Some fd) \<longleftrightarrow> (\<exists>s. map_find (sessions m) fd = Some s \<and> s_id s = sid)"
    "\<And>sid. is_valid_sesssion m sid \<longleftrightarrow> (\<exists>fd s. map_find (sessions m) fd = Some s \<and> s_id s = sid)"
    by simp_all
  with run f s show ?thesis by fastforce
qed

text \<open>The clock reads 60 s after the last access of the first session plus one microsecond, and
  less than the last access of the second.\<close>

definition check_os :: os where
  "check_os n c = (ok_reply 0)\<lparr>nums := [120, 1]\<rparr>"

lemma session_check_witness:
  "\<exists>m given l m' l3. session_run minute_os [S_insert 5, S_insert 6, S_client ''1.2.3.4_99_60_1'' 77] (no_sessions, [], [])
     = (m, given, l) \<and> SessionMgt_check check_os m [] = (m', l3)
     \<and> map_find (sessions m') 5 = None \<and> map_find (sessions m') 6 = None \<and> \<not> is_valid_sesssion m' ''1.2.3.4_99_180_2''"
proof -
  obtain m l where run: "session_run minute_os [S_insert 5, S_insert 6, S_client ''1.2.3.4_99_60_1'' 77] (no_sessions, [], [])
      = (m, [''1.2.3.4_99_180_2'', ''1.2.3.4_99_60_1''], l)"
    and fr: "fresh_inserts minute_os [S_insert 5, S_insert 6, S_client ''1.2.3.4_99_60_1'' 77] (no_sessions, [], [])"
    and ss: "map (\<lambda>(fd, s). (fd, s_id s, s_client_id s, s_access_time s)) (sessions m)
      = [(5, ''1.2.3.4_99_60_1'', 77, 60000000), (6, ''1.2.3.4_99_180_2'', 0, 180000000)]"
    using two_sessions_run by (elim exE conjE)
  obtain tm t l0 where new: "SessionMgt_new minute_os 0 0 0 [] = (no_sessions, tm, t, l0)"
    using no_sessions_new by blast
  from ss obtain s1 s2 where s: "sessions m = [(5, s1), (6, s2)]" "s_access_time s1 = 60000000"
      "s_access_time s2 = 180000000"
    by (auto simp: map_eq_Cons_conv)
  obtain m' l3 where c: "SessionMgt_check check_os m [] = (m', l3)" by fastforce
  have now: "120000001 = uint (ToUSeconds (ts_of_reply (check_os (length []) C_gettimeofday)))"
    by (simp add: check_os_def ok_reply_def ts_of_reply_def ToUSeconds_def)
  from session_check [OF new run fr _ c now] have
    find: "\<And>fd. map_find (sessions m') fd =
      (case map_find (sessions m) fd of
         Some s \<Rightarrow>
           (if uint (s_access_time s) \<le> 120000001 \<and> 120000001 - uint (s_access_time s) > 60000000
              \<or> 120000001 < uint (s_access_time s) \<and> uint (s_access_time s) - 120000001 < 2 ^ 64 - 60000000
            then None else Some s)
       | None \<Rightarrow> None)"
    and valid: "\<And>sid. is_valid_sesssion m' sid \<longleftrightarrow> (\<exists>fd s. map_find (sessions m') fd = Some s \<and> s_id s = sid)"
    by simp_all
  have "map_find (sessions m') fd = None" for fd by (simp add: find s)
  with run c valid show ?thesis by fastforce
qed

end
