(* ===== verification/SessionServer.thy ===== *)
theory SessionServer
  imports TcpReactor SessionMgt
begin

text \<open>
  The session table in use: with its timer (SessionMgt.h, \<open>SessionTimerHandler\<close>), and in a server
  whose handlers call it as the comment on the class prescribes: \<open>insert_session\<close> in
  \<open>handle_accept\<close> and \<open>remove_session\<close> in \<open>handle_close\<close> of the handlers of a TcpReactor.
\<close>

section \<open>The timer of the table\<close>

definition sessions_ok :: "session_mgt \<Rightarrow> bool" where
  "sessions_ok m \<longleftrightarrow> maps_inverse (sessions m) (id_fds m)"

definition sessions_keep :: "session_mgt \<Rightarrow> session_mgt \<Rightarrow> log \<Rightarrow> bool" where
  "sessions_keep m m' n \<longleftrightarrow> map_find (sessions m') \<subseteq>\<^sub>m map_find (sessions m) \<and> m_uid m' = m_uid m \<and> neutral_log n"

lemma check_loop_log:
  "check_loop os now ss fds l = (ss', fds', l') \<Longrightarrow> \<exists>m. l' = l @ m \<and> neutral_log m"
proof (induction ss arbitrary: ss' fds l)
  case (Cons e ss)
  obtain ss1 fds1 k where r: "check_loop os now ss fds1 (l @ k) = (ss1, fds', l')" "neutral_log k"
  proof (cases "now - s_access_time (snd e) > TCP_IDLE_TIMEOUT")
    case True
    have "\<exists>k. snd (TimeStamp_now os (snd (snd (get_remote_socket os (fst e)
        (snd (snd (get_local_socket os (fst e) l))))))) = l @ k \<and> neutral_log k"
      by (auto simp: get_local_socket_def get_remote_socket_def TimeStamp_now_def syscall_def Let_def
          neutral_log_def fd_effect_def new_fd_def)
    then show ?thesis using that Cons.prems True by (cases e) (auto simp: Let_def split: prod.splits)
  next
    case False
    then show ?thesis using that [of fds "[]"] Cons.prems by (cases e) (auto split: prod.splits)
  qed
  from Cons.IH [OF r(1)] r(2) neutral_append show ?case by fastforce
qed simp

interpretation session_timer: timer_client SessionTimerHandler_handle_timeout sessions_ok sessions_keep
proof unfold_locales
  fix m os l r m' l'
  assume ok: "sessions_ok m" and h: "SessionTimerHandler_handle_timeout os m l = (r, m', l')"
  obtain now l1 where n: "TimeStamp_now os l = (now, l1)" by fastforce
  obtain ss fds where c: "check_loop os (ToUSeconds now) (sessions m) (id_fds m) l1 = (ss, fds, l')"
    and m': "m' = m\<lparr>sessions := ss, id_fds := fds\<rparr>"
    using h n by (auto simp: SessionTimerHandler_handle_timeout_def SessionMgt_check_def split: prod.splits)
  from n obtain k where k: "l1 = l @ k" "neutral_log k"
    by (auto simp: TimeStamp_now_def syscall_def Let_def neutral_log_def fd_effect_def new_fd_def)
  from check_loop_log [OF c] obtain q where q: "l' = l1 @ q" "neutral_log q" by blast
  have "map_find ss \<subseteq>\<^sub>m map_find (sessions m)"
    using check_loop_inverse(2) [OF ok [unfolded sessions_ok_def] c]
    by (auto simp: map_le_def domIff split: option.splits if_splits)
  then show "sessions_ok m' \<and> (\<exists>n. l' = l @ n \<and> sessions_keep m m' n)"
    using check_loop_inverse(1) [OF ok [unfolded sessions_ok_def] c] k q neutral_append
    by (auto simp: m' sessions_ok_def sessions_keep_def)
next
  show "sessions_keep m m [e]" if "idle_call (fst e)" for m e
    using that by (auto simp: sessions_keep_def idle_call_def neutral_log_def fd_effect_def new_fd_def
        split: call.splits)
next
  show "sessions_keep m m2 (p @ q)" if "sessions_keep m m1 p" "sessions_keep m1 m2 q" for m m1 m2 p q
    using that map_le_trans neutral_append by (auto simp: sessions_keep_def)
qed

section \<open>Sessions of live connections\<close>

text \<open>The calls that the handlers of the reactor make, in the order of the events of its log.\<close>

definition handler_calls :: "log \<Rightarrow> session_call list" where
  "handler_calls m = concat (map (\<lambda>e. case fst e of
       H_accept h fd \<Rightarrow> [S_insert fd] | H_close h fd \<Rightarrow> [S_remove fd] | _ \<Rightarrow> []) m)"

definition connection_call :: "session_call \<Rightarrow> bool" where
  "connection_call a = (case a of S_insert fd \<Rightarrow> True | S_remove fd \<Rightarrow> True | _ \<Rightarrow> False)"

definition all_accepted :: "log \<Rightarrow> bool" where
  "all_accepted m \<longleftrightarrow> (\<forall>e \<in> set m. \<forall>h fd. fst e = H_accept h fd \<longrightarrow> rv (snd e) = 0)"

lemma handler_calls_simps [simp]:
  "handler_calls [] = []" "handler_calls (m @ n) = handler_calls m @ handler_calls n"
  "handler_calls (e # m) = (case fst e of
       H_accept h fd \<Rightarrow> [S_insert fd] | H_close h fd \<Rightarrow> [S_remove fd] | _ \<Rightarrow> []) @ handler_calls m"
  by (simp_all add: handler_calls_def)

lemma life_quiet: "handler_calls m = [] \<Longrightarrow> life m f = Some f' \<Longrightarrow> f' = f"
proof (induction m)
  case (Cons e m)
  then have "life_step e f = Some f"
    by (auto simp: life_step_def bind_eq_Some_conv split: call.splits if_splits)
  with Cons show ?case by (auto split: call.splits)
qed simp

lemma handler_calls_split:
  "handler_calls m = a # as \<Longrightarrow>
   \<exists>pre e post. m = pre @ e # post \<and> handler_calls pre = [] \<and> handler_calls [e] = [a] \<and> handler_calls post = as"
proof (induction m)
  case (Cons e m)
  show ?case
  proof (cases "handler_calls [e]")
    case Nil
    with Cons.prems have "handler_calls m = a # as" by simp
    from Cons.IH [OF this] obtain pre e' post where
      "m = pre @ e' # post" "handler_calls pre = []" "handler_calls [e'] = [a]" "handler_calls post = as" by blast
    with Nil show ?thesis by (intro exI [of _ "e # pre"] exI [of _ e'] exI [of _ post]) simp
  next
    case (Cons b bs)
    with Cons.prems show ?thesis
      by (intro exI [of _ "[]"] exI [of _ e] exI [of _ m]) (auto split: call.splits)
  qed
qed simp

definition session_fds :: "session_mgt \<Rightarrow> int set" where
  "session_fds m = dom (map_find (sessions m))"

lemma session_step_fds:
  assumes "session_step os a (m, given, l) = (m', given', l')" and "maps_inverse (sessions m) (id_fds m)"
  shows "(case a of S_insert fd \<Rightarrow> session_fds m' = insert fd (session_fds m)
      | S_remove fd \<Rightarrow> session_fds m' = session_fds m - {fd}
      | S_check \<Rightarrow> session_fds m' \<subseteq> session_fds m
      | _ \<Rightarrow> session_fds m' = session_fds m)"
proof -
  have wf: "map_wf (sessions m)" using assms(2) by (simp add: maps_inverse_def)
  have assign: "dom (map_find (map_assign (sessions m) fd s)) = insert fd (dom (map_find (sessions m)))" for fd s
    using wf by (auto simp: domIff)
  have erase: "dom (map_find (map_erase (sessions m) fd)) = dom (map_find (sessions m)) - {fd}" for fd
    using wf by (auto simp: domIff split: if_splits)
  have upd: "session_fds (m\<lparr>sessions := map_assign (sessions m) fd s\<rparr>) = insert fd (session_fds m)"
    "map_find (sessions m) fd = Some s \<Longrightarrow> insert fd (session_fds m) = session_fds m" for fd s
    by (auto simp: session_fds_def assign)
  show ?thesis
  proof (cases a)
    case (S_insert fd)
    then have "\<exists>s. sessions m' = map_assign (sessions m) fd s"
      using assms(1) by (auto simp: insert_session_def gen_uid_def Let_def split: prod.splits if_splits)
    then obtain s where "sessions m' = map_assign (sessions m) fd s" by blast
    then show ?thesis by (simp add: S_insert session_fds_def assign)
  next
    case (S_remove fd)
    show ?thesis
    proof (cases "map_find (sessions m) fd")
      case None
      then have "m' = m" using assms(1) S_remove by (simp add: remove_session_def)
      with None show ?thesis by (auto simp: S_remove session_fds_def)
    next
      case (Some s)
      then have "sessions m' = map_erase (sessions m) fd"
        using assms(1) S_remove by (auto simp: remove_session_def Let_def split: prod.splits)
      then show ?thesis by (simp add: S_remove session_fds_def erase)
    qed
  next
    case (S_status fd st)
    then show ?thesis
      using assms(1) by (auto simp: upd update_status_def split: option.splits)
  next
    case (S_read fd num)
    then show ?thesis
      using assms(1) by (auto simp: upd update_read_def Let_def split: option.splits prod.splits if_splits)
  next
    case (S_write fd num)
    then show ?thesis
      using assms(1) by (auto simp: upd update_write_def Let_def split: option.splits prod.splits if_splits)
  next
    case (S_client sid cid)
    then show ?thesis
      using assms(1) by (auto simp: upd set_client_id_def split: option.splits prod.splits)
  next
    case S_check
    then have "\<exists>r. SessionTimerHandler_handle_timeout os m l = (r, m', l')"
      using assms(1) by (auto split: prod.splits)
    then have "map_find (sessions m') \<subseteq>\<^sub>m map_find (sessions m)"
      using session_timer.handle_keeps [of m os l] assms(2) by (auto simp: sessions_ok_def sessions_keep_def)
    then show ?thesis by (simp add: S_check session_fds_def map_le_implies_dom_le)
  qed
qed

text \<open>The check of the timer removed the session of \<open>fd\<close>, and no later call inserts one.\<close>

fun checked_off :: "os \<Rightarrow> session_call list \<Rightarrow> session_mgt \<times> string list \<times> log \<Rightarrow> int \<Rightarrow> bool" where
  "checked_off os [] st fd = False"
| "checked_off os (a # as) st fd =
     (a = S_check \<and> fd \<in> session_fds (fst st) \<and> fd \<notin> session_fds (fst (session_step os a st)) \<and> S_insert fd \<notin> set as
      \<or> checked_off os as (session_step os a st) fd)"

lemma serve_events:
  "filter connection_call ops = handler_calls m \<Longrightarrow> life m f = Some f' \<Longrightarrow> all_accepted m \<Longrightarrow>
   session_inv mg given \<Longrightarrow> unat (m_uid mg) + length ops < 2 ^ 64 \<Longrightarrow> session_fds mg \<subseteq> dom f \<Longrightarrow>
   session_run os ops (mg, given, l) = (mg', given', l') \<Longrightarrow>
   fresh_inserts os ops (mg, given, l) \<and> session_inv mg' given' \<and> session_fds mg' \<subseteq> dom f'
   \<and> (\<forall>fd \<in> dom f' - session_fds mg'. checked_off os ops (mg, given, l) fd
        \<or> fd \<in> dom f - session_fds mg \<and> S_insert fd \<notin> set ops)"
proof (induction ops arbitrary: m f mg given l)
  case Nil
  then show ?case using life_quiet [of m f f'] by simp
next
  case (Cons a ops)
  obtain n f1 where n: "filter connection_call ops = handler_calls n" "life n f1 = Some f'" "all_accepted n"
    and a: "\<And>fd. a = S_insert fd \<Longrightarrow> f fd = None \<and> (\<exists>h. f1 = f(fd \<mapsto> h))"
      "\<And>fd. a = S_remove fd \<Longrightarrow> f1 = f(fd := None)" "\<not> connection_call a \<Longrightarrow> f1 = f"
  proof (cases "connection_call a")
    case False
    then have "filter connection_call ops = handler_calls m" using Cons.prems(1) by simp
    then show ?thesis
      using that [of m f] Cons.prems(2,3) False by (auto simp: connection_call_def split: session_call.splits)
  next
    case True
    then have "handler_calls m = a # filter connection_call ops" using Cons.prems(1) by simp
    from handler_calls_split [OF this] obtain pre e post where
      m: "m = pre @ e # post" "handler_calls pre = []" "handler_calls [e] = [a]"
        "filter connection_call ops = handler_calls post" by metis
    obtain f0 f1 where f: "life pre f = Some f0" "life_step e f0 = Some f1" "life post f1 = Some f'"
      using Cons.prems(2) by (auto simp: m(1) life_append bind_eq_Some_conv)
    have f0: "f0 = f" using life_quiet [OF m(2) f(1)] .
    have acc: "fst e = H_accept h fd \<Longrightarrow> rv (snd e) = 0" for h fd
      using Cons.prems(3) by (auto simp: all_accepted_def m(1))
    show ?thesis
    proof (rule that [OF m(4) f(3)])
      show "all_accepted post" using Cons.prems(3) by (auto simp: all_accepted_def m(1))
      show "f fd = None \<and> (\<exists>h. f1 = f(fd \<mapsto> h))" if "a = S_insert fd" for fd
        using m(3) f(2) acc that by (auto simp: f0 life_step_def split: call.splits if_splits)
      show "f1 = f(fd := None)" if "a = S_remove fd" for fd
        using m(3) f(2) that by (auto simp: f0 life_step_def split: call.splits if_splits)
      show "f1 = f" if "\<not> connection_call a" using that True by simp
    qed
  qed
  have "fd \<notin> session_fds mg" if "a = S_insert fd" for fd
    using a(1) [OF that] Cons.prems(6) by auto
  then have fresh: "fresh_insert a mg" by (auto simp: fresh_insert_def session_fds_def domIff split: session_call.splits)
  obtain m1 g1 l1 where s: "session_step os a (mg, given, l) = (m1, g1, l1)" by (metis prod_cases3)
  have "unat (m_uid mg) + 1 < 2 ^ 64" using Cons.prems(5) by simp
  from session_step_inv [OF s Cons.prems(4) fresh this] have
    inv: "session_inv m1 g1" and uid: "unat (m_uid m1) \<le> unat (m_uid mg) + 1" by blast+
  have "maps_inverse (sessions mg) (id_fds mg)" using Cons.prems(4) by (simp add: session_inv_def)
  note fds = session_step_fds [OF s this]
  have sub: "session_fds m1 \<subseteq> dom f1"
    using fds a Cons.prems(6) by (auto simp: connection_call_def split: session_call.splits)
  have gone: "fd \<in> dom f - session_fds mg \<and> a \<noteq> S_insert fd \<or> a = S_check \<and> fd \<in> session_fds mg"
    if "fd \<in> dom f1 - session_fds m1" for fd
    using that fds a by (cases a) (auto simp: connection_call_def)
  have "unat (m_uid m1) + length ops < 2 ^ 64" using uid Cons.prems(5) by simp
  note ih = Cons.IH [OF n inv this sub, of l1] 
  have "session_run os ops (m1, g1, l1) = (mg', given', l')" using Cons.prems(7) s by simp
  from ih [OF this] have ih: "fresh_inserts os ops (m1, g1, l1)" "session_inv mg' given'" "session_fds mg' \<subseteq> dom f'"
    "\<And>fd. fd \<in> dom f' - session_fds mg' \<Longrightarrow> checked_off os ops (m1, g1, l1) fd
        \<or> fd \<in> dom f1 - session_fds m1 \<and> S_insert fd \<notin> set ops" by blast+
  have "checked_off os (a # ops) (mg, given, l) fd \<or> fd \<in> dom f - session_fds mg \<and> S_insert fd \<notin> set (a # ops)"
    if "fd \<in> dom f' - session_fds mg'" for fd
    using ih(4) [OF that] gone [of fd] by (auto simp: s)
  then show ?case using ih(1-3) fresh by (simp add: s)
qed

text \<open>
  C5: in a server whose handlers accept every connection (that is a hypothesis), insert a session in
  \<open>handle_accept\<close> and remove it in \<open>handle_close\<close>, no insertion ever finds a session on its
  descriptor, whatever else is called on the table in between, by its timer or by others. When
  the reactor's thread stops, every session is that of a live connection and every valid id
  leads to one, no two ids to the same; and each live connection has one, unless a check of the
  timer removed the session of its descriptor after the last insertion of one.
\<close>

theorem session_server:
  assumes "handlers R = TMapInt_new"
    and "thread_proc os (TcpReactor_svc os) stops t R l = Some (t2, R2, l @ m)"
    and "fresh_fds S m" and "\<forall>h fd r. (H_accept h fd, r) \<in> set m \<longrightarrow> rv r = 0"
    and "SessionMgt_new os0 h0 sec usec l0 = (m0, tm, tt, l1)"
    and "filter connection_call ops = handler_calls m" and "length ops < 2 ^ 64"
    and "session_run os2 ops (m0, [], l2) = (mg, given, l3)"
  shows "fresh_inserts os2 ops (m0, [], l2)
    \<and> (\<forall>fd s. map_find (sessions mg) fd = Some s \<longrightarrow> (\<exists>hd. TMapInt_get (handlers R2) fd = (True, Some hd)))
    \<and> (\<forall>sid fd. get_fd mg sid = (True, Some fd) \<longrightarrow> (\<exists>hd. TMapInt_get (handlers R2) fd = (True, Some hd)))
    \<and> (\<forall>sid sid' fd. get_fd mg sid = (True, Some fd) \<and> get_fd mg sid' = (True, Some fd) \<longrightarrow> sid = sid')
    \<and> (\<forall>fd hd. TMapInt_get (handlers R2) fd = (True, Some hd) \<longrightarrow>
        (\<exists>sid. get_fd mg sid = (True, Some fd)) \<or> checked_off os2 ops (m0, [], l2) fd)"
proof -
  have "reactor_inv R S S" using assms(1) by (rule fresh_reactor_inv)
  moreover from reactor_thread_piece [OF assms(2), of S] have "piece_ok S R R2 m" by auto
  ultimately have "life m (map_find (handlers R)) = Some (map_find (handlers R2))"
    using assms(3) by (auto simp: piece_ok_def)
  moreover have "map_find (handlers R) = (\<lambda>fd. None)" by (simp add: assms(1) TMapInt_new_def fun_eq_iff)
  ultimately have life: "life m (\<lambda>fd. None) = Some (map_find (handlers R2))" by simp
  have acc: "all_accepted m" using assms(4) by (auto simp: all_accepted_def)
  have m0: "session_inv m0 []" "unat (m_uid m0) = 0" using new_session_inv [OF assms(5)] by auto
  have "sessions m0 = []" using assms(5) by (auto simp: SessionMgt_new_def split: prod.splits)
  then have empty: "session_fds m0 = {}" by (simp add: session_fds_def fun_eq_iff)
  have "unat (m_uid m0) + length ops < 2 ^ 64" using m0(2) assms(7) by simp
  from serve_events [OF assms(6) life acc m0(1) this _ assms(8)] empty have
    r: "fresh_inserts os2 ops (m0, [], l2)" "session_inv mg given" "session_fds mg \<subseteq> dom (map_find (handlers R2))"
      "\<And>fd. fd \<in> dom (map_find (handlers R2)) - session_fds mg \<Longrightarrow> checked_off os2 ops (m0, [], l2) fd"
    by auto
  have get: "get_fd mg sid = (True, Some fd) \<longleftrightarrow> (\<exists>s. map_find (sessions mg) fd = Some s \<and> s_id s = sid)" for sid fd
  proof -
    have "get_fd mg sid = (True, Some fd) \<longleftrightarrow> map_find (id_fds mg) sid = Some fd"
      by (simp add: get_fd_def split: option.splits)
    then show ?thesis using r(2) by (simp add: session_inv_def maps_inverse_def)
  qed
  have live: "\<exists>hd. TMapInt_get (handlers R2) fd = (True, Some hd)" if "map_find (sessions mg) fd = Some s" for fd s
    using r(3) that by (auto simp: session_fds_def TMapInt_get_iff dest: domI)
  have all: "(\<exists>s. map_find (sessions mg) fd = Some s) \<or> checked_off os2 ops (m0, [], l2) fd"
    if "TMapInt_get (handlers R2) fd = (True, Some hd)" for fd hd
    using r(4) [of fd] that by (auto simp: session_fds_def TMapInt_get_iff dest: domI)
  show ?thesis
    using r(1) live all by (intro conjI) (auto simp: get)
qed

lemma session_server_witness:
  "\<exists>R l t2 R2 m mg given l3.
     thread_proc one_round_os (TcpReactor_svc one_round_os) (\<lambda>n. True) Thread_new R l = Some (t2, R2, l @ m)
     \<and> session_run (\<lambda>n c. ok_reply 0) [S_insert 9, S_read 9 100]
         (\<lparr>sessions = [], id_fds = [], m_uid = 0\<rparr>, [], []) = (mg, given, l3)
     \<and> (\<exists>sid. get_fd mg sid = (True, Some 9))"
proof -
  let ?R = "(TcpReactor_new (Some 1))\<lparr>listen_fd := 6, epfd := 5\<rparr>"
  obtain t2 R2 m where p: "thread_proc one_round_os (TcpReactor_svc one_round_os) (\<lambda>n. True) Thread_new ?R [] = Some (t2, R2, [] @ m)"
    and R2: "handlers R2 = [(9, 50)]" and m: "fresh_fds {0, 5, 6} m" "handler_calls m = [S_insert 9]"
      "\<forall>h fd r. (H_accept h fd, r) \<in> set m \<longrightarrow> rv r = 0"
    by (simp add: thread_proc_def svc_loop.simps TcpReactor_svc_def on_event_def on_accept_def
        set_snd_timeout_def epoller_ctl_def syscall_def do_call_eq Let_def Thread_clean_up_def
        one_round_os_def ok_reply_def TMapInt_insert_def map_insert_def new_fd_def fd_effect_def
        EPOLLIN_def EPOLLOUT_def TcpReactor_new_def TMapInt_new_def)
  have h: "handlers ?R = TMapInt_new" by (simp add: TcpReactor_new_def)
  obtain tm tt l1 where n: "SessionMgt_new (\<lambda>n c. ok_reply 0) 3 0 0 [] =
      (\<lparr>sessions = [], id_fds = [], m_uid = 0\<rparr>, tm, tt, l1)"
    by (cases "InitSessionTimer (\<lambda>n c. ok_reply 0) 3 0 0 []") (auto simp: SessionMgt_new_def)
  have ops: "filter connection_call [S_insert 9, S_read 9 100] = handler_calls m" "length [S_insert 9, S_read 9 100] < 2 ^ 64"
    using m(2) by (simp_all add: connection_call_def)
  obtain mg given l3 where
    r: "session_run (\<lambda>n c. ok_reply 0) [S_insert 9, S_read 9 100]
         (\<lparr>sessions = [], id_fds = [], m_uid = 0\<rparr>, [], []) = (mg, given, l3)" by (metis prod_cases3)
  from session_server [OF h p m(1,3) n ops r] have
    "\<forall>fd hd. TMapInt_get (handlers R2) fd = (True, Some hd) \<longrightarrow> (\<exists>sid. get_fd mg sid = (True, Some fd))"
    by simp
  moreover have "TMapInt_get (handlers R2) 9 = (True, Some 50)" by (simp add: R2 TMapInt_get_def)
  ultimately obtain sid where "get_fd mg sid = (True, Some 9)" by auto
  with r p show ?thesis by (intro exI conjI) assumption+
qed

end
