(* ===== verification/SessionStale.thy ===== *)
theory SessionStale
  imports SessionMgt
begin

text \<open>
  The table of sessions (SessionMgt.cpp) under any calls at all: also \<open>insert_session\<close> on a descriptor
  that has a session. The old session is then overwritten, but its id stays in the map of ids.
  Theory SessionMgt shows what holds without such a call.
\<close>

section \<open>Calls that overwrite\<close>

text \<open>
  One call; besides the ids given out, the ids lost: those of sessions that were overwritten, each with
  the descriptor it was for.
\<close>

definition any_step :: "os \<Rightarrow> session_call \<Rightarrow> session_mgt \<times> string list \<times> (string \<times> int) list \<times> log
    \<Rightarrow> session_mgt \<times> string list \<times> (string \<times> int) list \<times> log" where
  "any_step os a st =
     (let (m, given, lost, l) = st;
          lost = (case a of
             S_insert fd \<Rightarrow> (case map_find (sessions m) fd of None \<Rightarrow> lost | Some s \<Rightarrow> (s_id s, fd) # lost)
           | _ \<Rightarrow> lost);
          (m, given, l) = session_step os a (m, given, l)
      in (m, given, lost, l))"

definition any_run :: "os \<Rightarrow> session_call list \<Rightarrow> session_mgt \<times> string list \<times> (string \<times> int) list \<times> log
    \<Rightarrow> session_mgt \<times> string list \<times> (string \<times> int) list \<times> log" where
  "any_run os as st = fold (any_step os) as st"

section \<open>The two maps and the lost ids\<close>

definition maps_but_lost :: "(int, session) std_map \<Rightarrow> (string, int) std_map \<Rightarrow> (string \<times> int) list \<Rightarrow> bool" where
  "maps_but_lost ss fds lost \<longleftrightarrow> map_wf ss \<and> map_wf fds
     \<and> (\<forall>sid fd. map_find fds sid = Some fd \<longleftrightarrow>
          (\<exists>s. map_find ss fd = Some s \<and> s_id s = sid) \<or> (sid, fd) \<in> set lost)
     \<and> (\<forall>sid fd f s. (sid, fd) \<in> set lost \<and> map_find ss f = Some s \<longrightarrow> s_id s \<noteq> sid)"

definition lost_inv :: "session_mgt \<Rightarrow> string list \<Rightarrow> (string \<times> int) list \<Rightarrow> bool" where
  "lost_inv m given lost \<longleftrightarrow> maps_but_lost (sessions m) (id_fds m) lost \<and> distinct given
     \<and> (\<forall>sid \<in> set given. \<exists>k \<le> unat (m_uid m). numbered sid k)
     \<and> (\<forall>sid fd. map_find (id_fds m) sid = Some fd \<longrightarrow> sid \<in> set given)"

lemma maps_but_lostD:
  assumes "maps_but_lost ss fds lost"
  shows "map_wf ss" "map_wf fds"
    "map_find fds sid = Some fd \<longleftrightarrow> (\<exists>s. map_find ss fd = Some s \<and> s_id s = sid) \<or> (sid, fd) \<in> set lost"
    "(sid, fd) \<in> set lost \<Longrightarrow> map_find ss f = Some s \<Longrightarrow> s_id s \<noteq> sid"
    "map_find ss f = Some s \<Longrightarrow> map_find ss g = Some t \<Longrightarrow> s_id s = s_id t \<Longrightarrow> f = g"
proof -
  show ids: "map_find fds sid = Some fd \<longleftrightarrow> (\<exists>s. map_find ss fd = Some s \<and> s_id s = sid) \<or> (sid, fd) \<in> set lost"
    for sid fd using assms unfolding maps_but_lost_def by blast
  show "f = g" if "map_find ss f = Some s" "map_find ss g = Some t" "s_id s = s_id t"
    using ids [of "s_id s" f] ids [of "s_id s" g] that by auto
qed (use assms in \<open>auto simp: maps_but_lost_def\<close>)

lemma maps_but_lostI:
  assumes "map_wf ss" and "map_wf fds"
    and "\<And>sid fd. map_find fds sid = Some fd \<longleftrightarrow> (\<exists>s. map_find ss fd = Some s \<and> s_id s = sid) \<or> (sid, fd) \<in> set lost"
    and "\<And>sid fd f s. (sid, fd) \<in> set lost \<Longrightarrow> map_find ss f = Some s \<Longrightarrow> s_id s \<noteq> sid"
  shows "maps_but_lost ss fds lost"
  unfolding maps_but_lost_def using assms by blast

lemma maps_but_lost_update:
  assumes "maps_but_lost ss fds lost" and "map_find ss fd = Some s" and "s_id s' = s_id s"
  shows "maps_but_lost (map_assign ss fd s') fds lost"
  using assms by (auto simp: maps_but_lost_def)

lemma maps_but_lost_erase:
  assumes "maps_but_lost ss fds lost" and "map_find ss fd = Some s"
  shows "maps_but_lost (map_erase ss fd) (map_erase fds (s_id s)) lost"
proof -
  note d = maps_but_lostD [OF assms(1)]
  have "map_find (map_erase fds (s_id s)) sid = Some f \<longleftrightarrow>
      (\<exists>t. map_find (map_erase ss fd) f = Some t \<and> s_id t = sid) \<or> (sid, f) \<in> set lost" for sid f
  proof (cases "sid = s_id s")
    case True
    then show ?thesis using d(1,2) d(4) [OF _ assms(2)] d(5) [OF _ assms(2)] by auto
  next
    case False
    then show ?thesis using d(1,2) d(3) [of sid f] assms(2) by auto
  qed
  then show ?thesis by (rule maps_but_lostI [rotated 2]) (use d(1,2,4) in \<open>auto split: if_splits\<close>)
qed

lemma maps_but_lost_insert:
  assumes "maps_but_lost ss fds lost" and "s_id s = sid" and "map_find fds sid = None"
  shows "maps_but_lost (map_assign ss fd s) (map_assign fds sid fd)
      (case map_find ss fd of None \<Rightarrow> lost | Some t \<Rightarrow> (s_id t, fd) # lost)"
proof -
  note d = maps_but_lostD [OF assms(1)]
  define lost' where "lost' = (case map_find ss fd of None \<Rightarrow> lost | Some t \<Rightarrow> (s_id t, fd) # lost)"
  have lost': "(i, f) \<in> set lost' \<longleftrightarrow> (i, f) \<in> set lost \<or> f = fd \<and> (\<exists>t. map_find ss fd = Some t \<and> s_id t = i)" for i f
    by (auto simp: lost'_def split: option.splits)
  have new: "s_id t \<noteq> sid" if "map_find ss f = Some t" for f t
    using d(3) [of sid f] assms(3) that by auto
  have unlost: "(sid, f) \<notin> set lost" for f using d(3) [of sid f] assms(3) by auto
  have "map_find (map_assign fds sid fd) i = Some f \<longleftrightarrow>
      (\<exists>t. map_find (map_assign ss fd s) f = Some t \<and> s_id t = i) \<or> (i, f) \<in> set lost'" for i f
  proof (cases "i = sid")
    case True
    then show ?thesis using d(1,2) new unlost assms(2) by (auto simp: lost')
  next
    case False
    then show ?thesis using d(1,2) d(3) [of i f] assms(2) by (auto simp: lost')
  qed
  moreover have "s_id t \<noteq> i" if "(i, g) \<in> set lost'" "map_find (map_assign ss fd s) f = Some t" for i g f t
  proof (cases "f = fd")
    case True
    then have "t = s" using that(2) d(1) by simp
    then show ?thesis using that(1) unlost new assms(2) by (auto simp: lost')
  next
    case False
    then have "map_find ss f = Some t" using that(2) d(1) by simp
    then show ?thesis using that(1) False d(4) [of i g f t] d(5) [of f t fd] by (auto simp: lost')
  qed
  ultimately show ?thesis
    unfolding lost'_def [symmetric] by (rule maps_but_lostI [rotated 2]) (simp_all add: d(1,2))
qed

lemma maps_but_lost_check:
  assumes "maps_but_lost ss fds lost" and "check_loop os now ss fds l = (ss', fds', l')"
  shows "maps_but_lost ss' fds' lost" and "map_find fds' sid = Some fd \<Longrightarrow> map_find fds sid = Some fd"
proof -
  note d = maps_but_lostD [OF assms(1)]
  from check_loop_result [OF assms(2)] d(2) have r: "ss' = filter (\<lambda>(fd, s). \<not> idle now s) ss" "map_wf fds'"
      "\<And>sid. map_find fds' sid =
        (if \<exists>e \<in> set ss. idle now (snd e) \<and> s_id (snd e) = sid then None else map_find fds sid)" by auto
  have find: "map_find ss' f = (case map_find ss f of Some s \<Rightarrow> if idle now s then None else Some s | None \<Rightarrow> None)"
    for f using map_find_filter [OF d(1), of "\<lambda>s. \<not> idle now s"] by (auto simp: r(1) split: option.splits)
  have gone: "(\<exists>e \<in> set ss. idle now (snd e) \<and> s_id (snd e) = sid)
      \<longleftrightarrow> (\<exists>f t. map_find ss f = Some t \<and> idle now t \<and> s_id t = sid)" for sid
    using map_find_in [OF d(1)] by force
  have "map_find fds' i = Some f \<longleftrightarrow> (\<exists>t. map_find ss' f = Some t \<and> s_id t = i) \<or> (i, f) \<in> set lost" for i f
  proof (cases "\<exists>g t. map_find ss g = Some t \<and> idle now t \<and> s_id t = i")
    case True
    then obtain g t where t: "map_find ss g = Some t" "idle now t" "s_id t = i" by blast
    have "f = g" if "map_find ss f = Some u" "s_id u = i" for u
      using d(5) [OF that(1) t(1)] that(2) t(3) by simp
    with t True d(4) [of i f g t] show ?thesis by (auto simp: r(3) gone find split: option.splits if_splits)
  next
    case False
    then show ?thesis using d(3) [of i f] by (auto simp: r(3) gone find split: option.splits)
  qed
  moreover have "s_id t \<noteq> i" if "(i, g) \<in> set lost" "map_find ss' f = Some t" for i g f t
    using that d(4) by (auto simp: find split: option.splits if_splits)
  ultimately show "maps_but_lost ss' fds' lost"
    by (rule maps_but_lostI [rotated 2]) (simp_all add: r(1,2) d(1))
  show "map_find fds' sid = Some fd \<Longrightarrow> map_find fds sid = Some fd" by (auto simp: r(3) split: if_splits)
qed

section \<open>Every call keeps the invariant\<close>

lemma lost_inv_update:
  assumes "lost_inv m given lost" and "map_find (sessions m) fd = Some s" and "s_id s' = s_id s"
  shows "lost_inv (m\<lparr>sessions := map_assign (sessions m) fd s'\<rparr>) given lost"
  using assms maps_but_lost_update [of "sessions m" "id_fds m" lost fd s s'] by (simp add: lost_inv_def)

lemma lost_inv_insert:
  assumes "lost_inv m given lost" and "unat (m_uid m) + 1 < 2 ^ 64"
    and "insert_session os fd m l = (sid, m', l')"
  shows "lost_inv m' (sid # given)
      (case map_find (sessions m) fd of None \<Rightarrow> lost | Some t \<Rightarrow> (s_id t, fd) # lost)
    \<and> unat (m_uid m') = unat (m_uid m) + 1"
proof -
  have u: "unat (m_uid m + 1) = unat (m_uid m) + 1"
    using assms(2) by (simp add: unat_word_ariths)
  obtain pre s where r: "m' = m\<lparr>m_uid := m_uid m + 1, sessions := map_assign (sessions m) fd s,
        id_fds := map_assign (id_fds m) sid fd\<rparr>"
      "sid = pre @ CHR ''_'' # show_nat (unat (m_uid m + 1))" "s_id s = sid"
    using assms(3)
    by (auto simp: insert_session_def gen_uid_def Let_def Session_new_def simp del: append.simps
        split: prod.splits)
  have num: "numbered sid (unat (m_uid m) + 1)" unfolding numbered_def u [symmetric] using r(2) by blast
  have fresh: "sid \<notin> set given"
    using assms(1) numbered_inj [OF num] by (force simp: lost_inv_def)
  then have none: "map_find (id_fds m) sid = None"
    using assms(1) by (cases "map_find (id_fds m) sid") (auto simp: lost_inv_def)
  have old: "maps_but_lost (sessions m) (id_fds m) lost" using assms(1) by (simp add: lost_inv_def)
  have uid: "unat (m_uid m') = unat (m_uid m) + 1" by (simp only: r(1) u) (simp add: u)
  have "\<exists>k \<le> unat (m_uid m'). numbered i k" if "i \<in> set (sid # given)" for i
  proof (cases "i = sid")
    case True
    then show ?thesis using num uid by auto
  next
    case False
    then have "\<exists>k \<le> unat (m_uid m). numbered i k" using assms(1) that by (simp add: lost_inv_def)
    then show ?thesis using uid by (metis le_add1 order_trans)
  qed
  moreover have "i \<in> set (sid # given)" if "map_find (id_fds m') i = Some f" for i f
    using that assms(1) maps_but_lostD(2) [OF old] by (auto simp: r(1) lost_inv_def split: if_splits)
  moreover have "maps_but_lost (sessions m') (id_fds m')
      (case map_find (sessions m) fd of None \<Rightarrow> lost | Some t \<Rightarrow> (s_id t, fd) # lost)"
    using maps_but_lost_insert [OF old r(3) none] by (simp add: r(1))
  moreover have "distinct (sid # given)" using fresh assms(1) by (simp add: lost_inv_def)
  ultimately show ?thesis using uid unfolding lost_inv_def by blast
qed

lemma any_step_inv:
  assumes "any_step os a (m, given, lost, l) = (m', given', lost', l')" and "lost_inv m given lost"
    and "unat (m_uid m) + 1 < 2 ^ 64"
  shows "lost_inv m' given' lost' \<and> unat (m_uid m') \<le> unat (m_uid m) + 1 \<and> set lost \<subseteq> set lost'"
proof -
  have step: "session_step os a (m, given, l) = (m', given', l')"
    and lost: "lost' = (case a of S_insert fd \<Rightarrow>
        (case map_find (sessions m) fd of None \<Rightarrow> lost | Some s \<Rightarrow> (s_id s, fd) # lost) | _ \<Rightarrow> lost)"
    using assms(1) by (auto simp: any_step_def Let_def split: prod.splits)
  show ?thesis
  proof (cases a)
    case (S_insert fd)
    obtain sid m1 l1 where i: "insert_session os fd m l = (sid, m1, l1)" by (metis prod_cases3)
    show ?thesis
      using lost_inv_insert [OF assms(2,3) i] step lost S_insert i by (auto split: option.splits)
  next
    case (S_remove fd)
    show ?thesis
    proof (cases "map_find (sessions m) fd")
      case None
      then show ?thesis using step lost assms(2) S_remove by (simp add: remove_session_def)
    next
      case (Some s)
      have "m' = m\<lparr>id_fds := map_erase (id_fds m) (s_id s), sessions := map_erase (sessions m) fd\<rparr>"
          "given' = given" "lost' = lost"
        using step lost S_remove Some by (auto simp: remove_session_def Let_def split: prod.splits)
      moreover have "maps_but_lost (sessions m) (id_fds m) lost" using assms(2) by (simp add: lost_inv_def)
      ultimately show ?thesis
        using maps_but_lost_erase [OF _ Some] maps_but_lostD(2) assms(2) by (auto simp: lost_inv_def split: if_splits)
    qed
  next
    case (S_status fd st)
    then show ?thesis
      using step lost assms(2) lost_inv_update [OF assms(2)] by (auto simp: update_status_def split: option.splits)
  next
    case (S_read fd num)
    then show ?thesis
      using step lost assms(2) lost_inv_update [OF assms(2)]
      by (auto simp: update_read_def Let_def split: option.splits prod.splits if_splits)
  next
    case (S_write fd num)
    then show ?thesis
      using step lost assms(2) lost_inv_update [OF assms(2)]
      by (auto simp: update_write_def Let_def split: option.splits prod.splits if_splits)
  next
    case (S_client sid cid)
    then show ?thesis
      using step lost assms(2) lost_inv_update [OF assms(2)]
      by (auto simp: set_client_id_def split: option.splits prod.splits if_splits)
  next
    case S_check
    obtain now l1 where n: "TimeStamp_now os l = (now, l1)" by fastforce
    obtain ss fds l2 where c: "check_loop os (ToUSeconds now) (sessions m) (id_fds m) l1 = (ss, fds, l2)"
      by (metis prod_cases3)
    have m': "m' = m\<lparr>sessions := ss, id_fds := fds\<rparr>" "given' = given" "lost' = lost"
      using step lost S_check n c by (simp_all add: SessionTimerHandler_handle_timeout_def SessionMgt_check_def)
    have "maps_but_lost (sessions m) (id_fds m) lost" using assms(2) by (simp add: lost_inv_def)
    from maps_but_lost_check [OF this c] show ?thesis using assms(2) by (auto simp: m' lost_inv_def)
  qed
qed

lemma any_run_inv:
  "any_run os as (m, given, lost, l) = (m', given', lost', l') \<Longrightarrow> lost_inv m given lost \<Longrightarrow>
   unat (m_uid m) + length as < 2 ^ 64 \<Longrightarrow>
   lost_inv m' given' lost' \<and> unat (m_uid m') \<le> unat (m_uid m) + length as \<and> set lost \<subseteq> set lost'"
proof (induction "as" arbitrary: m given lost l)
  case (Cons a as)
  obtain m1 g1 k1 l1 where s: "any_step os a (m, given, lost, l) = (m1, g1, k1, l1)" by (metis prod_cases4)
  then have "any_run os as (m1, g1, k1, l1) = (m', given', lost', l')"
    using Cons.prems(1) by (simp add: any_run_def)
  moreover have b: "unat (m_uid m) + 1 < 2 ^ 64" using Cons.prems(3) by simp
  moreover note any_step_inv [OF s Cons.prems(2) b]
  ultimately show ?case using Cons.IH [of m1 g1 k1 l1] Cons.prems(3) by fastforce
qed (simp add: any_run_def)

section \<open>Properties\<close>

text \<open>
  C14: after any sequence of calls, no id was handed out twice, and the ids that lead to a descriptor are
  exactly those of the sessions and the lost ones. The id of a session that a second insertion on
  its descriptor overwrote is lost: it is the id of no session, but stays valid for good, whatever is
  called later, and leads to the descriptor; while another session is there, setting the client id
  for the lost id sets it for that session.
\<close>

theorem session_ids_lost:
  assumes "SessionMgt_new os0 h sec usec l0 = (m0, tm, t, l1)"
    and "any_run os as (m0, [], [], l) = (m, given, lost, l')" and "length as < 2 ^ 64"
  shows "distinct given
    \<and> (\<forall>sid fd. get_fd m sid = (True, Some fd) \<longleftrightarrow>
          (\<exists>s. map_find (sessions m) fd = Some s \<and> s_id s = sid) \<or> (sid, fd) \<in> set lost)
    \<and> (\<forall>sid fd. (sid, fd) \<in> set lost \<longrightarrow> (\<forall>f s. map_find (sessions m) f = Some s \<longrightarrow> s_id s \<noteq> sid)
        \<and> (\<forall>s cid. map_find (sessions m) fd = Some s \<longrightarrow>
              get_client_id (snd (set_client_id sid cid m)) (s_id s) = (True, Some cid))
        \<and> (\<forall>os2 as2 l2. length as + length as2 < 2 ^ 64 \<longrightarrow>
              get_fd (fst (any_run os2 as2 (m, given, lost, l2))) sid = (True, Some fd)))"
proof -
  have new: "lost_inv m0 [] []" "unat (m_uid m0) = 0"
    using assms(1) by (auto simp: SessionMgt_new_def lost_inv_def maps_but_lost_def split: prod.splits)
  with any_run_inv [OF assms(2)] assms(3) have inv: "lost_inv m given lost" "unat (m_uid m) \<le> length as" by auto
  have to: "get_fd m sid = (True, Some fd) \<longleftrightarrow> map_find (id_fds m) sid = Some fd" for m sid fd
    by (simp add: get_fd_def split: option.splits)
  have ids: "get_fd m sid = (True, Some fd) \<longleftrightarrow>
      (\<exists>s. map_find (sessions m) fd = Some s \<and> s_id s = sid) \<or> (sid, fd) \<in> set lost"
    if "lost_inv m given lost" for m given lost sid fd
    using that unfolding to lost_inv_def maps_but_lost_def by blast
  have d: "maps_but_lost (sessions m) (id_fds m) lost" using inv(1) by (simp add: lost_inv_def)
  have other: "s_id s \<noteq> sid" if "(sid, fd) \<in> set lost" "map_find (sessions m) f = Some s" for sid fd f s
    using maps_but_lostD(4) [OF d that] .
  have client: "get_client_id (snd (set_client_id sid cid m)) (s_id s) = (True, Some cid)"
    if "(sid, fd) \<in> set lost" "map_find (sessions m) fd = Some s" for sid fd s cid
  proof -
    have "map_find (id_fds m) sid = Some fd" "map_find (id_fds m) (s_id s) = Some fd"
      using maps_but_lostD(3) [OF d] that by blast+
    with that(2) maps_but_lostD(1) [OF d] show ?thesis by (simp add: set_client_id_def get_client_id_def)
  qed
  have stays: "get_fd (fst (any_run os2 as2 (m, given, lost, l2))) sid = (True, Some fd)"
    if "(sid, fd) \<in> set lost" "length as + length as2 < 2 ^ 64" for sid fd os2 as2 l2
  proof -
    obtain m2 g2 k2 l3 where r: "any_run os2 as2 (m, given, lost, l2) = (m2, g2, k2, l3)" by (metis prod_cases4)
    from any_run_inv [OF r inv(1)] inv(2) that(2) have "lost_inv m2 g2 k2" "set lost \<subseteq> set k2" by auto
    with ids [of m2 g2 k2 sid fd] that(1) r show ?thesis by auto
  qed
  show ?thesis
    using inv(1) ids [OF inv(1)] other client stays by (auto simp: lost_inv_def)
qed

text \<open>A second insertion for the descriptor 5, and then its removal.\<close>

lemma session_ids_lost_witness:
  "\<exists>m given l. any_run minute_os [S_insert 5, S_insert 5] (no_sessions, [], [], [])
        = (m, given, [(''1.2.3.4_99_60_1'', 5)], l)
     \<and> get_fd (fst (any_run minute_os [S_remove 5] (m, given, [(''1.2.3.4_99_60_1'', 5)], l)))
         ''1.2.3.4_99_60_1'' = (True, Some 5)"
proof -
  obtain m given l where run: "any_run minute_os [S_insert 5, S_insert 5] (no_sessions, [], [], [])
        = (m, given, [(''1.2.3.4_99_60_1'', 5)], l)"
    by (simp add: any_run_def any_step_def insert_session_def gen_uid_def get_remote_socket_def TimeStamp_now_def ts_of_reply_def
        syscall_def Let_def minute_os_def ok_reply_def no_sessions_def Session_new_def
        format_s_u_def c_str_def show_nat.simps digit_char_def char_of_def bit_0 ToUSeconds_def)
  obtain tm t l0 where new: "SessionMgt_new minute_os 0 0 0 [] = (no_sessions, tm, t, l0)"
    using no_sessions_new by blast
  from session_ids_lost [OF new run] have
    "\<forall>os2 as2 l2. 2 + length as2 < 2 ^ 64 \<longrightarrow> get_fd (fst (any_run os2 as2 (m, given, [(''1.2.3.4_99_60_1'', 5)], l2)))
       ''1.2.3.4_99_60_1'' = (True, Some 5)"
    by simp
  then have "get_fd (fst (any_run minute_os [S_remove 5] (m, given, [(''1.2.3.4_99_60_1'', 5)], l)))
         ''1.2.3.4_99_60_1'' = (True, Some 5)"
    by simp
  with run show ?thesis by blast
qed

end
