(* ===== verification/MessageTransfer.thy ===== *)
theory MessageTransfer
  imports TcpClientEpoll "HOL-Library.Sublist"
begin

text \<open>
  Both ends of a connection: a client (TcpClientEpoll.cpp) that sends messages with \<open>send\<close>, and a peer
  that reads with the helpers of SocketUtils.cpp. Each end has a system and a log of its own; all
  that joins them is what TCP promises: the bytes that one end has received are, in order, the first
  of those that the other end's system has taken.
\<close>

section \<open>The two ends\<close>

text \<open>The client sends one message after the other, and stops at the first that is not sent whole.\<close>

fun client_sends :: "os \<Rightarrow> int \<Rightarrow> uint \<Rightarrow> tcp_client \<Rightarrow> uchar list list \<Rightarrow> log \<Rightarrow> (nat \<times> log) option" where
  "client_sends os flags timeout c [] l = Some (0, l)"
| "client_sends os flags timeout c (b # bs) l =
     do { (ret, len, l) \<leftarrow> TcpClientEpoll_send os b (word_of_nat (length b)) flags timeout c l;
          if ret = 0 then do { (k, l) \<leftarrow> client_sends os flags timeout c bs l; Some (Suc k, l) }
          else Some (0, l) }"

text \<open>
  The peer reads messages of known lengths with \<open>recv_n\<close>, up to the first that does not come whole: the
  messages, and what there is of that one.
\<close>

fun peer_reads :: "os \<Rightarrow> int \<Rightarrow> uint \<Rightarrow> nat list \<Rightarrow> log \<Rightarrow> (uchar list list \<times> uchar list \<times> log) option" where
  "peer_reads os fd timeout [] l = Some ([], [], l)"
| "peer_reads os fd timeout (n # ns) l =
     do { (ret, len, data, l) \<leftarrow> SocketUtils_recv_n os fd (word_of_nat n) timeout l;
          if ret = 1 then
            do { (got, rest, l) \<leftarrow> peer_reads os fd timeout ns l; Some (data # got, rest, l) }
          else Some ([], data, l) }"

text \<open>The peer reads with \<open>recv\<close> into buffers of any lengths.\<close>

fun peer_chunks :: "os \<Rightarrow> int \<Rightarrow> (uint \<times> uint) list \<Rightarrow> log \<Rightarrow> (uchar list \<times> log) option" where
  "peer_chunks os fd [] l = Some ([], l)"
| "peer_chunks os fd ((len, timeout) # cs) l =
     do { (ret, len, data, l) \<leftarrow> SocketUtils_recv os fd len timeout l;
          (more, l) \<leftarrow> peer_chunks os fd cs l;
          Some (data @ more, l) }"

section \<open>What goes through\<close>

lemma client_sends_delivered:
  assumes "send_contract os" and "\<forall>b \<in> set bs. length b < 2 ^ 32"
    and "client_sends os flags timeout c bs l = Some (k, l')"
  shows "\<exists>m p. l' = l @ m \<and> k \<le> length bs \<and> delivered m = concat (take k bs) @ p
    \<and> (if k < length bs then prefix p (bs ! k) else p = [])"
  using assms(2,3)
proof (induction bs arbitrary: l k)
  case (Cons b bs)
  obtain ret len l1 where s: "TcpClientEpoll_send os b (word_of_nat (length b)) flags timeout c l = Some (ret, len, l1)"
    using Cons.prems(2) by (auto simp: bind_eq_Some_conv)
  have b: "unat (word_of_nat (length b) :: uint) = length b"
    using Cons.prems(1) by (simp add: unat_of_nat take_bit_nat_eq_self)
  have "\<exists>m. l1 = l @ m \<and> prefix (delivered m) b \<and> (ret = 0 \<longrightarrow> delivered m = b)"
  proof (cases "cl_open c")
    case False
    then show ?thesis using s by (auto simp: TcpClientEpoll_send_def)
  next
    case True
    then have "SocketUtils_send_n os (cl_fd c) b (word_of_nat (length b)) flags timeout l = Some (ret, len, l1)"
      using s by (simp add: TcpClientEpoll_send_def)
    from send_n_result [OF assms(1) _ this] b show ?thesis by (auto simp: take_is_prefix)
  qed
  then obtain m where m: "l1 = l @ m" "prefix (delivered m) b" "ret = 0 \<longrightarrow> delivered m = b" by blast
  show ?case
  proof (cases "ret = 0")
    case False
    then show ?thesis using Cons.prems(2) s m by (auto intro!: exI [of _ m])
  next
    case True
    then obtain j where j: "client_sends os flags timeout c bs l1 = Some (j, l')" "k = Suc j"
      using Cons.prems(2) s by (auto simp: bind_eq_Some_conv)
    from Cons.IH [OF _ j(1)] Cons.prems(1) obtain n p where n: "l' = l1 @ n" "j \<le> length bs"
        "delivered n = concat (take j bs) @ p" "if j < length bs then prefix p (bs ! j) else p = []"
      by auto
    with m True j(2) show ?thesis
      by (intro exI [of _ "m @ n"] exI [of _ p]) simp
  qed
qed auto

lemma peer_reads_received:
  assumes "recv_contract os" and "\<forall>n \<in> set ns. n < 2 ^ 32"
    and "peer_reads os fd timeout ns l = Some (got, rest, l')"
  shows "\<exists>m. l' = l @ m \<and> received m = concat got @ rest \<and> length got \<le> length ns
    \<and> map length got = take (length got) ns
    \<and> (if length got < length ns then length rest \<le> ns ! length got else rest = [])"
  using assms(2,3)
proof (induction ns arbitrary: l got)
  case (Cons n ns)
  obtain ret len data l1 where r: "SocketUtils_recv_n os fd (word_of_nat n) timeout l = Some (ret, len, data, l1)"
    using Cons.prems(2) by (auto simp: bind_eq_Some_conv)
  have n: "unat (word_of_nat n :: uint) = n"
    using Cons.prems(1) by (simp add: unat_of_nat take_bit_nat_eq_self)
  from recv_n_result [OF assms(1) r] obtain m0 t m1 where k: "l1 = l @ m0 @ (C_gettimeofday, t) # m1"
      "received m0 = []" "data = received m1" "length data \<le> unat (word_of_nat n :: uint)"
      "ret = 1 \<longrightarrow> length data = unat (word_of_nat n :: uint)" unfolding recv_n_means_def by blast
  define m where "m = m0 @ (C_gettimeofday, t) # m1"
  have m: "l1 = l @ m" "received m = data" "length data \<le> n" "ret = 1 \<longrightarrow> length data = n"
    using k n by (simp_all add: m_def)
  show ?case
  proof (cases "ret = 1")
    case False
    then show ?thesis using Cons.prems(2) r m by (auto intro!: exI [of _ m])
  next
    case True
    then obtain g where g: "peer_reads os fd timeout ns l1 = Some (g, rest, l')" "got = data # g"
      using Cons.prems(2) r by (auto simp: bind_eq_Some_conv)
    from Cons.IH [OF _ g(1)] Cons.prems(1) obtain k where "l' = l1 @ k" "received k = concat g @ rest"
        "length g \<le> length ns" "map length g = take (length g) ns"
        "if length g < length ns then length rest \<le> ns ! length g else rest = []"
      by auto
    with m True g(2) show ?thesis by (intro exI [of _ "m @ k"]) simp
  qed
qed auto

lemma recv_loop_received:
  assumes "recv_loop os fd timeout b e bs l = Some (ret, len, data, l')"
  shows "\<exists>m. l' = l @ m \<and> received m = data"
proof -
  have "\<exists>m. snd (snd (snd y)) = l @ m \<and> received m = fst (snd (snd y))"
    if "recv_loop os fd timeout b e bs l = Some y" for os fd timeout b e bs l y
  proof (rule recv_loop.raw_induct [of "\<lambda>os fd timeout b e bs l y.
        \<exists>m. snd (snd (snd y)) = l @ m \<and> received m = fst (snd (snd y))", OF _ that])
    fix loop os fd timeout b e bs l y
    assume ih: "\<And>os fd timeout b e bs l y. loop os fd timeout b e bs l = Some y \<Longrightarrow>
        \<exists>m. snd (snd (snd y)) = l @ m \<and> received m = fst (snd (snd y))"
      and body: "(if timed_out b e timeout then Some (2, 0, [], l)
      else
        (let (r, l) = syscall os (C_recv fd bs) l in
         if rv r > 0 then Some (1, word_of_int (rv r), bytes r, l)
         else if rv r = 0 then Some (0, 0, [], l)
         else if err r = EAGAIN \<or> err r = EINTR then
           (let (end_usec, l) = now_usec os l
            in loop os fd timeout b end_usec bs l)
         else Some (rv r, 0, [], l))) = Some y"
    define r where "r = os (length l) (C_recv fd bs)"
    define t where "t = os (Suc (length l)) C_gettimeofday"
    show "\<exists>m. snd (snd (snd y)) = l @ m \<and> received m = fst (snd (snd y))"
    proof (cases "\<not> timed_out b e timeout \<and> rv r < 0 \<and> (err r = EAGAIN \<or> err r = EINTR)")
      case False
      then show ?thesis using body by (auto simp: syscall_def Let_def r_def split: if_splits)
    next
      case True
      then have "loop os fd timeout b (clock_at os (Suc (length l))) bs
          (l @ [(C_recv fd bs, r), (C_gettimeofday, t)]) = Some y"
        using body by (simp add: syscall_def now_usec_eq Let_def r_def t_def)
      from ih [OF this] obtain m where
        "snd (snd (snd y)) = l @ [(C_recv fd bs, r), (C_gettimeofday, t)] @ m" "received m = fst (snd (snd y))"
        by auto
      with True show ?thesis by (intro exI [of _ "[(C_recv fd bs, r), (C_gettimeofday, t)] @ m"]) simp
    qed
  qed
  from this [OF assms] show ?thesis by simp
qed

lemma recv_received:
  assumes "SocketUtils_recv os fd len timeout l = Some (ret, len', data, l')"
  shows "\<exists>m. l' = l @ m \<and> received m = data"
proof -
  obtain m1 where m1: "snd (set_non_bolck os fd l) = l @ m1" "received m1 = []"
    using set_non_bolck_log by blast
  let ?t = "(C_gettimeofday, os (length (l @ m1)) C_gettimeofday)"
  have "recv_loop os fd timeout (clock_at os (length (l @ m1))) 0 len ((l @ m1) @ [?t]) = Some (ret, len', data, l')"
    using assms m1 by (simp add: SocketUtils_recv_def now_usec_eq Let_def split_beta)
  from recv_loop_received [OF this] m1 show ?thesis by auto
qed

lemma peer_chunks_received:
  "peer_chunks os fd cs l = Some (data, l') \<Longrightarrow> \<exists>m. l' = l @ m \<and> received m = data"
proof (induction cs arbitrary: l data)
  case (Cons x cs)
  obtain len timeout where x: "x = (len, timeout)" by fastforce
  with Cons.prems obtain ret n d l1 more where c: "SocketUtils_recv os fd len timeout l = Some (ret, n, d, l1)"
      "peer_chunks os fd cs l1 = Some (more, l')" "data = d @ more"
    by (auto simp: bind_eq_Some_conv)
  from recv_received [OF c(1)] obtain m where m: "l1 = l @ m" "received m = d" by blast
  from Cons.IH [OF c(2)] obtain m2 where "l' = l1 @ m2" "received m2 = more" by blast
  with m c(3) show ?case by (intro exI [of _ "m @ m2"]) simp
qed auto

text \<open>Whole messages cut off the front of a stream.\<close>

lemma messages_of_prefix:
  assumes "prefix (concat got @ rest) (concat msgs)" and "map length got = take (length got) (map length msgs)"
    and "length got \<le> length msgs"
  shows "got = take (length got) msgs \<and> prefix rest (concat (drop (length got) msgs))"
  using assms
proof (induction got arbitrary: msgs)
  case (Cons g got)
  then obtain b bs where msgs: "msgs = b # bs" by (cases msgs) auto
  with Cons.prems(2) have "length g = length b" by simp
  with Cons.prems(1) msgs have g: "g = b" "prefix (concat got @ rest) (concat bs)"
    by (auto simp: prefix_def append_eq_append_conv)
  with Cons.IH [of bs] Cons.prems(2,3) msgs show ?case by auto
qed simp

section \<open>Properties\<close>

text \<open>
  C3: messages that a client sends over a connection arrive whole, in order and unmixed, however both
  systems cut the stream. What the peer reads with \<open>recv_n\<close>, asking for the lengths of the
  messages, is the first messages, and then a beginning of the next one; what it reads with
  \<open>recv\<close> is a beginning of all of them, and all of it if every message was sent and nothing is
  still on its way.
\<close>

theorem messages_arrive:
  assumes "send_contract os1" and "recv_contract os2" and "\<forall>b \<in> set msgs. length b < 2 ^ 32"
    and "client_sends os1 flags t1 c msgs l1 = Some (k, l1 @ m1)"
    and "prefix (received m2) (delivered m1)"
  shows "(\<forall>fd t2 l2 got rest. peer_reads os2 fd t2 (map length msgs) l2 = Some (got, rest, l2 @ m2) \<longrightarrow>
        got = take (length got) msgs
        \<and> (if length got < length msgs then prefix rest (msgs ! length got) else rest = []))
    \<and> (\<forall>fd cs l2 data. peer_chunks os2 fd cs l2 = Some (data, l2 @ m2) \<longrightarrow> prefix data (concat msgs)
        \<and> (k = length msgs \<and> received m2 = delivered m1 \<longrightarrow> data = concat msgs))"
proof -
  from client_sends_delivered [OF assms(1,3,4)] obtain p where
    p: "k \<le> length msgs" "delivered m1 = concat (take k msgs) @ p"
      "if k < length msgs then prefix p (msgs ! k) else p = []" by auto
  have sent: "prefix (delivered m1) (concat msgs)"
  proof (cases "k < length msgs")
    case True
    then have "concat msgs = concat (take k msgs) @ msgs ! k @ concat (drop (Suc k) msgs)"
      by (metis id_take_nth_drop concat_append concat.simps(2))
    with True p show ?thesis by (auto simp: prefix_def)
  next
    case False
    with p show ?thesis by simp
  qed
  with assms(5) have got: "prefix (received m2) (concat msgs)" by (rule prefix_order.order_trans)
  show ?thesis
  proof (intro conjI allI impI)
    fix fd t2 l2 got rest
    assume "peer_reads os2 fd t2 (map length msgs) l2 = Some (got, rest, l2 @ m2)"
    from peer_reads_received [OF assms(2) _ this] assms(3) have
      r: "received m2 = concat got @ rest" "length got \<le> length msgs" "map length got = take (length got) (map length msgs)"
        "if length got < length msgs then length rest \<le> length (msgs ! length got) else rest = []"
      by (auto split: if_splits)
    from messages_of_prefix [OF _ r(3,2)] got r(1) have
      g: "got = take (length got) msgs" "prefix rest (concat (drop (length got) msgs))" by simp_all
    show "got = take (length got) msgs" by (fact g(1))
    show "if length got < length msgs then prefix rest (msgs ! length got) else rest = []"
    proof (cases "length got < length msgs")
      case True
      then have "concat (drop (length got) msgs) = msgs ! length got @ concat (drop (Suc (length got)) msgs)"
        by (metis Cons_nth_drop_Suc concat.simps(2))
      with g(2) r(4) True show ?thesis by (simp add: prefix_length_prefix [of rest _ "msgs ! length got"])
    qed (use r(4) in simp)
  next
    fix fd cs l2 data
    assume "peer_chunks os2 fd cs l2 = Some (data, l2 @ m2)"
    from peer_chunks_received [OF this] have d: "received m2 = data" by simp
    with got show "prefix data (concat msgs)" by simp
    assume "k = length msgs \<and> received m2 = delivered m1"
    with d p show "data = concat msgs" by simp
  qed
qed

text \<open>A peer whose system has one byte of the first message, then the others, then the second message.\<close>

definition split_os :: os where
  "split_os n c = (case c of
      C_recv fd s \<Rightarrow>
        (let d = (if n = 3 then [7] else if n = 5 then [8, 9] else [1]) in
         if int (length d) \<le> uint s then (ok_reply (int (length d)))\<lparr>bytes := d\<rparr> else ok_reply 0)
    | C_gettimeofday \<Rightarrow> (ok_reply 0)\<lparr>nums := [100, int n]\<rparr>
    | _ \<Rightarrow> ok_reply 0)"

lemma messages_arrive_witness:
  "\<exists>m1 m2 got. client_sends two_os 0 1000 ((TcpClientEpoll_new \<lparr>svr_ip = [], svr_ip_out = [], svr_port = 80, svr_domain = []\<rparr> False None)
        \<lparr>cl_open := True, cl_fd := 5\<rparr>) [[7, 8, 9], [1]] [] = Some (2, m1)
    \<and> peer_reads split_os 6 1000 [3, 1] [] = Some (got, [], m2) \<and> got = [[7, 8, 9], [1]]"
proof -
  let ?c = "(TcpClientEpoll_new \<lparr>svr_ip = [], svr_ip_out = [], svr_port = 80, svr_domain = []\<rparr> False None)
        \<lparr>cl_open := True, cl_fd := 5\<rparr>"
  have s: "send_contract two_os" by (simp add: send_contract_def two_os_def ok_reply_def)
  have r: "recv_contract split_os" by (auto simp: recv_contract_def split_os_def ok_reply_def Let_def)
  obtain m1 where m1: "client_sends two_os 0 1000 ?c [[7, 8, 9], [1]] [] = Some (2, [] @ m1)" "delivered m1 = [7, 8, 9, 1]"
    by (simp add: TcpClientEpoll_send_def SocketUtils_send_n_def set_non_bolck_def syscall_def now_usec_eq Let_def
        two_os_def send_n_loop.simps timed_out_def clock_at_def ts_of_reply_def ToUSeconds_def ok_reply_def chunk_def)
  obtain got m2 where m2: "peer_reads split_os 6 1000 (map length [[7, 8, 9], [1 :: uchar]]) [] = Some (got, [], [] @ m2)"
      "length got = 2" "received m2 = [7, 8, 9, 1]"
    by (simp add: SocketUtils_recv_n_def set_non_bolck_def syscall_def now_usec_eq Let_def
        split_os_def recv_n_loop.simps timed_out_def clock_at_def ts_of_reply_def ToUSeconds_def ok_reply_def)
  have "\<forall>b \<in> set [[7, 8, 9], [1 :: uchar]]. length b < 2 ^ 32" by simp
  from messages_arrive [OF s r this m1(1), of m2] m2(3) m1(2)
  have "\<forall>fd t2 l2 got rest. peer_reads split_os fd t2 (map length [[7, 8, 9], [1 :: uchar]]) l2 = Some (got, rest, l2 @ m2)
      \<longrightarrow> got = take (length got) [[7, 8, 9], [1]]" by (simp only: prefix_order.order_refl) blast
  from this [rule_format, OF m2(1)] m2(2) have got: "got = [[7, 8, 9], [1]]" by simp
  have "map length [[7, 8, 9], [1 :: uchar]] = [3, 1]" by simp
  with m1(1) m2(1) got show ?thesis by (intro exI [of _ m1] exI [of _ m2] exI [of _ got]) (simp only: append_Nil simp_thms)
qed

end
