(* ===== verification/EventHandler.thy ===== *)
theory EventHandler
  imports TcpReactor UdpReactor
begin

text \<open>
  src/EventHandler.h: the methods that a handler has if its class overrides none but \<open>renew\<close>, which
  is pure virtual. Elsewhere the methods of handlers are outside calls; \<open>EventHandler_os\<close> is a
  system whose handlers are of such a class. src/Utils.h: the two templates.
\<close>

section \<open>The default methods\<close>

definition EventHandler_method :: "call \<Rightarrow> int option" where
  "EventHandler_method c = (case c of
       H_accept h fd \<Rightarrow> Some 0
     | H_input h fd \<Rightarrow> Some 0
     | H_output h fd \<Rightarrow> Some 0
     | H_exception h fd \<Rightarrow> Some 0
     | H_close h fd \<Rightarrow> Some 0
     | H_input_udp h ip port buf \<Rightarrow> Some 0
     | H_close_udp h ip port \<Rightarrow> Some 0
     | _ \<Rightarrow> None)"

definition EventHandler_os :: "os \<Rightarrow> os" where
  "EventHandler_os os n c = (case EventHandler_method c of Some v \<Rightarrow> ok_reply v | None \<Rightarrow> os n c)"

definition Utils_min :: "'a :: linorder \<Rightarrow> 'a \<Rightarrow> 'a" where
  "Utils_min a b = (if a < b then a else b)"

definition Utils_max :: "'a :: linorder \<Rightarrow> 'a \<Rightarrow> 'a" where
  "Utils_max a b = (if a > b then a else b)"

lemma Utils_min_max: "Utils_min a b = min a b" "Utils_max a b = max a b"
  by (auto simp: Utils_min_def Utils_max_def min_def max_def)

section \<open>A reactor with default handlers\<close>

text \<open>Calls that end no connection, and a handler map that only grows.\<close>

definition only_grows :: "tcp_reactor \<Rightarrow> log \<Rightarrow> tcp_reactor \<Rightarrow> log \<Rightarrow> bool" where
  "only_grows R l R' l' \<longleftrightarrow> (\<exists>m. l' = l @ m \<and> (\<forall>e \<in> set m. \<forall>f. fst e \<noteq> C_close f) \<and> (map_wf (handlers R) \<longrightarrow>
     map_wf (handlers R') \<and> map_find (handlers R) \<subseteq>\<^sub>m map_find (handlers R')))"

lemma only_grows_calls:
  "l' = l @ m \<Longrightarrow> \<forall>e \<in> set m. \<forall>f. fst e \<noteq> C_close f \<Longrightarrow> only_grows R l R l'"
  by (auto simp: only_grows_def)

lemma only_grows_trans: "only_grows R l R1 l1 \<Longrightarrow> only_grows R1 l1 R2 l2 \<Longrightarrow> only_grows R l R2 l2"
proof -
  assume "only_grows R l R1 l1" "only_grows R1 l1 R2 l2"
  then obtain m n where "l1 = l @ m" "l2 = l1 @ n" "\<forall>e \<in> set (m @ n). \<forall>f. fst e \<noteq> C_close f"
      "map_wf (handlers R) \<Longrightarrow> map_wf (handlers R1) \<and> map_find (handlers R) \<subseteq>\<^sub>m map_find (handlers R1)"
      "map_wf (handlers R1) \<Longrightarrow> map_wf (handlers R2) \<and> map_find (handlers R1) \<subseteq>\<^sub>m map_find (handlers R2)"
    by (fastforce simp: only_grows_def)
  then show "only_grows R l R2 l2"
    unfolding only_grows_def by (intro exI [of _ "m @ n"]) (auto intro: map_le_trans)
qed

lemma default_event:
  assumes "on_event (EventHandler_os os) ev R l = Some (R', l')"
  shows "only_grows R l R' l'"
proof -
  have call: "only_grows R l R (l @ [(c, r)])" if "\<forall>f. c \<noteq> C_close f" for c r
    using that by (intro only_grows_calls [of _ _ "[(c, r)]"]) auto
  have acc: "only_grows R l R' l'" if "on_accept (EventHandler_os os) R l = Some (R', l')"
  proof -
    have grow: "map_wf (handlers R) \<Longrightarrow> map_find (handlers R) \<subseteq>\<^sub>m map_find (TMapInt_insert (handlers R) k v)" for k v
      by (auto simp: map_le_def TMapInt_insert_def)
    show ?thesis
      using that grow
      by (auto simp: on_accept_def set_snd_timeout_def epoller_ctl_def syscall_def Let_def EventHandler_os_def
          EventHandler_method_def ok_reply_def only_grows_def split: if_splits option.splits)
  qed
  have inp: "only_grows R l R' l'" if "on_input (EventHandler_os os) fd R l = (R', l')" for fd
    using that
    by (auto simp: on_input_def syscall_def Let_def EventHandler_os_def EventHandler_method_def ok_reply_def
        intro!: only_grows_calls split: prod.splits bool.splits option.splits)
  show ?thesis
    using assms acc inp call
    by (auto simp: on_event_def do_call_eq intro: only_grows_calls
        split: prod.splits bool.splits option.splits if_splits)
qed

lemma default_events: "on_events (EventHandler_os os) evs R l = Some (R', l') \<Longrightarrow> only_grows R l R' l'"
proof (induction evs arbitrary: R l)
  case Nil
  then show ?case by (auto intro: only_grows_calls [of _ _ "[]"])
next
  case (Cons ev evs)
  then obtain R1 l1 where "on_event (EventHandler_os os) ev R l = Some (R1, l1)"
      "on_events (EventHandler_os os) evs R1 l1 = Some (R', l')"
    by (auto simp: bind_eq_Some_conv)
  with Cons.IH default_event only_grows_trans show ?case by blast
qed

text \<open>
  With default handlers the reactor never closes a connection: input is never read and
  \<open>handle_input\<close> never asks to end, so every connection stays in the handler map.
\<close>

lemma default_handlers_keep:
  assumes "svc_loop (TcpReactor_svc (EventHandler_os os)) stops n R l = Some (R', l')"
  shows "only_grows R l R' l'"
proof (rule svc_loop_inv [OF assms])
  show "only_grows R l R l" by (rule only_grows_calls [of _ _ "[]"]) simp_all
next
  fix R1 l1 r R2 l2
  assume g: "only_grows R l R1 l1" and s: "TcpReactor_svc (EventHandler_os os) R1 l1 = Some (r, R2, l2)"
  let ?c = "C_epoll_wait (epfd R1) (ep_size R1) (- 1)"
  let ?l = "l1 @ [(?c, EventHandler_os os (length l1) ?c)]"
  have w: "only_grows R1 l1 R1 ?l" by (rule only_grows_calls [OF refl]) simp
  have "(\<exists>evs. on_events (EventHandler_os os) evs R1 ?l = Some (R2, l2)) \<or> R2 = R1 \<and> l2 = ?l"
    using s by (auto simp: TcpReactor_svc_def syscall_def Let_def bind_eq_Some_conv split: if_splits)
  then have "only_grows R1 l1 R2 l2"
    using w only_grows_trans [OF w default_events] by (elim disjE exE) simp_all
  then show "only_grows R l R2 l2" by (rule only_grows_trans [OF g])
qed

end
