(* ===== verification/CBLog.thy ===== *)
theory CBLog
  imports StringUtils TimeStamp
begin

text \<open>
  src/CBLog.h and src/Log.h: the macros that print log lines. A macro is a sequence of calls of
  \<open>fprintf\<close>, here the list of the texts written, in order. \<open>localtime\<close>, the thread's id and the
  macros of the other log library are outside; a null pointer from \<open>localtime\<close> is undefined
  behaviour.
\<close>

section \<open>The macros\<close>

text \<open>\<open>basename\<close> of \<open>libgen.h\<close>.\<close>

definition basename :: "string \<Rightarrow> string" where
  "basename path =
     (if path = [] then ''.''
      else
        (let q = dropWhile (\<lambda>c. c = CHR ''/'') (rev path)
         in if q = [] then ''/'' else rev (takeWhile (\<lambda>c. c \<noteq> CHR ''/'') q)))"

definition PrintTime :: "(slong \<Rightarrow> tm option) \<Rightarrow> os \<Rightarrow> log \<Rightarrow> (string \<times> log) option" where
  "PrintTime localtime os l =
     (let (r, l) = syscall os C_gettimeofday l; timep = ts_of_reply r in
      do { p \<leftarrow> localtime (getSeconds timep);
           s \<leftarrow> printf_text ''%4d-%02d-%02d %02d:%02d:%02d.%06u''
                  [P_int (tm_year p + 1900), P_int (tm_mon p + 1), P_int (tm_mday p), P_int (tm_hour p),
                   P_int (tm_min p), P_int (tm_sec p), P_uint (unat (ucast (getUSeconds timep) :: uint))];
           Some (s, l) })"

text \<open>The place where the macro stands, and the thread that comes by.\<close>

record log_place =
  lp_file :: string
  lp_func :: string
  lp_line :: nat
  lp_tid :: ulong

definition log_line :: "string \<Rightarrow> (slong \<Rightarrow> tm option) \<Rightarrow> os \<Rightarrow> log_place \<Rightarrow> string \<Rightarrow> printf_arg list \<Rightarrow> log
    \<Rightarrow> (string list \<times> log) option" where
  "log_line tag localtime os pl fmt args l =
     do { a \<leftarrow> printf_text tag [];
          (t, l) \<leftarrow> PrintTime localtime os l;
          b \<leftarrow> printf_text ''|%s@%s@%d|'' [P_str (basename (lp_file pl)), P_str (lp_func pl), P_int (int (lp_line pl))];
          c \<leftarrow> printf_text ''0x%lx|'' [P_ulong (unat (lp_tid pl))];
          d \<leftarrow> printf_text fmt args;
          e \<leftarrow> printf_text [CHR 0x0A] [];
          Some ([a, t, b, c, d, e], l) }"

definition MY_LOG_DEBUG :: "bool \<Rightarrow> (slong \<Rightarrow> tm option) \<Rightarrow> os \<Rightarrow> log_place \<Rightarrow> string \<Rightarrow> printf_arg list \<Rightarrow> log
    \<Rightarrow> (string list \<times> log) option" where
  "MY_LOG_DEBUG debug_mode localtime os pl fmt args l =
     (if debug_mode then log_line ''DEBUG|'' localtime os pl fmt args l else Some ([], l))"

definition MY_LOG_WARN :: "bool \<Rightarrow> (slong \<Rightarrow> tm option) \<Rightarrow> os \<Rightarrow> log_place \<Rightarrow> string \<Rightarrow> printf_arg list \<Rightarrow> log
    \<Rightarrow> (string list \<times> log) option" where
  "MY_LOG_WARN debug_mode localtime os pl fmt args l =
     (if debug_mode then log_line ''WARN|'' localtime os pl fmt args l else Some ([], l))"

definition MY_LOG_ERROR :: "(slong \<Rightarrow> tm option) \<Rightarrow> os \<Rightarrow> log_place \<Rightarrow> string \<Rightarrow> printf_arg list \<Rightarrow> log
    \<Rightarrow> (string list \<times> log) option" where
  "MY_LOG_ERROR localtime os pl fmt args l = log_line ''ERROR|'' localtime os pl fmt args l"

definition CB_FUNC_ENTRY :: "log_place \<Rightarrow> string list option" where
  "CB_FUNC_ENTRY pl =
     do { s \<leftarrow> printf_text (''%s entry @%d'' @ [CHR 0x0D, CHR 0x0A]) [P_str (lp_func pl), P_int (int (lp_line pl))];
          Some [s] }"

text \<open>Log.h, without \<open>SIMPLE_LOG\<close>. CBLog.h itself defines \<open>CB_DEBUG_MODE\<close>.\<close>

datatype cb_level = CB_LOG_DEBUG | CB_LOG_INFO | CB_LOG_WARN | CB_LOG_ERROR

definition CB_DEBUG_MODE :: bool where
  "CB_DEBUG_MODE = True"

definition cb_log :: "cb_level \<Rightarrow> (slong \<Rightarrow> tm option) \<Rightarrow> os \<Rightarrow> log_place \<Rightarrow> string \<Rightarrow> printf_arg list \<Rightarrow> log
    \<Rightarrow> (string list \<times> log) option" where
  "cb_log level localtime os pl fmt args l =
     (case level of
        CB_LOG_DEBUG \<Rightarrow> MY_LOG_DEBUG CB_DEBUG_MODE localtime os pl fmt args l
      | CB_LOG_INFO \<Rightarrow> MY_LOG_DEBUG CB_DEBUG_MODE localtime os pl fmt args l
      | CB_LOG_WARN \<Rightarrow> MY_LOG_WARN CB_DEBUG_MODE localtime os pl fmt args l
      | CB_LOG_ERROR \<Rightarrow> MY_LOG_ERROR localtime os pl fmt args l)"

section \<open>Texts of the pieces\<close>

fun level_name :: "cb_level \<Rightarrow> string" where
  "level_name CB_LOG_DEBUG = ''DEBUG''"
| "level_name CB_LOG_INFO = ''DEBUG''"
| "level_name CB_LOG_WARN = ''WARN''"
| "level_name CB_LOG_ERROR = ''ERROR''"

definition place_text :: "log_place \<Rightarrow> string" where
  "place_text pl = c_str (basename (lp_file pl)) @ CHR ''@'' # c_str (lp_func pl) @ CHR ''@'' # show_nat (lp_line pl)"

lemma tag_text:
  "printf_text ''DEBUG|'' [] = Some ''DEBUG|''" "printf_text ''WARN|'' [] = Some ''WARN|''"
  "printf_text ''ERROR|'' [] = Some ''ERROR|''"
  by simp_all

lemma cb_log_line: "cb_log level localtime os pl fmt args l = log_line (level_name level @ ''|'') localtime os pl fmt args l"
  by (cases level) (simp_all add: cb_log_def MY_LOG_DEBUG_def MY_LOG_WARN_def MY_LOG_ERROR_def CB_DEBUG_MODE_def)

lemma place_printed:
  "printf_text ''|%s@%s@%d|'' [P_str (basename (lp_file pl)), P_str (lp_func pl), P_int (int (lp_line pl))]
     = Some (CHR ''|'' # place_text pl @ ''|'')"
  "printf_text ''0x%lx|'' [P_ulong n] = Some (''0x'' @ show_hex n @ ''|'')"
  by (simp_all add: parse_directive_def Let_def convert_def pad_left_def place_text_def show_int_def)

definition time_text :: "tm \<Rightarrow> nat \<Rightarrow> string" where
  "time_text p usec = pad_left False 4 (show_int (tm_year p + 1900)) @ CHR ''-'' # pad_left True 2 (show_int (tm_mon p + 1))
     @ CHR ''-'' # pad_left True 2 (show_int (tm_mday p)) @ CHR '' '' # pad_left True 2 (show_int (tm_hour p))
     @ CHR '':'' # pad_left True 2 (show_int (tm_min p)) @ CHR '':'' # pad_left True 2 (show_int (tm_sec p))
     @ CHR ''.'' # pad_left True 6 (show_nat usec)"

lemma time_printed:
  "printf_text ''%4d-%02d-%02d %02d:%02d:%02d.%06u''
     [P_int (tm_year p + 1900), P_int (tm_mon p + 1), P_int (tm_mday p), P_int (tm_hour p),
      P_int (tm_min p), P_int (tm_sec p), P_uint n] = Some (time_text p n)"
  by (simp add: parse_directive_def Let_def convert_def time_text_def flip: numeral_2_eq_2)

section \<open>Reading a line back\<close>

lemma read_width_digits: "read_width a (show_nat n @ s) = read_width (a * 10 ^ length (show_nat n) + n) s"
proof (induction n arbitrary: a s rule: show_nat.induct)
  case (1 n)
  have d: "read_width a (digit_char k # s) = read_width (10 * a + k) s" if "k < 10" for a k s
    using that by (simp add: of_char_digit_char)
  show ?case
  proof (cases "n < 10")
    case True
    then show ?thesis by (simp add: show_nat.simps [of n] d [OF True] mult.commute del: read_width.simps)
  next
    case False
    then have n: "show_nat n = show_nat (n div 10) @ [digit_char (n mod 10)]" by (simp add: show_nat.simps [of n])
    have "10 * (a * 10 ^ length (show_nat (n div 10)) + n div 10) + n mod 10
        = a * 10 ^ length (show_nat n) + n"
      unfolding n by (simp add: algebra_simps)
    then show ?thesis using "1.IH" [OF False, of a] by (simp add: n d ac_simps del: read_width.simps)
  qed
qed

lemma read_padded: "read_width 0 (pad0 w (show_nat n)) = (n, [])"
proof -
  have z: "read_width 0 (replicate k (CHR ''0'') @ s) = read_width 0 s" for k s
    by (induction k) simp_all
  show ?thesis using read_width_digits [of 0 n "[]"] by (simp add: pad0_def z)
qed

lemma show_int_nat: "0 \<le> i \<Longrightarrow> show_int i = show_nat (nat i)"
  by (simp add: show_int_def)

lemma show_nat_hd: "hd (show_nat n) \<noteq> CHR ''-''" "hd (show_nat n) \<noteq> CHR '' ''"
  using show_nat_digits [OF hd_in_set [OF show_nat_nonempty], of n] by auto

lemma pad_zero: "pad_left True w (show_nat n) = pad0 w (show_nat n)"
  by (simp add: pad_left_def show_nat_hd show_nat_nonempty)

lemma pad_inj:
  "pad_left True w (show_nat m) = pad_left True w (show_nat n) \<longleftrightarrow> m = n"
  "pad_left False w (show_nat m) = pad_left False w (show_nat n) \<longleftrightarrow> m = n"
proof -
  show "pad_left True w (show_nat m) = pad_left True w (show_nat n) \<longleftrightarrow> m = n"
    unfolding pad_zero by (metis read_padded prod.inject)
  have drop: "dropWhile (\<lambda>c. c = CHR '' '') (pad_left False w (show_nat k)) = show_nat k" for k
  proof -
    have "dropWhile (\<lambda>c. c = CHR '' '') (replicate j (CHR '' '') @ s) = dropWhile (\<lambda>c. c = CHR '' '') s" for j s
      by (induction j) simp_all
    moreover have "dropWhile (\<lambda>c. c = CHR '' '') (show_nat k) = show_nat k"
      using show_nat_hd(2) [of k] by (cases "show_nat k") simp_all
    ultimately show ?thesis by (simp add: pad_left_def)
  qed
  show "pad_left False w (show_nat m) = pad_left False w (show_nat n) \<longleftrightarrow> m = n"
    by (metis drop show_nat_inj)
qed

lemma pad_length:
  "0 < w \<Longrightarrow> n < 10 ^ w \<Longrightarrow> length (pad_left z w (show_nat n)) = w"
  using pad0_length [of w n] show_nat_length [of n "w - 1"]
  by (cases z) (simp_all add: pad_zero, simp add: pad_left_def)

lemma time_text_nat:
  assumes "tm_ok p"
  shows "time_text p u = pad_left False 4 (show_nat (nat (tm_year p + 1900)))
     @ CHR ''-'' # pad_left True 2 (show_nat (nat (tm_mon p + 1)))
     @ CHR ''-'' # pad_left True 2 (show_nat (nat (tm_mday p))) @ CHR '' '' # pad_left True 2 (show_nat (nat (tm_hour p)))
     @ CHR '':'' # pad_left True 2 (show_nat (nat (tm_min p))) @ CHR '':'' # pad_left True 2 (show_nat (nat (tm_sec p)))
     @ CHR ''.'' # pad_left True 6 (show_nat u)"
  using assms by (simp add: time_text_def tm_ok_def show_int_nat)

lemma tm_lengths:
  assumes "tm_ok p"
  shows "length (pad_left False 4 (show_nat (nat (tm_year p + 1900)))) = 4"
    "length (pad_left True 2 (show_nat (nat (tm_mon p + 1)))) = 2"
    "length (pad_left True 2 (show_nat (nat (tm_mday p)))) = 2"
    "length (pad_left True 2 (show_nat (nat (tm_hour p)))) = 2"
    "length (pad_left True 2 (show_nat (nat (tm_min p)))) = 2"
    "length (pad_left True 2 (show_nat (nat (tm_sec p)))) = 2"
  using assms by (auto simp: tm_ok_def intro!: pad_length)

lemma time_text_length: "tm_ok p \<Longrightarrow> u < 1000000 \<Longrightarrow> length (time_text p u) = 26"
  by (simp add: time_text_nat tm_lengths pad_length)

lemma time_text_inj:
  assumes "tm_ok p" and "tm_ok q" and "time_text p u = time_text q v"
  shows "p = q \<and> u = v"
proof -
  have "tm_year p = tm_year q" "tm_mon p = tm_mon q" "tm_mday p = tm_mday q" "tm_hour p = tm_hour q"
    "tm_min p = tm_min q" "tm_sec p = tm_sec q" "u = v"
    using assms
    by (simp_all add: time_text_nat append_eq_append_conv tm_lengths pad_inj nat_eq_iff) (auto simp: tm_ok_def)
  then show ?thesis by simp
qed

lemma cut_at_sep: "d \<notin> set x \<Longrightarrow> cut_at d (Suc n) (x @ d # y) = x # cut_at d n y"
proof -
  assume "d \<notin> set x"
  then have "takeWhile (\<lambda>c. c \<noteq> d) (x @ d # y) = x \<and> dropWhile (\<lambda>c. c \<noteq> d) (x @ d # y) = d # y"
    by (induction x) auto
  then show ?thesis by simp
qed

lemma time_no_bar: "CHR ''|'' \<notin> set (time_text p u)"
proof -
  have n: "CHR ''|'' \<notin> set (show_nat k)" for k using show_nat_digits [of "CHR ''|''" k] by auto
  have i: "CHR ''|'' \<notin> set (show_int k)" for k using n by (simp add: show_int_def)
  have "CHR ''|'' \<notin> set (pad_left z w s)" if "CHR ''|'' \<notin> set s" for z w s
    using pad_left_set [of z w s] that by auto
  with n i show ?thesis by (simp add: time_text_def)
qed

lemma place_no_bar:
  assumes "CHR ''|'' \<notin> set (lp_file pl)" and "CHR ''|'' \<notin> set (lp_func pl)"
  shows "CHR ''|'' \<notin> set (place_text pl)"
proof -
  have "set (basename (lp_file pl)) \<subseteq> set (lp_file pl) \<union> {CHR ''.'', CHR ''/''}"
    by (auto simp: basename_def Let_def dest!: set_takeWhileD set_dropWhileD)
  then have "CHR ''|'' \<notin> set (c_str (basename (lp_file pl)))" using assms(1) by (auto dest: c_str_set)
  moreover have "CHR ''|'' \<notin> set (show_nat (lp_line pl))" using show_nat_digits [of "CHR ''|''"] by auto
  ultimately show ?thesis using assms(2) by (auto simp: place_text_def dest: c_str_set)
qed

lemma hex_no_bar: "CHR ''|'' \<notin> set (''0x'' @ show_hex n)"
proof -
  have "CHR ''|'' \<noteq> hex_char d" if "d < 16" for d
    using of_char_hex_char [OF that] that by (auto dest!: arg_cong [of _ _ "of_char :: char \<Rightarrow> nat"] split: if_splits)
  then show ?thesis using show_hex_digits [of "CHR ''|''" n] by auto
qed

text \<open>
  C40: a log line is its level, the local time to the microsecond in 26 characters, the place, the
  thread in hexadecimal and the message, separated by bars, and \<open>StringUtils::split\<close> gives these
  five fields back, whatever the message holds, if the names of the file and the function hold
  no bar. So the place comes before the thread: the comment of CBLog.h has the thread first. The
  field of the time determines the time: no two times print alike. The levels DEBUG and INFO
  print the same.
\<close>

theorem log_line_fields:
  assumes "cb_log level localtime os pl fmt args l = Some (ws, l')"
    and "now = ts_of_reply (os (length l) C_gettimeofday)"
    and "localtime (getSeconds now) = Some p" and "tm_ok p" and "unat (getUSeconds now) < 1000000"
    and "CHR ''|'' \<notin> set (lp_file pl)" and "CHR ''|'' \<notin> set (lp_func pl)"
  shows "\<exists>msg. printf_text fmt args = Some msg
    \<and> StringUtils_split_char v (concat ws) (CHR ''|'') 5 =
        ([level_name level, time_text p (unat (getUSeconds now)), place_text pl,
          ''0x'' @ show_hex (unat (lp_tid pl)), msg @ [CHR 0x0A]], 5)
    \<and> length (time_text p (unat (getUSeconds now))) = 26
    \<and> (\<forall>q u. tm_ok q \<and> time_text q u = time_text p (unat (getUSeconds now)) \<longrightarrow> q = p \<and> u = unat (getUSeconds now))
    \<and> cb_log CB_LOG_INFO localtime os pl fmt args l = cb_log CB_LOG_DEBUG localtime os pl fmt args l"
proof -
  let ?u = "unat (getUSeconds now)"
  have cast: "unat (ucast (getUSeconds now) :: uint) = ?u"
    using assms(5) by (simp add: unsigned_ucast_eq take_bit_nat_eq_self)
  have tag: "printf_text (level_name level @ ''|'') [] = Some (level_name level @ ''|'')"
    by (cases level) simp_all
  have time: "PrintTime localtime os l = Some (time_text p ?u, l @ [(C_gettimeofday, os (length l) C_gettimeofday)])"
    using assms(2,3) cast
    by (simp add: PrintTime_def syscall_def Let_def time_printed del: printf_text.simps)
  obtain msg where msg: "printf_text fmt args = Some msg"
    and ws: "ws = [level_name level @ ''|'', time_text p ?u, CHR ''|'' # place_text pl @ ''|'',
        ''0x'' @ show_hex (unat (lp_tid pl)) @ ''|'', msg, [CHR 0x0A]]"
    using assms(1) unfolding cb_log_line log_line_def tag time place_printed
    by (auto simp: bind_eq_Some_conv)
  let ?line = "level_name level @ CHR ''|'' # time_text p ?u @ CHR ''|'' # place_text pl @ CHR ''|''
    # (''0x'' @ show_hex (unat (lp_tid pl))) @ CHR ''|'' # msg @ [CHR 0x0A]"
  have line: "concat ws = ?line" by (simp add: ws)
  have name: "CHR ''|'' \<notin> set (level_name level)" by (cases level) simp_all
  have cut: "cut_at (CHR ''|'') (Suc (Suc (Suc (Suc 0)))) ?line =
      [level_name level, time_text p ?u, place_text pl, ''0x'' @ show_hex (unat (lp_tid pl)), msg @ [CHR 0x0A]]"
    by (simp only: cut_at_sep [OF name] cut_at_sep [OF time_no_bar] cut_at_sep [OF place_no_bar [OF assms(6,7)]]
        cut_at_sep [OF hex_no_bar] cut_at.simps(1))
  have "StringUtils_split_char v (concat ws) (CHR ''|'') 5 = (cut_at (CHR ''|'') (Suc (Suc (Suc (Suc 0)))) ?line, 5)"
  proof -
    have "unat (5 :: uint) - 1 = Suc (Suc (Suc (Suc 0)))" by simp
    then show ?thesis
      by (simp only: StringUtils_split_char_def split_to_cut_at line cut Let_def split_conv) simp
  qed
  moreover have "cb_log CB_LOG_INFO localtime os pl fmt args l = cb_log CB_LOG_DEBUG localtime os pl fmt args l"
    by (simp add: cb_log_def)
  ultimately show ?thesis
    using msg cut time_text_length [OF assms(4,5)] time_text_inj [OF _ assms(4)] by auto
qed

definition clock_os :: os where
  "clock_os n c = (ok_reply 0)\<lparr>nums := [1704164645, 7]\<rparr>"

definition some_tm :: tm where
  "some_tm = \<lparr>tm_year = 124, tm_mon = 0, tm_mday = 2, tm_hour = 3, tm_min = 4, tm_sec = 5\<rparr>"

lemma log_line_fields_witness:
  "\<exists>ws l. cb_log CB_LOG_WARN (\<lambda>s. Some some_tm) clock_os
       \<lparr>lp_file = ''src/Thread.cpp'', lp_func = ''run'', lp_line = 12, lp_tid = 255\<rparr>
       ''left|%d'' [P_int 3] [] = Some (ws, l)
     \<and> StringUtils_split_char [] (concat ws) (CHR ''|'') 5 =
       ([''WARN'', ''2024-01-02 03:04:05.000007'', ''Thread.cpp@run@12'', ''0xff'', ''left|3'' @ [CHR 0x0A]], 5)"
proof -
  let ?pl = "\<lparr>lp_file = ''src/Thread.cpp'', lp_func = ''run'', lp_line = 12, lp_tid = 255\<rparr>"
  let ?now = "TimeStamp 1704164645 7"
  have now: "?now = ts_of_reply (clock_os (length []) C_gettimeofday)"
    by (simp add: ts_of_reply_def clock_os_def ok_reply_def)
  have msg: "printf_text ''left|%d'' [P_int 3] = Some ''left|3''" by code_simp
  have time: "time_text some_tm 7 = ''2024-01-02 03:04:05.000007''" by code_simp
  have pl: "place_text ?pl = ''Thread.cpp@run@12''" "''0x'' @ show_hex 255 = ''0xff''" by code_simp+
  have "PrintTime (\<lambda>s. Some some_tm) clock_os [] =
      Some (time_text some_tm 7, [(C_gettimeofday, clock_os 0 C_gettimeofday)])"
    by (simp add: PrintTime_def syscall_def Let_def time_printed ts_of_reply_def clock_os_def ok_reply_def
        del: printf_text.simps)
  then obtain ws l where run: "cb_log CB_LOG_WARN (\<lambda>s. Some some_tm) clock_os ?pl ''left|%d'' [P_int 3] [] = Some (ws, l)"
    unfolding cb_log_line log_line_def place_printed msg by simp
  have side: "tm_ok some_tm" "unat (getUSeconds ?now) = 7" "CHR ''|'' \<notin> set (lp_file ?pl)" "CHR ''|'' \<notin> set (lp_func ?pl)"
    by (simp_all add: tm_ok_def some_tm_def)
  then have "unat (getUSeconds ?now) < 1000000" by simp
  from log_line_fields [OF run now refl side(1) this side(3,4), of "[]"] obtain m where
    "printf_text ''left|%d'' [P_int 3] = Some m"
    "StringUtils_split_char [] (concat ws) (CHR ''|'') 5 =
        ([level_name CB_LOG_WARN, time_text some_tm 7, place_text ?pl, ''0x'' @ show_hex 255, m @ [CHR 0x0A]], 5)"
    unfolding side(2) by auto
  then have "StringUtils_split_char [] (concat ws) (CHR ''|'') 5 =
      ([''WARN'', ''2024-01-02 03:04:05.000007'', ''Thread.cpp@run@12'', ''0xff'', ''left|3'' @ [CHR 0x0A]], 5)"
    unfolding msg time pl by simp
  with run show ?thesis by blast
qed

end
