(* ===== verification/LogCalls.thy ===== *)
theory LogCalls
  imports CBLog
begin

text \<open>
  All log statements of Thread.cpp, ThreadCond.cpp, ThreadRWMutex.cpp, TVector.h, TQueue.h, TMapString.h,
  SessionMgt.cpp, ConnMgtLB.h, ConnMgtLB.cpp, TcpClientEpoll.cpp and SimpleTcpBase.cpp: level, format,
  and the C++ types of the arguments (a shorter one is promoted in the call). \<open>pthread_t\<close> is an
  unsigned long; an enumeration is an int. Not here: Base64.cpp (it has a \<open>%c\<close>), Cryptopp.cpp (its
  arguments are those of the library), and SocketUtils.cpp, whose \<open>CB_LOG_ERROR\<close> is \<open>printf\<close>.
\<close>

section \<open>Statements\<close>

type_synonym log_call = "cb_level \<times> string \<times> c_type list"

abbreviation eol :: string where
  "eol \<equiv> [CHR 0x0A]"

text \<open>\<open>thread_proc\<close> passes the result of \<open>syscall(SYS_gettid)\<close>, a long.\<close>

definition thread_proc_logs :: "log_call list" where
  "thread_proc_logs =
    [(CB_LOG_DEBUG, ''--- thread create success tid:0x%lx, pid:%d, name:%s'', [T_ulong, T_long, T_str]),
     (CB_LOG_ERROR, ''prepare thread falied, ret:%d, thread(tid:0x%lx pid:%d name:%s) exit'',
        [T_int, T_ulong, T_long, T_str]),
     (CB_LOG_ERROR, ''thread(tid:0x%lx pid:%d name:%s) svr failed, ret:%d'', [T_ulong, T_long, T_str, T_int]),
     (CB_LOG_DEBUG, ''thread(tid:0x%lx pid:%d name:%s) is stop.'', [T_ulong, T_long, T_str])]"

definition Thread_init_logs :: "log_call list" where
  "Thread_init_logs =
    [(CB_LOG_WARN, ''the thread is init ago.'', []),
     (CB_LOG_ERROR, ''pthread_attr_init failed. ret:%d, errno:%d, errmsg:%s'', [T_int, T_int, T_str]),
     (CB_LOG_ERROR, ''pthread_attr_setstacksize failed. ret:%d, errno:%d, errmsg:%s'', [T_int, T_int, T_str]),
     (CB_LOG_ERROR, ''do_init failed. ret:%d'', [T_int])]"

definition Thread_run_logs :: "log_call list" where
  "Thread_run_logs =
    [(CB_LOG_ERROR, ''the status of thread is invalid. status:%d'', [T_int]),
     (CB_LOG_ERROR, ''pthread_create failed. ret:%d, errno:%d, errmsg:%s'', [T_int, T_int, T_str])]"

definition Thread_join_logs :: "log_call list" where
  "Thread_join_logs =
    [(CB_LOG_ERROR, ''pthread_join(thr:%u) failed. ret:%d, errno:%d, errmsg:%s'', [T_uint, T_int, T_int, T_str])]"

definition Thread_detach_logs :: "log_call list" where
  "Thread_detach_logs =
    [(CB_LOG_ERROR, ''pthread_detach(thr:0x%lx) failed. ret:%d, errno:%d, errmsg:%s'', [T_ulong, T_int, T_int, T_str])]"

definition ThreadCond_init_logs :: "log_call list" where
  "ThreadCond_init_logs =
    [(CB_LOG_ERROR, ''pthread_cond_init failed. ret:%d, errno:%d, errmsg:%s'' @ eol, [T_int, T_int, T_str])]"

definition ThreadCond_delete_logs :: "log_call list" where
  "ThreadCond_delete_logs =
    [(CB_LOG_WARN, ''the ThreadCond is waited now, can'' @ [CHR 0x27] @ ''t destroy, thread:0x%lx.'' @ eol, [T_ulong]),
     (CB_LOG_ERROR, ''pthread_cond_destroy failed. ret:%d, errno:%d, errmsg:%s, thread:0x%lx'' @ eol,
        [T_int, T_int, T_str, T_ulong])]"

definition ThreadCond_wait_logs :: "log_call list" where
  "ThreadCond_wait_logs =
    [(CB_LOG_ERROR, ''pthread_cond_wait failed. ret:%d, errno:%d, errmsg:%s, thread:0x%lx'' @ eol,
        [T_int, T_int, T_str, T_ulong])]"

definition ThreadCond_TimeWait_logs :: "log_call list" where
  "ThreadCond_TimeWait_logs =
    [(CB_LOG_ERROR, ''clock_gettime failed. errno:%d, errmsg:%s'' @ eol, [T_int, T_str])]"

definition ThreadCond_signal_logs :: "log_call list" where
  "ThreadCond_signal_logs =
    [(CB_LOG_ERROR, ''pthread_cond_signal failed. ret:%d, errno:%d, errmsg:%s, thread:0x%lx'' @ eol,
        [T_int, T_int, T_str, T_ulong])]"

definition ThreadCond_broadcast_logs :: "log_call list" where
  "ThreadCond_broadcast_logs =
    [(CB_LOG_ERROR, ''pthread_cond_broadcast failed. ret:%d, errno:%d, errmsg:%s, thread:0x%lx'' @ eol,
        [T_int, T_int, T_str, T_ulong])]"

definition RW_init_logs :: "log_call list" where
  "RW_init_logs =
    [(CB_LOG_ERROR, ''pthread_rwlock_init failed. ret:%d, errno:%d, errmsg:%s'' @ eol, [T_int, T_int, T_str])]"

definition RW_unlock_logs :: "log_call list" where
  "RW_unlock_logs =
    [(CB_LOG_ERROR, ''pthread_rwlock_unlock failed. ret:%d, errno:%d, errmsg:%s'' @ eol, [T_int, T_int, T_str])]"

definition RW_lock_read_logs :: "log_call list" where
  "RW_lock_read_logs =
    [(CB_LOG_ERROR, ''pthread_rwlock_rdlock failed. ret:%d, errno:%d, errmsg:%s'' @ eol, [T_int, T_int, T_str])]"

definition RW_lock_write_logs :: "log_call list" where
  "RW_lock_write_logs =
    [(CB_LOG_ERROR, ''pthread_rwlock_wrlock failed. ret:%d, errno:%d, errmsg:%s'' @ eol, [T_int, T_int, T_str])]"

definition RW_destroy_logs :: "log_call list" where
  "RW_destroy_logs =
    [(CB_LOG_DEBUG, ''pthread_rwlock_destroy success.'' @ eol, []),
     (CB_LOG_WARN, ''the pthread rw mutex is locked now, can'' @ [CHR 0x27] @ ''t destroy.'' @ eol, []),
     (CB_LOG_ERROR, ''pthread_rwlock_destroy failed. ret:%d, errno:%d, errmsg:%s'' @ eol, [T_int, T_int, T_str])]"

definition TVector_push_logs :: "log_call list" where
  "TVector_push_logs = [(CB_LOG_WARN, ''reach max queue size.'', [])]"

definition TQueue_push_logs :: "log_call list" where
  "TQueue_push_logs = [(CB_LOG_WARN, ''reach max queue size.'' @ eol, [])]"

definition TMapString_pop_logs :: "log_call list" where
  "TMapString_pop_logs = [(CB_LOG_ERROR, ''cond wait failed.'' @ eol, [])]"

definition TMapString_pop_front_logs :: "log_call list" where
  "TMapString_pop_front_logs = [(CB_LOG_ERROR, ''cond wait failed.'' @ eol, [])]"

text \<open>\<open>pop\<close> of both queues logs the element, of whatever type the queue is, with a \<open>%d\<close>.\<close>

definition TVector_pop_logs :: "c_type \<Rightarrow> log_call list" where
  "TVector_pop_logs t =
    [(CB_LOG_DEBUG, ''thread %lx at %ld:%ld consume %d'' @ eol, [T_ulong, T_long, T_long, t])]"

definition TQueue_pop_logs :: "c_type \<Rightarrow> log_call list" where
  "TQueue_pop_logs t =
    [(CB_LOG_DEBUG, ''thread %lx at %ld:%ld consume %d'' @ eol, [T_ulong, T_long, T_long, t])]"

definition TQueue_pop_timed_logs :: "c_type \<Rightarrow> log_call list" where
  "TQueue_pop_timed_logs t =
    [(CB_LOG_DEBUG, ''thread %lx at %ld:%ld consume %d'' @ eol, [T_ulong, T_long, T_long, t])]"

definition InitSessionTimer_logs :: "log_call list" where
  "InitSessionTimer_logs =
    [(CB_LOG_ERROR, ''register session timer handler falied, ret:%d'', [T_int]),
     (CB_LOG_ERROR, ''session timer init failed, ret:%d'', [T_int]),
     (CB_LOG_ERROR, ''session timer run failed, ret:%d'', [T_int])]"

definition remove_session_logs :: "log_call list" where
  "remove_session_logs = [(CB_LOG_INFO, ''remove session(id:%s, fd:%d)'', [T_str, T_int])]"

definition update_status_logs :: "log_call list" where
  "update_status_logs =
    [(CB_LOG_INFO, ''fd(%d) isn'' @ [CHR 0x27] @ ''t found in _sessions.'', [T_int])]"

definition set_client_id_logs :: "log_call list" where
  "set_client_id_logs = [(CB_LOG_INFO, ''session(%s) isn'' @ [CHR 0x27] @ ''t exist.'', [T_str])]"

definition get_client_id_logs :: "log_call list" where
  "get_client_id_logs = [(CB_LOG_INFO, ''session(%s) isn'' @ [CHR 0x27] @ ''t exist.'', [T_str])]"

definition check_logs :: "log_call list" where
  "check_logs =
    [(CB_LOG_INFO, ''close to app(fd:%d), %s:%u --> %s:%u'', [T_int, T_str, T_ushort, T_str, T_ushort]),
     (CB_LOG_INFO,
        ''===timeout: the session is timeout, prepare to close it, access_time:%llu, cur_stmp:%llu'',
        [T_ullong, T_ullong])]"

definition ConnMgtLB_init_logs :: "log_call list" where
  "ConnMgtLB_init_logs =
    [(CB_LOG_ERROR, ''register conn mgt lb timer handler falied, ret:%d'' @ eol, [T_int]),
     (CB_LOG_ERROR, ''int conn mgt lb timer failed, ret:%d'' @ eol, [T_int]),
     (CB_LOG_ERROR, ''conn mgt lb timer run failed, ret:%d'' @ eol, [T_int]),
     (CB_LOG_DEBUG, ''=== complete to start conn mgt lb timer ==='' @ eol, [])]"

definition refresh_logs :: "log_call list" where
  "refresh_logs =
    [(CB_LOG_ERROR, ''**** release useless conn(%s) ****'' @ eol, [T_str]),
     (CB_LOG_ERROR, ''**** add new conn(%s) ****'' @ eol, [T_str])]"

definition get_conn_logs :: "log_call list" where
  "get_conn_logs =
    [(CB_LOG_ERROR, ''conn is empty.'', []),
     (CB_LOG_ERROR, ''the conn (%s:%u) is closed, index:%u, total:%lu'', [T_str, T_ushort, T_uint, T_ulong]),
     (CB_LOG_ERROR, ''no conn is found.'', [])]"

definition client_connect_logs :: "log_call list" where
  "client_connect_logs =
    [(CB_LOG_WARN, ''the tcp client is open before!'' @ eol, []),
     (CB_LOG_ERROR, ''socket(fd:%d) failed, errno:%d, errmsg:%s'' @ eol, [T_int, T_int, T_str]),
     (CB_LOG_ERROR, ''init tcp client failed, ret:%d'' @ eol, [T_int]),
     (CB_LOG_ERROR, ''run tcp client failed, ret:%d'' @ eol, [T_int])]"

definition client_send_logs :: "log_call list" where
  "client_send_logs = [(CB_LOG_WARN, ''the tcp client is open ago!'' @ eol, [])]"

definition client_rcv_logs :: "log_call list" where
  "client_rcv_logs =
    [(CB_LOG_WARN, ''the tcp client is open ago!'' @ eol, []),
     (CB_LOG_ERROR, ''the socket is asyn mode. it is useless.'' @ eol, [])]"

definition client_close_logs :: "log_call list" where
  "client_close_logs = [(CB_LOG_DEBUG, ''close tcp client(%s:%u)!'' @ eol, [T_str, T_ushort])]"

definition client_input_logs :: "log_call list" where
  "client_input_logs =
    [(CB_LOG_DEBUG, ''handle_input failed! prepare to close(fd:%d), %s:%u --> %s:%u'' @ eol,
        [T_int, T_str, T_ushort, T_str, T_ushort]),
     (CB_LOG_ERROR, ''other events is arrived.'' @ eol, []),
     (CB_LOG_ERROR, ''epoll_wait is interrupt, errno:%d, errmsg:%s'' @ eol, [T_int, T_str]),
     (CB_LOG_ERROR, ''epoll_wait failed, errno:%d, errmsg:%s'' @ eol, [T_int, T_str])]"

definition client_do_init_logs :: "log_call list" where
  "client_do_init_logs =
    [(CB_LOG_ERROR, ''get_rlimit failed, ret:%d'' @ eol, [T_int]),
     (CB_LOG_ERROR, ''epoller_create failed, ret:%d'' @ eol, [T_int]),
     (CB_LOG_ERROR, ''epoller_create failed, ret:%d'' @ eol, [T_int]),
     (CB_LOG_ERROR, ''it isn'' @ [CHR 0x27] @ ''t asyn tcp client.'' @ eol, []),
     (CB_LOG_ERROR, ''signal_mask failed. ret:%d, errno:%d, errmsg:%s'' @ eol, [T_int, T_int, T_str])]"

definition client_epoller_create_logs :: "log_call list" where
  "client_epoller_create_logs =
    [(CB_LOG_ERROR, ''epoll_create failed, errno:%d, errmsg:%s'' @ eol, [T_int, T_str])]"

definition client_epoller_ctl_logs :: "log_call list" where
  "client_epoller_ctl_logs =
    [(CB_LOG_ERROR, ''epoll_ctl failed, fd:%d, errno:%d, errmsg:%s'' @ eol, [T_int, T_int, T_str])]"

definition InitTcpClient_logs :: "log_call list" where
  "InitTcpClient_logs =
    [(CB_LOG_ERROR, ''create sock fail .'' @ eol, []), (CB_LOG_ERROR, ''setsockopt fail .'' @ eol, [])]"

definition InitTcpServer_logs :: "log_call list" where
  "InitTcpServer_logs =
    [(CB_LOG_ERROR, ''create sock fail .'' @ eol, []), (CB_LOG_ERROR, ''setsockopt fail .'' @ eol, []),
     (CB_LOG_ERROR, '' bind sock fail .'' @ eol, []), (CB_LOG_DEBUG, ''listenfd:%d'', [T_int])]"

definition Accept_logs :: "log_call list" where
  "Accept_logs =
    [(CB_LOG_ERROR, ''Accept fail. sockfd <0'' @ eol, []),
     (CB_LOG_ERROR, ''tcp accept fail.sockfd:%d, client_sock:%d, error:%s'' @ eol, [T_int, T_int, T_str])]"

definition Connect_logs :: "log_call list" where
  "Connect_logs = [(CB_LOG_ERROR, ''connect sock error=%d.'' @ eol, [T_int])]"

definition ReadData_logs :: "log_call list" where
  "ReadData_logs = [(CB_LOG_ERROR, ''ReadData fail. sockfd <0'' @ eol, [])]"

definition ReadData_fd_logs :: "log_call list" where
  "ReadData_fd_logs = [(CB_LOG_ERROR, ''ReadData fail. fd <0'' @ eol, [])]"

definition WriteData_logs :: "log_call list" where
  "WriteData_logs =
    [(CB_LOG_ERROR, ''WriteData fail. sockfd <0'' @ eol, []), (CB_LOG_ERROR, ''WriteData fail. buf==NULL'' @ eol, []),
     (CB_LOG_ERROR, ''send data  to net error.'' @ eol, [])]"

definition WriteData_fd_logs :: "log_call list" where
  "WriteData_fd_logs =
    [(CB_LOG_ERROR, ''WriteData fail. fd <0'' @ eol, []), (CB_LOG_ERROR, ''WriteData fail. buf==NULL'' @ eol, []),
     (CB_LOG_ERROR, ''send data  to net error.'' @ eol, [])]"

text \<open>All of them, for queues of elements of type \<open>t\<close>, but for those of \<open>thread_proc\<close>.\<close>

definition thread_logs :: "log_call list" where
  "thread_logs = Thread_init_logs @ Thread_run_logs @ Thread_join_logs @ Thread_detach_logs
     @ ThreadCond_init_logs @ ThreadCond_delete_logs @ ThreadCond_wait_logs @ ThreadCond_TimeWait_logs
     @ ThreadCond_signal_logs @ ThreadCond_broadcast_logs
     @ RW_init_logs @ RW_unlock_logs @ RW_lock_read_logs @ RW_lock_write_logs @ RW_destroy_logs"

definition queue_logs :: "c_type \<Rightarrow> log_call list" where
  "queue_logs t = TVector_pop_logs t @ TQueue_pop_logs t @ TQueue_pop_timed_logs t"

definition container_logs :: "log_call list" where
  "container_logs = TVector_push_logs @ TQueue_push_logs @ TMapString_pop_logs @ TMapString_pop_front_logs
     @ InitSessionTimer_logs @ remove_session_logs @ update_status_logs @ set_client_id_logs @ get_client_id_logs
     @ check_logs"

definition client_logs :: "log_call list" where
  "client_logs = ConnMgtLB_init_logs @ refresh_logs @ get_conn_logs @ client_connect_logs @ client_send_logs
     @ client_rcv_logs @ client_close_logs @ client_input_logs @ client_do_init_logs
     @ client_epoller_create_logs @ client_epoller_ctl_logs"

definition simple_tcp_logs :: "log_call list" where
  "simple_tcp_logs = InitTcpClient_logs @ InitTcpServer_logs @ Accept_logs @ Connect_logs
     @ ReadData_logs @ ReadData_fd_logs @ WriteData_logs @ WriteData_fd_logs"

definition other_logs :: "c_type \<Rightarrow> log_call list" where
  "other_logs t = thread_logs @ queue_logs t @ container_logs @ client_logs @ simple_tcp_logs"

section \<open>Their types\<close>

definition call_typed :: "log_call \<Rightarrow> bool" where
  "call_typed c = (case c of (level, fmt, tys) \<Rightarrow> well_typed fmt tys)"

text \<open>A long where a \<open>%d\<close> expects an int: no value of it is printed.\<close>

definition long_as_int :: "log_call \<Rightarrow> bool" where
  "long_as_int c = (case c of (level, fmt, tys) \<Rightarrow>
     (case directives fmt of
        None \<Rightarrow> False
      | Some ds \<Rightarrow> length ds \<le> length tys \<and> list_ex (\<lambda>(d, t). d = (0, CHR ''d'') \<and> t = T_long) (zip ds tys)))"

lemma long_as_int_stuck:
  assumes "long_as_int (level, fmt, tys)" and "list_all2 has_type args tys"
  shows "printf_text fmt args = None"
proof (rule ccontr)
  assume "printf_text fmt args \<noteq> None"
  then obtain ds where d: "directives fmt = Some ds" "length ds \<le> length args"
      "list_all2 printable ds (take (length ds) args)"
    unfolding printf_defined by blast
  with assms(1) obtain i where i: "i < length ds" "i < length tys" "ds ! i = (0, CHR ''d'')" "tys ! i = T_long"
    by (auto simp: long_as_int_def list_ex_iff in_set_zip)
  have "has_type (args ! i) (tys ! i)" using assms(2) i(2) by (simp add: list_all2_conv_all_nth)
  moreover have "printable (ds ! i) (args ! i)" using d(2,3) i(1) by (simp add: list_all2_conv_all_nth)
  ultimately have "has_type (args ! i) T_long" "printable (0, CHR ''d'') (args ! i)"
    unfolding i(3,4) by simp_all
  then show False by (cases "args ! i") (auto simp: printable_def convert_def)
qed

lemma thread_proc_ill_typed: "list_all long_as_int thread_proc_logs"
  by code_simp

lemma logs_typed_but_queues:
  "list_all call_typed thread_logs" "list_all call_typed container_logs"
  "list_all call_typed client_logs" "list_all call_typed simple_tcp_logs"
  by code_simp+

lemma pop_directives:
  "directives (''thread %lx at %ld:%ld consume %d'' @ eol)
     = Some [(1, CHR ''x''), (1, CHR ''d''), (1, CHR ''d''), (0, CHR ''d'')]"
  by code_simp

lemma pop_well_typed:
  "well_typed (''thread %lx at %ld:%ld consume %d'' @ eol) [T_ulong, T_long, T_long, t] \<longleftrightarrow> t = T_int \<or> t = T_ushort"
  unfolding well_typed_def pop_directives by auto

lemma pop_typed:
  "list_all call_typed (queue_logs t) \<longleftrightarrow> t = T_int \<or> t = T_ushort"
  unfolding queue_logs_def TVector_pop_logs_def TQueue_pop_logs_def TQueue_pop_timed_logs_def list_all_append list.pred_inject
    call_typed_def prod.case pop_well_typed by simp

lemma cb_log_defined:
  "cb_log level localtime os pl fmt args l \<noteq> None \<longleftrightarrow>
     localtime (getSeconds (ts_of_reply (os (length l) C_gettimeofday))) \<noteq> None \<and> printf_text fmt args \<noteq> None"
proof -
  have tag: "printf_text (level_name level @ ''|'') [] = Some (level_name level @ ''|'')"
    by (cases level) simp_all
  have eol: "printf_text eol [] = Some eol" by simp
  show ?thesis
    unfolding cb_log_line log_line_def tag place_printed eol
    by (auto simp: PrintTime_def syscall_def Let_def time_printed bind_eq_Some_conv simp del: printf_text.simps)
qed

section \<open>Properties\<close>

text \<open>
  C39: a log statement is safe exactly if its format fits the types of its arguments: it then prints a
  line for all values of these types, and otherwise there are values for which it is undefined. Of the
  statements of the files named at the head of this theory, those of \<open>thread_proc\<close> do not fit, not
  one of them and not with any values: each thread begins with one. Those of the three \<open>pop\<close>s of the queues
  fit only if the elements are passed as an \<open>int\<close>: an \<open>int\<close> or an \<open>unsigned short\<close>, which is
  promoted to one. All others fit.
\<close>

theorem log_statements_typed:
  assumes "\<forall>s. localtime s \<noteq> None"
  shows "(well_typed fmt tys \<longleftrightarrow>
      (\<forall>args. list_all2 has_type args tys \<longrightarrow> cb_log level localtime os pl fmt args l \<noteq> None))
    \<and> (\<forall>(level, fmt, tys) \<in> set thread_proc_logs.
        \<forall>args. list_all2 has_type args tys \<longrightarrow> cb_log level localtime os pl fmt args l = None)
    \<and> ((\<forall>(level, fmt, tys) \<in> set (other_logs t).
          \<forall>args. list_all2 has_type args tys \<longrightarrow> cb_log level localtime os pl fmt args l \<noteq> None)
        \<longleftrightarrow> t = T_int \<or> t = T_ushort)"
proof -
  have def: "cb_log level localtime os pl fmt args l = None \<longleftrightarrow> printf_text fmt args = None" for level fmt args
    using cb_log_defined [of level localtime os pl fmt args l] assms by auto
  have exact: "well_typed fmt tys \<longleftrightarrow>
      (\<forall>args. list_all2 has_type args tys \<longrightarrow> cb_log level localtime os pl fmt args l \<noteq> None)" for level fmt tys
    unfolding def using well_typed_prints ill_typed_stuck by blast
  have never: "\<forall>(level, fmt, tys) \<in> set thread_proc_logs.
        \<forall>args. list_all2 has_type args tys \<longrightarrow> cb_log level localtime os pl fmt args l = None"
    unfolding def using thread_proc_ill_typed long_as_int_stuck by (fastforce simp: list_all_iff)
  have each: "(case c of (level, fmt, tys) \<Rightarrow> \<forall>args. list_all2 has_type args tys \<longrightarrow>
      cb_log level localtime os pl fmt args l \<noteq> None) \<longleftrightarrow> call_typed c" for c :: log_call
  proof (cases c)
    case (fields level fmt tys)
    then show ?thesis using exact [of fmt tys level] by (simp only: call_typed_def prod.case)
  qed
  have "(\<forall>(level, fmt, tys) \<in> set (other_logs t).
          \<forall>args. list_all2 has_type args tys \<longrightarrow> cb_log level localtime os pl fmt args l \<noteq> None)
      \<longleftrightarrow> list_all call_typed (other_logs t)"
    unfolding list_all_iff each ..
  also have "\<dots> \<longleftrightarrow> t = T_int \<or> t = T_ushort"
    using logs_typed_but_queues pop_typed [of t] by (simp add: other_logs_def)
  finally show ?thesis using exact never by blast
qed

definition a_place :: log_place where
  "a_place = \<lparr>lp_file = ''src/Thread.cpp'', lp_func = ''thread_proc'', lp_line = 19, lp_tid = 140\<rparr>"

text \<open>The statement of a thread that starts, with its name.\<close>

lemma log_statements_typed_witness:
  "cb_log CB_LOG_DEBUG (\<lambda>s. Some some_tm) clock_os a_place ''--- thread create success tid:0x%lx, pid:%d, name:%s''
      [P_ulong 140, P_long 7, P_str ''worker''] [] = None
   \<and> cb_log CB_LOG_INFO (\<lambda>s. Some some_tm) clock_os a_place ''remove session(id:%s, fd:%d)'' [P_str ''a'', P_int 3] [] \<noteq> None"
proof -
  have tm: "\<forall>s. Some some_tm \<noteq> None" by simp
  have args: "list_all2 has_type [P_ulong 140, P_long 7, P_str ''worker''] [T_ulong, T_long, T_str]"
    "list_all2 has_type [P_str ''a'', P_int 3] [T_str, T_int]" by simp_all
  have mem: "(CB_LOG_DEBUG, ''--- thread create success tid:0x%lx, pid:%d, name:%s'', [T_ulong, T_long, T_str])
      \<in> set thread_proc_logs" unfolding thread_proc_logs_def by (rule list.set_intros(1))
  note w = log_statements_typed [OF tm, where os = clock_os and pl = a_place and l = "[]" and t = T_int]
  from bspec [OF conjunct1 [OF conjunct2 [OF w]] mem, unfolded prod.case, THEN spec, THEN mp, OF args(1)] have
    "cb_log CB_LOG_DEBUG (\<lambda>s. Some some_tm) clock_os a_place ''--- thread create success tid:0x%lx, pid:%d, name:%s''
      [P_ulong 140, P_long 7, P_str ''worker''] [] = None" .
  moreover have "(CB_LOG_INFO, ''remove session(id:%s, fd:%d)'', [T_str, T_int]) \<in> set remove_session_logs"
    unfolding remove_session_logs_def by (rule list.set_intros(1))
  then have mem: "(CB_LOG_INFO, ''remove session(id:%s, fd:%d)'', [T_str, T_int]) \<in> set (other_logs T_int)"
    unfolding other_logs_def container_logs_def set_append by blast
  from bspec [OF iffD2 [OF conjunct2 [OF conjunct2 [OF w]] disjI1 [OF refl]] mem, unfolded prod.case,
      THEN spec, THEN mp, OF args(2)] have
    "cb_log CB_LOG_INFO (\<lambda>s. Some some_tm) clock_os a_place ''remove session(id:%s, fd:%d)'' [P_str ''a'', P_int 3] [] \<noteq> None" .
  ultimately show ?thesis by (rule conjI)
qed

end
