(* ===== verification/XMLParser.thy ===== *)
theory XMLParser
  imports StringUtils Std_Map
begin

text \<open>
  src/XMLParser.h and src/XMLParser.cpp: looking up elements of an XML document by a path. The
  document is TinyXML's: what the code asks it is the tree of elements with their names, texts,
  attributes and child elements, and the loading of a file or a string is a parameter that
  gives success and the root element of the document after it.
\<close>

section \<open>State and operations\<close>

datatype xml_element =
  Element (elem_value: string) (elem_text: "string option") (elem_attrs: "(string \<times> string) list")
    (elem_children: "xml_element list")

record xml_node =
  m_text :: string
  m_mapAttr :: "(string, string) std_map"

record xml_parser =
  root_element :: "xml_element option"

definition XMLNode_get_text :: "xml_node \<Rightarrow> string" where
  "XMLNode_get_text node = m_text node"

definition XMLNode_get_attr_str :: "xml_node \<Rightarrow> string \<Rightarrow> string" where
  "XMLNode_get_attr_str node key = (case map_find (m_mapAttr node) key of Some v \<Rightarrow> v | None \<Rightarrow> '''')"

definition XMLNode_to_string :: "xml_node \<Rightarrow> string" where
  "XMLNode_to_string node =
     (let str = (if m_text node \<noteq> '''' then ''Text = '' @ m_text node @ [CHR 0x0A] else '''') in
      if m_mapAttr node \<noteq> [] then
        str @ ''Attr = '' @ concat (map (\<lambda>(k, v). k @ '':'' @ v @ '' '') (m_mapAttr node)) @ [CHR 0x0A]
      else str)"

definition parse_file :: "(string \<Rightarrow> bool \<times> xml_element option) \<Rightarrow> string \<Rightarrow> xml_parser \<Rightarrow> int \<times> xml_parser" where
  "parse_file LoadFile xmlFile P =
     (if xmlFile = '''' then (- 1, P)
      else
        (let (ok, root) = LoadFile (c_str xmlFile); P = P\<lparr>root_element := root\<rparr> in
         if \<not> ok then (- 2, P) else (0, P)))"

definition parse_str :: "(string \<Rightarrow> bool \<times> xml_element option) \<Rightarrow> string \<Rightarrow> xml_parser \<Rightarrow> int \<times> xml_parser" where
  "parse_str Parse xmlStr P =
     (if xmlStr = '''' then (- 1, P)
      else
        (let (ok, root) = Parse (c_str xmlStr); P = P\<lparr>root_element := root\<rparr> in
         if \<not> ok then (- 2, P) else (0, P)))"

fun insert_attrs :: "(string \<times> string) list \<Rightarrow> (string, string) std_map \<Rightarrow> (string, string) std_map" where
  "insert_attrs [] m = m"
| "insert_attrs ((k, v) # attrs) m = insert_attrs attrs (map_insert m k v)"

definition create_node :: "xml_element \<Rightarrow> xml_node list \<Rightarrow> xml_node list" where
  "create_node e vecNode =
     vecNode @ [\<lparr>m_text = (case elem_text e of Some t \<Rightarrow> t | None \<Rightarrow> ''''),
                 m_mapAttr = insert_attrs (elem_attrs e) []\<rparr>]"

text \<open>
  The recursive \<open>get_node\<close> and its loop over the child elements; the loop's third result says
  that it returned from the function, which it does at the first child that matches an
  intermediate key.
\<close>

fun get_node_rec :: "xml_element \<Rightarrow> string list \<Rightarrow> xml_node list \<Rightarrow> int \<times> xml_node list"
  and child_loop :: "xml_element list \<Rightarrow> string list \<Rightarrow> xml_node list \<Rightarrow> int \<times> xml_node list \<times> bool" where
  "get_node_rec (Element nm text attrs children) lstKey vecNode =
     (case lstKey of
        [] \<Rightarrow> (- 2, vecNode)
      | key # keys \<Rightarrow>
          if nm \<noteq> key then (- 3, vecNode)
          else
            (let (nRet, vecNode, returned) =
                   (if keys = [] then (0, create_node (Element nm text attrs children) vecNode, False)
                    else child_loop children keys vecNode) in
             if returned then (nRet, vecNode)
             else if vecNode = [] then (- 4, vecNode)
             else (nRet, vecNode)))"
| "child_loop [] keys vecNode = (0, vecNode, False)"
| "child_loop (child # children) keys vecNode =
     (if elem_value child = hd keys then
        (if length keys = 1 then child_loop children keys (create_node child vecNode)
         else (let (nRet, vecNode) = get_node_rec child keys vecNode in (nRet, vecNode, True)))
      else child_loop children keys vecNode)"

definition get_node_element :: "xml_element option \<Rightarrow> string list \<Rightarrow> xml_node list \<Rightarrow> int \<times> xml_node list" where
  "get_node_element father_element lstKey vecNode =
     (case father_element of None \<Rightarrow> (- 1, vecNode) | Some e \<Rightarrow> get_node_rec e lstKey vecNode)"

text \<open>The separators are a slash and a backslash; \<open>vecNode\<close> is cleared by \<open>get_nodes\<close> only with a key.\<close>

definition path_separators :: string where
  "path_separators = [CHR 0x2F, CHR 0x5C]"

definition get_nodes :: "xml_parser \<Rightarrow> string \<Rightarrow> xml_node list \<Rightarrow> int \<times> xml_node list" where
  "get_nodes P key vecNode =
     (if key = [] then (- 1, vecNode)
      else
        (let lstKey = StringUtils_split_list key path_separators [] (- 1)
         in get_node_element (root_element P) lstKey []))"

definition get_node :: "xml_parser \<Rightarrow> string \<Rightarrow> xml_node \<Rightarrow> int \<times> xml_node" where
  "get_node P key node =
     (if key = [] then (- 1, node)
      else
        (let lstKey = StringUtils_split_list key path_separators [] (- 1);
             (nRet, vecNode) = get_node_element (root_element P) lstKey []
         in (nRet, if vecNode \<noteq> [] then vecNode ! 0 else node)))"

section \<open>The elements of a path\<close>

text \<open>
  Reference: the path goes from the root through the first child of each intermediate name; its
  elements are the children of the last of these that have the last name.
\<close>

fun path_elements :: "xml_element \<Rightarrow> string list \<Rightarrow> xml_element list" where
  "path_elements e [] = []"
| "path_elements e [k] = (if elem_value e = k then [e] else [])"
| "path_elements e (k # k2 # ks) =
     (if elem_value e \<noteq> k then []
      else if ks = [] then filter (\<lambda>c. elem_value c = k2) (elem_children e)
      else case find (\<lambda>c. elem_value c = k2) (elem_children e) of
             None \<Rightarrow> []
           | Some c \<Rightarrow> path_elements c (k2 # ks))"

definition node_of :: "xml_element \<Rightarrow> xml_node" where
  "node_of e = \<lparr>m_text = (case elem_text e of Some t \<Rightarrow> t | None \<Rightarrow> []),
     m_mapAttr = insert_attrs (elem_attrs e) []\<rparr>"

lemma create_node_eq: "create_node e v = v @ [node_of e]"
  by (simp add: create_node_def node_of_def)

lemma child_loop_last:
  "child_loop cs [k] v = (0, v @ map node_of (filter (\<lambda>c. elem_value c = k) cs), False)"
  by (induction cs arbitrary: v) (simp_all add: create_node_eq)

lemma child_loop_inner:
  "child_loop cs (k # k2 # ks) v =
     (case find (\<lambda>c. elem_value c = k) cs of
        None \<Rightarrow> (0, v, False)
      | Some c \<Rightarrow> (let (r, w) = get_node_rec c (k # k2 # ks) v in (r, w, True)))"
  by (induction cs) simp_all

text \<open>The return codes: no key, another root, nothing found.\<close>

definition path_code :: "xml_element \<Rightarrow> string list \<Rightarrow> int" where
  "path_code e ks = (if ks = [] then - 2 else if elem_value e \<noteq> hd ks then - 3
     else if path_elements e ks = [] then - 4 else 0)"

lemma get_node_rec_path: "get_node_rec e ks [] = (path_code e ks, map node_of (path_elements e ks))"
proof (induction e ks rule: path_elements.induct)
  case (1 e)
  then show ?case by (cases e) (simp add: path_code_def)
next
  case (2 e k)
  then show ?case by (cases e) (simp add: path_code_def create_node_eq)
next
  case (3 e k k2 ks)
  obtain nm t a cs where e: "e = Element nm t a cs" by (cases e)
  show ?case
  proof (cases "nm = k")
    case False
    then show ?thesis by (simp add: e path_code_def)
  next
    case name: True
    show ?thesis
    proof (cases ks)
      case Nil
      then show ?thesis using name by (simp add: e path_code_def child_loop_last)
    next
      case (Cons k3 ks')
      show ?thesis
      proof (cases "find (\<lambda>c. elem_value c = k2) cs")
        case None
        then show ?thesis using name Cons by (simp add: e path_code_def child_loop_inner)
      next
        case (Some c)
        then have "elem_value c = k2" by (auto simp: find_Some_iff)
        with Some 3 name Cons show ?thesis by (simp add: e path_code_def child_loop_inner)
      qed
    qed
  qed
qed

lemma insert_attrs_find:
  "map_wf m \<Longrightarrow> map_find (insert_attrs attrs m) k = (case map_find m k of Some v \<Rightarrow> Some v | None \<Rightarrow> map_of attrs k)"
proof (induction attrs m rule: insert_attrs.induct)
  case (2 a v attrs m)
  then show ?case by (auto split: option.splits)
qed (simp split: option.splits)

section \<open>Properties\<close>

text \<open>
  C24: \<open>get_nodes\<close> gives, in document order, all elements of the last name of the path under the first
  elements of its other names: below the root, only the first child of each intermediate name is
  followed, so elements of the path under a later one are not found. Each comes with its text and
  its attributes (the first of a name). The result is -1 for an empty key and for an empty
  document, which it does not tell apart (an empty key leaves the argument alone, an empty document
  clears it), -2 for a key of separators only, -3 for another root and -4 if nothing is found.
  \<open>get_node\<close> gives the first of these elements, and leaves its argument alone if there is none.
\<close>

theorem xml_get_nodes:
  "get_nodes P key vec =
     (if key = [] then (- 1, vec)
      else case root_element P of
        None \<Rightarrow> (- 1, [])
      | Some e \<Rightarrow>
          (let ks = tokens [CHR 0x2F, CHR 0x5C] (c_str key)
           in (path_code e ks, map node_of (path_elements e ks))))
   \<and> get_node P key node =
       (fst (get_nodes P key []), case snd (get_nodes P key []) of [] \<Rightarrow> node | n # _ \<Rightarrow> n)
   \<and> XMLNode_get_text (node_of e) = (case elem_text e of Some t \<Rightarrow> t | None \<Rightarrow> [])
   \<and> XMLNode_get_attr_str (node_of e) k = (case map_of (elem_attrs e) k of Some v \<Rightarrow> v | None \<Rightarrow> [])"
proof -
  have "StringUtils_split_list key path_separators [] (- 1) = tokens [CHR 0x2F, CHR 0x5C] (c_str key)"
    unfolding split_list_vec by (subst split_vec_tokens) (simp_all add: path_separators_def c_str_def)
  moreover have "map_find (insert_attrs (elem_attrs e) []) k = map_of (elem_attrs e) k"
    by (simp add: insert_attrs_find)
  ultimately show ?thesis
    by (auto simp: get_nodes_def get_node_def get_node_element_def get_node_rec_path Let_def
        XMLNode_get_text_def XMLNode_get_attr_str_def node_of_def split: option.splits list.splits)
qed

end
