(* ===== verification/Cryptopp.thy ===== *)
theory Cryptopp
  imports Cpp_Prelude
begin

text \<open>
  src/Cryptopp.h and src/Cryptopp.cpp: wrappers of the Crypto++ library. A byte string is a
  \<open>string\<close>. The ciphers, hashes and encoders of Crypto++ are parameters: \<open>None\<close> is an exception
  (\<open>CryptoPP::Exception\<close>, which the wrappers catch). A filter writes to its sink as it goes, so a
  cipher gives what it wrote and whether it threw. What is modelled is what the wrappers do
  around them: digests in hexadecimal, the fitting of keys and initial vectors, the blocks of
  RSA, results and out parameters.
\<close>

section \<open>Digests\<close>

definition hex_digit :: "nat \<Rightarrow> char" where
  "hex_digit d = ''0123456789ABCDEF'' ! d"

definition char_to_hexstring :: "char \<Rightarrow> string" where
  "char_to_hexstring c = [hex_digit (of_char c div 16 mod 16), hex_digit (of_char c mod 16)]"

fun bin_to_hexstring :: "string \<Rightarrow> string" where
  "bin_to_hexstring [] = []"
| "bin_to_hexstring (c # cs) = char_to_hexstring c @ bin_to_hexstring cs"

definition md5_calculate_digest :: "(string \<Rightarrow> string option) \<Rightarrow> string \<Rightarrow> string \<Rightarrow> bool \<times> string" where
  "md5_calculate_digest MD5 src digest =
     (case MD5 src of None \<Rightarrow> (False, digest) | Some buf \<Rightarrow> (True, bin_to_hexstring (take 16 buf)))"

definition sha256_calculate_digest :: "(string \<Rightarrow> string option) \<Rightarrow> string \<Rightarrow> string \<Rightarrow> bool \<times> string" where
  "sha256_calculate_digest SHA256 src digest =
     (case SHA256 src of None \<Rightarrow> (False, digest) | Some buf \<Rightarrow> (True, bin_to_hexstring buf))"

definition sha1_calculate_digest :: "(string \<Rightarrow> string option) \<Rightarrow> string \<Rightarrow> string \<Rightarrow> bool \<times> string" where
  "sha1_calculate_digest SHA1 src digest =
     (case SHA1 src of None \<Rightarrow> (False, digest) | Some buf \<Rightarrow> (True, bin_to_hexstring buf))"

definition hmacsha1_calculate_digest ::
  "(string \<Rightarrow> string \<Rightarrow> string option) \<Rightarrow> (bool \<Rightarrow> string \<Rightarrow> string) \<Rightarrow> string \<Rightarrow> string \<Rightarrow> string \<Rightarrow> bool
   \<Rightarrow> bool \<times> string" where
  "hmacsha1_calculate_digest HMAC HexEncoder key src digest uppercase =
     (case HMAC key src of
        None \<Rightarrow> (False, digest)
      | Some mac \<Rightarrow> (True, HexEncoder uppercase mac))"

section \<open>Base64\<close>

text \<open>The out parameters are the buffer, here with its final NUL, and the length without it.\<close>

definition XCrypto_base64_encrypt :: "(string \<Rightarrow> string option) \<Rightarrow> string \<Rightarrow> bool \<times> string option" where
  "XCrypto_base64_encrypt Base64Encoder pSrc =
     (case Base64Encoder pSrc of None \<Rightarrow> (False, None) | Some dst \<Rightarrow> (True, Some (dst @ [CHR 0x00])))"

definition XCrypto_base64_decrypt ::
  "(string \<Rightarrow> string option) \<Rightarrow> string \<Rightarrow> uint \<Rightarrow> bool \<times> string option \<times> uint" where
  "XCrypto_base64_decrypt Base64Decoder pSrc len =
     (case Base64Decoder (c_str pSrc) of
        None \<Rightarrow> (False, None, len)
      | Some dst \<Rightarrow> (True, Some (dst @ [CHR 0x00]), of_nat (length dst)))"

section \<open>Block ciphers in CBC mode\<close>

text \<open>\<open>memset\<close> to zero and \<open>memcpy\<close> of what fits.\<close>

definition fit :: "nat \<Rightarrow> string \<Rightarrow> string" where
  "fit n s = (let len = (if length s < n then length s else n)
              in take len s @ drop len (replicate n (CHR 0x00)))"

type_synonym cipher = "string \<Rightarrow> string \<Rightarrow> string \<Rightarrow> string \<times> bool"

definition cbc_run :: "cipher \<Rightarrow> nat \<Rightarrow> nat \<Rightarrow> string \<Rightarrow> string \<Rightarrow> string \<Rightarrow> string \<Rightarrow> bool \<times> string" where
  "cbc_run cbc keylen blocksize key src dst iv =
     (if key = [] \<or> src = [] then (False, dst)
      else
        (let k = fit keylen key;
             v = replicate blocksize (CHR 0x00);
             v = (if iv \<noteq> [] then fit blocksize iv else v);
             (out, ok) = cbc k v src
         in (ok, dst @ out)))"

definition aes_cbc_encrypt :: "cipher \<Rightarrow> string \<Rightarrow> string \<Rightarrow> string \<Rightarrow> string \<Rightarrow> bool \<times> string" where
  "aes_cbc_encrypt AES_CBC_enc key plaintext ciphertext iv = cbc_run AES_CBC_enc 32 16 key plaintext ciphertext iv"

definition aes_cbc_decrypt :: "cipher \<Rightarrow> string \<Rightarrow> string \<Rightarrow> string \<Rightarrow> string \<Rightarrow> bool \<times> string" where
  "aes_cbc_decrypt AES_CBC_dec key ciphertext plaintext iv = cbc_run AES_CBC_dec 32 16 key ciphertext plaintext iv"

definition des_cbc_encrypt :: "cipher \<Rightarrow> string \<Rightarrow> string \<Rightarrow> string \<Rightarrow> string \<Rightarrow> bool \<times> string" where
  "des_cbc_encrypt DES_CBC_enc key plaintext ciphertext iv = cbc_run DES_CBC_enc 8 8 key plaintext ciphertext iv"

definition des_cbc_decrypt :: "cipher \<Rightarrow> string \<Rightarrow> string \<Rightarrow> string \<Rightarrow> string \<Rightarrow> bool \<times> string" where
  "des_cbc_decrypt DES_CBC_dec key ciphertext plaintext iv = cbc_run DES_CBC_dec 8 8 key ciphertext plaintext iv"

section \<open>RSA with OAEP\<close>

text \<open>
  \<open>enc file n block\<close> is the encryption of a block with the key in that file, in hexadecimal, with
  the randomness of the \<open>n\<close>-th call; \<open>dec file block\<close> its decryption. The \<open>size\<close> of the code is
  always \<open>tmp.size()\<close> as an \<open>unsigned int\<close>.
\<close>

definition size32 :: "string \<Rightarrow> uint" where
  "size32 s = of_nat (length s)"

lemma size32_nonempty: "size32 s > 86 \<Longrightarrow> s \<noteq> []" "size32 s \<ge> 256 \<Longrightarrow> s \<noteq> []"
  by (auto simp: size32_def)

function rsa_encrypt_loop ::
  "(string \<Rightarrow> nat \<Rightarrow> string \<Rightarrow> string option) \<Rightarrow> string \<Rightarrow> nat \<Rightarrow> string \<Rightarrow> string \<Rightarrow> (nat \<times> string \<times> string) option" where
  "rsa_encrypt_loop enc file n tmp ciphertext =
     (if size32 tmp > 86 then
        (let inblock = take 86 tmp; tmp = drop 86 tmp in
         case enc file n inblock of
           None \<Rightarrow> None
         | Some outblock \<Rightarrow> rsa_encrypt_loop enc file (n + 1) tmp (ciphertext @ outblock))
      else Some (n, tmp, ciphertext))"
  by auto
termination
  by (relation "measure (\<lambda>(enc, file, n, tmp, ciphertext). length tmp)") (auto dest!: size32_nonempty)

declare rsa_encrypt_loop.simps [simp del]

definition RSA_encrypt ::
  "(string \<Rightarrow> nat \<Rightarrow> string \<Rightarrow> string option) \<Rightarrow> string \<Rightarrow> string \<Rightarrow> bool \<times> string" where
  "RSA_encrypt enc public_key_file plaintext =
     (case rsa_encrypt_loop enc public_key_file 0 plaintext [] of
        None \<Rightarrow> (False, [])
      | Some (n, tmp, ciphertext) \<Rightarrow>
          (if size32 tmp > 0 then
             (case enc public_key_file n tmp of
                None \<Rightarrow> (False, [])
              | Some outblock \<Rightarrow> (True, ciphertext @ outblock))
           else (True, ciphertext)))"

function rsa_decrypt_loop :: "(string \<Rightarrow> string \<Rightarrow> string option) \<Rightarrow> string \<Rightarrow> string \<Rightarrow> string \<Rightarrow> bool \<times> string" where
  "rsa_decrypt_loop dec file tmp plaintext =
     (if size32 tmp \<ge> 256 then
        (let inblock = take 256 tmp; tmp = drop 256 tmp in
         case dec file (c_str inblock) of
           None \<Rightarrow> (False, [])
         | Some outblock \<Rightarrow> rsa_decrypt_loop dec file tmp (plaintext @ outblock))
      else (True, plaintext))"
  by auto
termination
  by (relation "measure (\<lambda>(dec, file, tmp, plaintext). length tmp)") (auto dest!: size32_nonempty)

declare rsa_decrypt_loop.simps [simp del]

definition RSA_decrypt :: "(string \<Rightarrow> string \<Rightarrow> string option) \<Rightarrow> string \<Rightarrow> string \<Rightarrow> bool \<times> string" where
  "RSA_decrypt dec private_key_file ciphertext = rsa_decrypt_loop dec private_key_file ciphertext []"

text \<open>
  The two key files: the key pair is made by the library; writing one of them is a parameter that
  says whether it threw. The result is what is written under which name.
\<close>

definition generate_rsa_key :: "(string \<Rightarrow> bool) \<Rightarrow> (string \<Rightarrow> bool) \<Rightarrow> string \<Rightarrow> string \<Rightarrow> bool \<times> string list" where
  "generate_rsa_key write_private write_public key_path key_name =
     (let private_key_file = c_str key_path @ ''/'' @ c_str key_name @ ''_private.key'' in
      if \<not> write_private private_key_file then (False, [])
      else
        (let public_key_file = c_str key_path @ ''/'' @ c_str key_name @ ''_public.key'' in
         if \<not> write_public public_key_file then (False, [private_key_file])
         else (True, [private_key_file, public_key_file])))"

section \<open>Blocks\<close>

lemma size32_small: "length s < 2 ^ 32 \<Longrightarrow> uint (size32 s) = int (length s)"
  by (simp add: size32_def unsigned_of_nat take_bit_nat_eq_self)

lemma size32_gt: "length s < 2 ^ 32 \<Longrightarrow> size32 s > 86 \<longleftrightarrow> length s > 86"
  using size32_small by (simp add: word_less_def)

lemma size32_ge: "length s < 2 ^ 32 \<Longrightarrow> size32 s \<ge> 256 \<longleftrightarrow> length s \<ge> 256"
  using size32_small by (simp add: word_le_def)

lemma size32_pos: "length s < 2 ^ 32 \<Longrightarrow> size32 s > 0 \<longleftrightarrow> s \<noteq> []"
  using size32_small by (simp add: word_less_def)

text \<open>
  What the library documents of OAEP with a key of 1024 bits: a block of 1 to 86 bytes is
  encrypted to 128 bytes, which are 256 hexadecimal digits, and is what these are decrypted to.
\<close>

definition good_block :: "(string \<Rightarrow> string \<Rightarrow> string option) \<Rightarrow> string \<Rightarrow> string \<Rightarrow> string \<Rightarrow> bool" where
  "good_block dec priv b c \<longleftrightarrow> length c = 256 \<and> CHR 0x00 \<notin> set c \<and> dec priv c = Some b"

definition oaep_contract :: "(string \<Rightarrow> nat \<Rightarrow> string \<Rightarrow> string option) \<Rightarrow> (string \<Rightarrow> string \<Rightarrow> string option)
    \<Rightarrow> string \<Rightarrow> string \<Rightarrow> bool" where
  "oaep_contract enc dec pub priv \<longleftrightarrow>
     (\<forall>n b. b \<noteq> [] \<and> length b \<le> 86 \<longrightarrow> (\<exists>c. enc pub n b = Some c \<and> good_block dec priv b c))"

lemma encrypt_loop_blocks:
  "oaep_contract enc dec file priv \<Longrightarrow> length tmp < 2 ^ 32 \<Longrightarrow>
   \<exists>m t ps. rsa_encrypt_loop enc file n tmp acc = Some (m, t, acc @ concat (map snd ps))
     \<and> tmp = concat (map fst ps) @ t \<and> length t \<le> 86 \<and> (tmp \<noteq> [] \<longrightarrow> t \<noteq> [])
     \<and> (\<forall>p \<in> set ps. length (fst p) = 86 \<and> good_block dec priv (fst p) (snd p))"
proof (induction enc "file" n tmp acc rule: rsa_encrypt_loop.induct)
  case (1 enc "file" n tmp acc)
  show ?case
  proof (cases "length tmp > 86")
    case False
    then show ?thesis
      using 1(3) by (subst rsa_encrypt_loop.simps) (auto simp: size32_gt intro!: exI [of _ "[]"])
  next
    case True
    then have sz: "size32 tmp > 86" using 1(3) by (simp add: size32_gt)
    have "take 86 tmp \<noteq> []" "length (take 86 tmp) = 86" using True by auto
    then have "take 86 tmp \<noteq> [] \<and> length (take 86 tmp) \<le> 86" by simp
    with 1(2) obtain c where c: "enc file n (take 86 tmp) = Some c" "good_block dec priv (take 86 tmp) c"
      unfolding oaep_contract_def by blast
    have "length (drop 86 tmp) < 2 ^ 32" using 1(3) by simp
    from 1(1) [OF sz refl refl c(1) 1(2) this] obtain m t ps where
      r: "rsa_encrypt_loop enc file (n + 1) (drop 86 tmp) (acc @ c) = Some (m, t, (acc @ c) @ concat (map snd ps))"
        "drop 86 tmp = concat (map fst ps) @ t" "length t \<le> 86" "drop 86 tmp \<noteq> [] \<longrightarrow> t \<noteq> []"
        "\<forall>p \<in> set ps. length (fst p) = 86 \<and> good_block dec priv (fst p) (snd p)"
      by blast
    have "rsa_encrypt_loop enc file n tmp acc = Some (m, t, acc @ concat (map snd ((take 86 tmp, c) # ps)))"
      using sz c(1) r(1) by (subst rsa_encrypt_loop.simps) simp
    moreover have "tmp = concat (map fst ((take 86 tmp, c) # ps)) @ t"
      using r(2) by (simp flip: r(2))
    moreover have "t \<noteq> []" using r(4) True by simp
    ultimately show ?thesis
      using r(3,5) c(2) True by (intro exI [of _ m] exI [of _ t] exI [of _ "(take 86 tmp, c) # ps"]) simp
  qed
qed

lemma decrypt_loop_blocks:
  "\<forall>p \<in> set ps. good_block dec file (fst p) (snd p) \<Longrightarrow> 256 * length ps < 2 ^ 32 \<Longrightarrow>
   rsa_decrypt_loop dec file (take k (concat (map snd ps))) acc
     = (True, acc @ concat (map fst (take (k div 256) ps)))"
proof (induction ps arbitrary: k acc)
  case Nil
  then show ?case by (simp add: rsa_decrypt_loop.simps size32_def)
next
  case (Cons p ps)
  obtain b c where p: "p = (b, c)" by fastforce
  have c: "length c = 256" "c_str c = c" "dec file c = Some b"
    using Cons.prems(1) by (auto simp: p good_block_def c_str_no_nul)
  have len: "length (concat (map snd qs)) = 256 * length qs"
    if "\<forall>p \<in> set qs. good_block dec file (fst p) (snd p)" for qs
    using that by (induction qs) (auto simp: good_block_def)
  let ?t = "take k (concat (map snd (p # ps)))"
  have "length ?t \<le> 256 * length (p # ps)" using len [OF Cons.prems(1)] by simp
  then have small: "length ?t < 2 ^ 32" using Cons.prems(2) by linarith
  show ?case
  proof (cases "k < 256")
    case True
    then have "\<not> 256 \<le> length ?t" by simp
    then have "rsa_decrypt_loop dec file ?t acc = (True, acc)"
      using size32_ge [OF small] by (subst rsa_decrypt_loop.simps) simp
    then show ?thesis using True by simp
  next
    case False
    have t: "?t = c @ take (k - 256) (concat (map snd ps))" using False c(1) by (simp add: p)
    then have "256 \<le> length ?t" using c(1) by simp
    then have big: "size32 (c @ take (k - 256) (concat (map snd ps))) \<ge> 256"
      using size32_ge [OF small] unfolding t by simp
    have "rsa_decrypt_loop dec file ?t acc
        = rsa_decrypt_loop dec file (take (k - 256) (concat (map snd ps))) (acc @ b)"
      unfolding t by (subst rsa_decrypt_loop.simps) (use big c in simp)
    also have "\<dots> = (True, (acc @ b) @ concat (map fst (take ((k - 256) div 256) ps)))"
      using Cons.prems by (intro Cons.IH) auto
    also have "\<dots> = (True, acc @ concat (map fst (take (k div 256) (p # ps))))"
      using False by (simp add: p le_div_geq)
    finally show ?thesis .
  qed
qed

lemma concat_take_blocks:
  "\<forall>p \<in> set (butlast ps). length (fst p) = 86 \<Longrightarrow> \<forall>p \<in> set ps. length (fst p) \<le> 86 \<Longrightarrow>
   concat (map fst (take j ps)) = take (86 * j) (concat (map fst ps))"
proof (induction ps arbitrary: j)
  case (Cons p ps)
  show ?case
  proof (cases j)
    case (Suc i)
    show ?thesis
    proof (cases "ps = []")
      case True
      then show ?thesis using Cons.prems Suc by simp
    next
      case False
      then have "length (fst p) = 86" using Cons.prems(1) by simp
      with Cons.IH [of i] Cons.prems False show ?thesis by (simp add: Suc)
    qed
  qed simp
qed simp

section \<open>Properties\<close>

text \<open>
  C18: if the library keeps its contract, RSA encryption of a text succeeds, with 256 digits for
  each 86 bytes or part of them, and decryption gives the text back, for every text whose
  ciphertext is shorter than \<open>2 ^ 32\<close> bytes (about 1.34 GiB of text): both loops keep the size
  left in an \<open>unsigned int\<close>. Decryption also succeeds on a ciphertext that was cut short anywhere:
  it gives the blocks that are complete and does not tell that the rest is missing.
\<close>

theorem rsa_roundtrip:
  assumes "oaep_contract enc dec pub priv" and "256 * ((length p + 85) div 86) < 2 ^ 32"
  shows "\<exists>c. RSA_encrypt enc pub p = (True, c) \<and> length c = 256 * ((length p + 85) div 86)
    \<and> RSA_decrypt dec priv c = (True, p)
    \<and> (\<forall>k. RSA_decrypt dec priv (take k c) = (True, take (86 * (k div 256)) p))"
proof -
  have "length p \<le> 86 * ((length p + 85) div 86)" by presburger
  then have "length p < 2 ^ 32" using assms(2) by linarith
  from encrypt_loop_blocks [OF assms(1) this, of 0 "[]"] obtain m t ps where
    e: "rsa_encrypt_loop enc pub 0 p [] = Some (m, t, concat (map snd ps))"
      "p = concat (map fst ps) @ t" "length t \<le> 86" "p \<noteq> [] \<longrightarrow> t \<noteq> []"
    and ps: "\<forall>p \<in> set ps. length (fst p) = 86 \<and> good_block dec priv (fst p) (snd p)"
    unfolding append_Nil by blast
  have lenf: "length (concat (map fst qs)) = 86 * length qs"
    if "\<forall>p \<in> set qs. length (fst p) = 86 \<and> good_block dec priv (fst p) (snd p)" for qs
    using that by (induction qs) auto
  have small: "length t < 2 ^ 32" using e(3) by simp
  have "\<exists>qs. RSA_encrypt enc pub p = (True, concat (map snd qs)) \<and> p = concat (map fst qs)
      \<and> (\<forall>q \<in> set qs. good_block dec priv (fst q) (snd q) \<and> length (fst q) \<le> 86)
      \<and> (\<forall>q \<in> set (butlast qs). length (fst q) = 86) \<and> length qs = (length p + 85) div 86"
  proof (cases "t = []")
    case True
    then have p: "p = []" using e(4) by blast
    then have "length (concat (map fst ps)) = 0" using e(2) by simp
    then have "ps = []" unfolding lenf [OF ps] by simp
    then show ?thesis using e(1) True p by (intro exI [of _ "[]"]) (simp add: RSA_encrypt_def size32_def)
  next
    case False
    then obtain c where c: "enc pub m t = Some c" "good_block dec priv t c"
      using assms(1) e(3) unfolding oaep_contract_def by blast
    have n: "length p = 86 * length ps + length t" using lenf [OF ps] by (simp add: e(2))
    have "length t + 85 < 2 * 86" "86 \<le> length t + 85" using e(3) False by (simp_all add: Suc_le_eq)
    then have "(length t + 85) div 86 = 1" by (intro div_nat_eqI) simp_all
    then have "length (ps @ [(t, c)]) = (length p + 85) div 86"
      using div_mult_self4 [of 86 "length ps" "length t + 85"] by (simp add: n add.assoc)
    then show ?thesis
      using c e(1,2,3) False ps size32_pos [OF small]
      by (intro exI [of _ "ps @ [(t, c)]"]) (auto simp: RSA_encrypt_def butlast_append)
  qed
  then obtain qs where q: "RSA_encrypt enc pub p = (True, concat (map snd qs))" "p = concat (map fst qs)"
      "\<forall>q \<in> set qs. good_block dec priv (fst q) (snd q)" "\<forall>q \<in> set qs. length (fst q) \<le> 86"
      "\<forall>q \<in> set (butlast qs). length (fst q) = 86" "length qs = (length p + 85) div 86" by blast
  have "256 * length qs < 2 ^ 32" using q(6) assms(2) by simp
  note dec = decrypt_loop_blocks [OF q(3) this, of _ "[]"]
  have len: "length (concat (map snd rs)) = 256 * length rs"
    if "\<forall>q \<in> set rs. good_block dec priv (fst q) (snd q)" for rs
    using that by (induction rs) (auto simp: good_block_def)
  have cut: "RSA_decrypt dec priv (take k (concat (map snd qs))) = (True, take (86 * (k div 256)) p)" for k
    using dec [of k] concat_take_blocks [OF q(5,4)] by (simp add: RSA_decrypt_def q(2))
  moreover have "RSA_decrypt dec priv (concat (map snd qs)) = (True, p)"
    using dec [of "256 * length qs"] len [OF q(3)] by (simp add: RSA_decrypt_def q(2))
  ultimately show ?thesis using q(1,6) len [OF q(3)] by auto
qed

text \<open>A toy cipher that keeps the contract: two characters for each byte, neither of them NUL, and padding.\<close>

fun toy_text :: "string \<Rightarrow> string" where
  "toy_text [] = []"
| "toy_text (c # cs) = (if c = CHR 0x00 then ''x0'' else [c, CHR ''1'']) @ toy_text cs"

definition toy_enc :: "string \<Rightarrow> nat \<Rightarrow> string \<Rightarrow> string option" where
  "toy_enc file n b = (if length b \<le> 86 then Some (toy_text b @ replicate (256 - 2 * length b) (CHR ''x'')) else None)"

fun toy_dec :: "string \<Rightarrow> string" where
  "toy_dec (c # f # cs) = (if f = CHR ''1'' then c # toy_dec cs else if f = CHR ''0'' then CHR 0x00 # toy_dec cs else [])"
| "toy_dec cs = []"

lemma toy_text_length: "length (toy_text b) = 2 * length b"
  by (induction b) auto

lemma toy_text_nul: "CHR 0x00 \<notin> set (toy_text b)"
  by (induction b) auto

lemma toy_dec_text: "toy_dec (toy_text b @ replicate k (CHR ''x'')) = b"
proof (induction b)
  case Nil
  show ?case
  proof (cases k)
    case (Suc j)
    then show ?thesis by (cases j) simp_all
  qed simp
qed auto

lemma toy_contract: "oaep_contract toy_enc (\<lambda>file c. Some (toy_dec c)) pub priv"
  by (auto simp: oaep_contract_def toy_enc_def good_block_def toy_text_length toy_text_nul toy_dec_text)

lemma rsa_roundtrip_witness:
  "\<exists>c. RSA_encrypt toy_enc ''pub'' (replicate 200 (CHR ''a'')) = (True, c) \<and> length c = 768
    \<and> RSA_decrypt (\<lambda>file c. Some (toy_dec c)) ''priv'' (take 700 c) = (True, replicate 172 (CHR ''a''))"
proof -
  have "256 * ((length (replicate 200 (CHR ''a'')) + 85) div 86) < 2 ^ 32" by simp
  from rsa_roundtrip [OF toy_contract this, of "''pub''" "''priv''"] obtain c where
    c: "RSA_encrypt toy_enc ''pub'' (replicate 200 (CHR ''a'')) = (True, c)" "length c = 768"
      "\<And>k. RSA_decrypt (\<lambda>file c. Some (toy_dec c)) ''priv'' (take k c) = (True, take (86 * (k div 256)) (replicate 200 (CHR ''a'')))"
    by auto
  then show ?thesis using c(3) [of 700] by simp
qed

section \<open>AES and DES\<close>

text \<open>
  What the library documents of a cipher in CBC mode with padding: with a key and an initial
  vector of the right lengths, a text that is not empty is encrypted, and decrypted back.
\<close>

definition cbc_contract :: "cipher \<Rightarrow> cipher \<Rightarrow> nat \<Rightarrow> nat \<Rightarrow> bool" where
  "cbc_contract enc dec keylen blocksize \<longleftrightarrow>
     (\<forall>k v p. length k = keylen \<and> length v = blocksize \<and> p \<noteq> []
        \<longrightarrow> (\<exists>c. c \<noteq> [] \<and> enc k v p = (c, True) \<and> dec k v c = (p, True)))"

lemma fit_length [simp]: "length (fit n s) = n"
  by (simp add: fit_def Let_def)

lemma fit_cut: "fit n (take n s) = fit n s"
  by (simp add: fit_def Let_def)

lemma fit_nul: "fit n (s @ [CHR 0x00]) = fit n s"
proof -
  have "drop (length s) (replicate n (CHR 0x00)) = CHR 0x00 # drop (Suc (length s)) (replicate n (CHR 0x00))"
    if "length s < n"
    using that by (subst Cons_nth_drop_Suc [symmetric]) simp_all
  then show ?thesis by (cases "length s < n") (auto simp: fit_def Let_def le_antisym not_less)
qed

lemma cbc_run_fits:
  "cbc_run cbc n b key src dst iv =
     (if key = [] \<or> src = [] then (False, dst)
      else (snd (cbc (fit n key) (fit b iv) src), dst @ fst (cbc (fit n key) (fit b iv) src)))"
  by (simp add: cbc_run_def Let_def split_beta) (simp add: fit_def)

lemma cbc_run_roundtrip:
  assumes "cbc_contract enc dec n b" and "key \<noteq> []" and "p \<noteq> []"
  shows "\<exists>c. (\<forall>dst. cbc_run enc n b key p dst iv = (True, dst @ c))
    \<and> (\<forall>key2 iv2 dst. key2 \<noteq> [] \<and> fit n key2 = fit n key \<and> fit b iv2 = fit b iv
        \<longrightarrow> cbc_run dec n b key2 c dst iv2 = (True, dst @ p))"
proof -
  have "length (fit n key) = n \<and> length (fit b iv) = b \<and> p \<noteq> []" using assms(3) by simp
  with assms(1) obtain c where "c \<noteq> []" "enc (fit n key) (fit b iv) p = (c, True)"
      "dec (fit n key) (fit b iv) c = (p, True)"
    unfolding cbc_contract_def by blast
  then show ?thesis using assms(2,3) by (intro exI [of _ c]) (simp add: cbc_run_fits)
qed

text \<open>
  C19: what AES or DES encryption appends to its out parameter is decrypted, with the same key and
  initial vector, to the text, appended to what was there. Any other key that is the same once
  cut or filled with zeros to 32 bytes (8 for DES) decrypts it too: a longer key adds nothing,
  nor do zeros at its end. An empty key or text is refused and nothing is written.
\<close>

theorem cbc_roundtrip:
  assumes "cbc_contract aes_enc aes_dec 32 16" and "cbc_contract des_enc des_dec 8 8"
    and "key \<noteq> []" and "p \<noteq> []"
  shows "(\<exists>c. (\<forall>dst. aes_cbc_encrypt aes_enc key p dst iv = (True, dst @ c))
        \<and> (\<forall>key2 iv2 dst. key2 \<noteq> [] \<and> fit 32 key2 = fit 32 key \<and> fit 16 iv2 = fit 16 iv
            \<longrightarrow> aes_cbc_decrypt aes_dec key2 c dst iv2 = (True, dst @ p)))
    \<and> (\<exists>c. (\<forall>dst. des_cbc_encrypt des_enc key p dst iv = (True, dst @ c))
        \<and> (\<forall>key2 iv2 dst. key2 \<noteq> [] \<and> fit 8 key2 = fit 8 key \<and> fit 8 iv2 = fit 8 iv
            \<longrightarrow> des_cbc_decrypt des_dec key2 c dst iv2 = (True, dst @ p)))
    \<and> (\<forall>n. fit n (take n key) = fit n key \<and> fit n (key @ [CHR 0x00]) = fit n key)
    \<and> aes_cbc_encrypt aes_enc [] p d iv = (False, d) \<and> aes_cbc_encrypt aes_enc key [] d iv = (False, d)
    \<and> des_cbc_encrypt des_enc [] p d iv = (False, d) \<and> des_cbc_encrypt des_enc key [] d iv = (False, d)"
  using cbc_run_roundtrip [OF assms(1,3,4), of iv] cbc_run_roundtrip [OF assms(2,3,4), of iv] fit_cut fit_nul
  by (simp add: aes_cbc_encrypt_def aes_cbc_decrypt_def des_cbc_encrypt_def des_cbc_decrypt_def cbc_run_fits)

text \<open>A cipher that adds the first byte of the key at the end, and checks it.\<close>

definition tag_enc :: cipher where "tag_enc k v p = (p @ [hd k], True)"
definition tag_dec :: cipher where "tag_dec k v c = (butlast c, last c = hd k)"

lemma cbc_roundtrip_witness:
  "\<exists>c. aes_cbc_encrypt tag_enc ''key'' ''text'' ''old'' [] = (True, ''old'' @ c)
    \<and> aes_cbc_decrypt tag_dec (''key'' @ [CHR 0x00]) c [] [] = (True, ''text'')"
proof -
  have k: "cbc_contract tag_enc tag_dec n b" for n b by (simp add: cbc_contract_def tag_enc_def tag_dec_def)
  have "''key'' \<noteq> []" "''text'' \<noteq> []" by simp_all
  note t = cbc_roundtrip [OF k k this, of "[]" "[]"]
  obtain c where c: "\<forall>dst. aes_cbc_encrypt tag_enc ''key'' ''text'' dst [] = (True, dst @ c)"
      "\<forall>key2 iv2 dst. key2 \<noteq> [] \<and> fit 32 key2 = fit 32 ''key'' \<and> fit 16 iv2 = fit 16 []
            \<longrightarrow> aes_cbc_decrypt tag_dec key2 c dst iv2 = (True, dst @ ''text'')"
    using conjunct1 [OF t] by blast
  have "''key'' @ [CHR 0x00] \<noteq> []" "fit 32 (''key'' @ [CHR 0x00]) = fit 32 ''key''"
    using t by simp_all
  then have "aes_cbc_decrypt tag_dec (''key'' @ [CHR 0x00]) c [] [] = (True, [] @ ''text'')" using c(2) by blast
  then show ?thesis using c(1) by auto
qed

end
