(* ===== verification/RepoTests.thy ===== *)
theory RepoTests
  imports Base64 StringUtils XMLParser
begin

text \<open>
  The assertions of the repository's own tests that need no socket or thread, evaluated in the model:
  src/test/testStringUtils.cpp, testBase64.cpp and testXMLParser.cpp.
\<close>

section \<open>testStringUtils.cpp\<close>

lemma test_trim:
  "map StringUtils_trim [CHR 0x09 # ''1234'', '' 1234'', ''1234 '', CHR 0x09 # ''1234 '', CHR 0x09 # ''12 34 '', ''1234'']
     = [''1234'', ''1234'', ''1234'', ''1234'', ''12 34'', ''1234'']"
  by code_simp

lemma test_format:
  "StringUtils_format ''hello, world'' [] = Some ''hello, world''"
  "StringUtils_format ''hello, %s'' [P_str ''world''] = Some ''hello, world''"
  "StringUtils_format ''%s, %s'' [P_str ''hello'', P_str ''world''] = Some ''hello, world''"
  unfolding format_text by code_simp+

section \<open>testBase64.cpp\<close>

lemma test_encrypt:
  "Base64_encrypt (map of_char ''hello, workd, !@#$%^&^&**'') 25
     = Some (0, map of_char ''aGVsbG8sIHdvcmtkLCAhQCMkJV4mXiYqKg=='' @ [0])"
proof -
  have "b64_text (map of_char ''hello, workd, !@#$%^&^&**'') = map of_char ''aGVsbG8sIHdvcmtkLCAhQCMkJV4mXiYqKg==''"
    by code_simp
  with encrypt_text [of "map of_char ''hello, workd, !@#$%^&^&**''"] show ?thesis by simp
qed

text \<open>
  The decoder takes the length of an array without a final NUL: the test passes if the byte after it
  happens to be zero.
\<close>

lemma test_decrypt:
  assumes "heap 19 = 0"
  shows "Base64_decrypt heap (map of_char ''dGhpcyBpcyBhIHRlc3Q='') = Some (0, Some (map of_char ''this is a test'' @ [0]))"
proof -
  let ?src = "map of_char ''this is a test'' :: uchar list"
  have t: "b64_text ?src = map of_char ''dGhpcyBpcyBhIHRlc3Q=''" by code_simp
  have n: "length (sextets ?src) = 19" and v: "\<forall>v \<in> set (sextets ?src). unat v < 62" by code_simp+
  have "?src \<noteq> []" "length ?src \<le> 768" by simp_all
  from decrypt_text [OF this v, of heap] have
    "Base64_decrypt heap (b64_text ?src) = Some (0, Some (?src @ tail_zeros (length ?src)))"
    unfolding n using assms by (simp only: simp_thms if_True)
  moreover have "tail_zeros (length ?src) = [0]" by code_simp
  ultimately show ?thesis unfolding t by simp
qed

section \<open>testXMLParser.cpp\<close>

text \<open>test_xml_parser.xml, as TinyXML reads it: comments are no elements.\<close>

definition test_document :: xml_element where
  "test_document = Element ''Person'' None []
     [Element ''name'' (Some ''john'') [] [],
      Element ''province'' None [] [Element ''city'' (Some ''shenzhen'') [] []],
      Element ''age'' (Some ''36'') [] [],
      Element ''property'' None []
        [Element ''category'' None [(''name'', ''car''), (''price'', ''365412'')] [],
         Element ''category'' None [(''name'', ''house''), (''price'', ''1000000'')] []]]"

lemma test_xml:
  "let P = \<lparr>root_element = Some test_document\<rparr> in
     map (\<lambda>key. let (ret, node) = get_node P key n in (ret, XMLNode_get_text node))
       [''Person/name'', ''Person/province/city'', ''Person/age''] = [(0, ''john''), (0, ''shenzhen''), (0, ''36'')]
     \<and> (let (ret, nodes) = get_nodes P ''/Person/property/category'' [] in
         ret = 0 \<and> map (\<lambda>node. XMLNode_get_attr_str node ''name'') nodes = [''car'', ''house''])"
  by code_simp

end
