(* ===== verification/Spec2Isabelle.thy ===== *)
theory Spec2Isabelle
  imports Base64 StringUtils TQueue TMap TSingleton SelectTimer SimpleTcpBase UdpClient UdpServer
    PoolTimer SessionServer SessionStale MessageTransfer
    EventHandler LogCalls XMLParser Cryptopp RepoTests
begin

text \<open>
  A model of cppbrick, the C++ library under src/src: queues, maps and locks for threads, a base
  class of active objects, timers, sockets, two reactors, a connection pool, a session table, and
  helpers for strings, Base64, XML and ciphers.

  Method. Every operation of a class is a function on a record with the class's members. What is
  undefined behaviour in C++ is \<open>None\<close>, and so is a loop that never ends
  (\<open>partial_function (option)\<close>, without fuel). The kernel, the pthread library and
  the callbacks an application overrides are one parameter \<open>os\<close> (theory Posix): it
  gives the reply of the n-th outside call, and every operation returns the log of calls extended,
  so the theorems can say which calls are made, in which order, and which descriptors are open
  after them. That the kernel hands out only descriptors that are not open is the hypothesis
  \<open>fresh_fds\<close>. Operations that run under a mutex are single steps; several threads
  are step relations over them, and their theorems hold in every reachable state.

  Theories, from the bottom up.
  Cpp_Prelude: integer types, checked memory, decimal printing, reachability and the locales
  \<open>invariant_machine\<close> and \<open>ranked_machine\<close> (machines whose runs end).
  Posix: calls, replies, the log, open descriptors. Std_Map: \<open>std::map\<close> as a sorted
  association list.
  Printf: the conversions of printf that the library uses, and the types of its formats.
  TimeStamp (TimeStamp.h, .cpp): clock readings. StringUtils: trimming, splitting, formatting.
  CBLog (CBLog.h): the lines the log macros print. LogCalls: every log statement of the files that
  use these macros, but for Base64.cpp and Cryptopp.cpp (the theory names them).
  Base64: both codecs, and the text of RFC 4648, defined on its own, that they are compared with.
  CondVar: the threads blocked on a condition variable, for the classes that wait and broadcast.
  TQueue (TVector.h, TQueue.h): bounded queues, their waiting threads and the rate limiter; the locale
  \<open>bounded_queue\<close> holds the theory of their interleavings and is interpreted on both.
  TMap (TMapInt.h, TMapString.h): maps behind a mutex; the locale \<open>keyed_store\<close> is
  their contract. TSingleton: double-checked locking. ThreadSync (ThreadMutex.h, ThreadRWMutex,
  ThreadCond, ThreadMeet): locks, condition variables, a meeting point. Thread: the base class of
  active objects; its loop \<open>svc_loop\<close> takes the overridden \<open>svc\<close> as an
  argument; the locale \<open>threaded\<close> is what such a class owes, interpreted on both
  reactors and on timers. SelectTimer: a timer on it, with the locale \<open>timer_client\<close>
  of what keeps an invariant when the timer calls it.
  SocketUtils: helpers on descriptors, with loops that send and receive whole buffers.
  SimpleTcpBase: a blocking socket. UdpClient. OSUtils.
  TcpReactor: an epoll loop that accepts connections; its handlers live from
  \<open>handle_accept\<close> to \<open>handle_close\<close> (the automaton \<open>life\<close>).
  UdpReactor: the same for datagrams, one handler per sender (\<open>udp_life\<close>).
  TcpClientEpoll (ConnMgt/Conn.h, TcpClientEpoll): a client, with or without a thread. ConnMgt
  (ConnMgtLB): a pool over any class of connections that keeps the contract of the locale
  \<open>conn_contract\<close>, interpreted on TcpClientEpoll. SessionMgt: sessions found by
  descriptor and by id. EventHandler (EventHandler.h, Utils.h): the methods a handler has when it
  overrides none. XMLParser: paths in TinyXML's tree of elements. Cryptopp: the wrappers of
  Crypto++, whose algorithms are parameters; RSA in blocks.
  Compositions. PoolTimer: a pool whose timer reconnects lost connections. SessionServer: a
  session table filled by events and emptied by a timer. MessageTransfer: a client and its peer,
  joined by what TCP promises. UdpServer and this theory: the whole life of a server, where the
  reactor runs in its thread. SessionStale: the session table under calls that overwrite a
  session.
  RepoTests: the assertions of three tests of the repository, evaluated.

  Theorems. Queues: no element is lost, duplicated or reordered; limits; the pace of
  \<open>pop\<close>. Sockets: what is received and sent, when the loops end, results on errors;
  messages arrive whole and in order. Reactors, client and pool: which descriptors are open after
  any sequence of operations, and what handlers see. Sessions: uniqueness of ids, agreement of the
  two maps, what a check removes. Codecs: round trips, agreement with a reference, errors. Log
  lines: the fields can be read back, and which statements fit the types of their arguments.
  Threads: when a thread ends. Liveness: every caller of \<open>GetInstance\<close> returns, and
  the timer brings a pool back once the peer answers. Several theorems state faults of the code as
  it is; the manifest lists these as findings.

  Not modelled: where a log line goes, and the other log library; the example programs under test/
  (RepoTests evaluates the assertions of three of them); the vendored headers under 3rdparty
  (parameters where they are called); data races of members that the code does not protect
  (\<open>TcpClientEpoll::close\<close> against its thread: whole operations are interleaved); the
  freeing of heap memory. Taken as given: a \<open>recv\<close> or \<open>send\<close> moves fewer than 2^31 bytes (Linux moves
  at most 0x7ffff000), so that storing its result in an \<open>int\<close> changes nothing; and what a thread that
  \<open>Thread::run\<close> started does meanwhile to the object is the field \<open>exited\<close> of the replies.
\<close>

section \<open>A TCP server from start to end\<close>

text \<open>
  C2: a TCP reactor that is started, runs in its thread until it is stopped, and is destroyed
  leaves open, besides what was open before, exactly the listening socket and the connections
  that were alive when it stopped: these are forgotten, not closed. The epoll instance and the
  connections that ended before are closed.
\<close>

theorem reactor_whole_run:
  assumes "TcpReactor_do_init os args (TcpReactor_new h) l = (0, R1, l1)"
    and "thread_proc os (TcpReactor_svc os) stops t R1 l1 = Some (t2, R2, l2)"
    and "TcpReactor_release os R2 l2 = (R3, l3)"
    and "\<forall>n sz. - 1 \<le> rv (os n (C_epoll_create sz))"
  shows "handlers R3 = TMapInt_new
    \<and> (\<exists>m. l3 = l @ m \<and> (\<forall>S. fresh_fds S m \<and> (\<forall>f \<in> S. 0 \<le> f) \<longrightarrow>
        open_fds m S = S \<union> {listen_fd R1} \<union> {fd. \<exists>hd. TMapInt_get (handlers R2) fd = (True, Some hd)}))"
proof -
  from tcp_init_fds [OF assms(1,4)] obtain k where k: "l1 = l @ k" "handlers R1 = TMapInt_new"
      "\<And>S. fresh_fds S k \<Longrightarrow> \<forall>f \<in> S. 0 \<le> f \<Longrightarrow> open_fds k S = S \<union> {listen_fd R1, epfd R1}
          \<and> listen_fd R1 \<notin> S \<and> epfd R1 \<notin> S \<and> listen_fd R1 \<noteq> epfd R1"
    by auto
  from tcp_release_fds [OF assms(3)] obtain q where q: "l3 = l2 @ q" "handlers R3 = TMapInt_new"
      "\<And>S. open_fds q S = S - {epfd R2}" by blast
  from reactor_thread_piece [OF assms(2), of "{}"] obtain m where m: "l2 = l1 @ m" "epfd R2 = epfd R1" by blast
  have piece: "piece_ok S R1 R2 m" for S using reactor_thread_piece [OF assms(2), of S] m(1) by auto
  have dom: "{fd. \<exists>hd. TMapInt_get (handlers R2) fd = (True, Some hd)} = dom (map_find (handlers R2))"
    by (auto simp: TMapInt_get_iff)
  have "open_fds (k @ m @ q) S = S \<union> {listen_fd R1} \<union> dom (map_find (handlers R2))"
    if S: "fresh_fds S (k @ m @ q)" "\<forall>f \<in> S. 0 \<le> f" for S
  proof -
    let ?S = "S \<union> {listen_fd R1, epfd R1}"
    have o: "open_fds k S = ?S" "epfd R1 \<notin> S" "listen_fd R1 \<noteq> epfd R1"
      using k(3) [of S] S by (auto simp: fresh_fds_append)
    moreover have "fresh_fds ?S m" using S(1) o(1) by (simp add: fresh_fds_append)
    ultimately have "reactor_inv R2 ?S (open_fds m ?S)"
      using piece [of ?S] fresh_reactor_inv [OF k(2), of ?S] by (simp add: piece_ok_def)
    then have "open_fds m ?S = ?S \<union> dom (map_find (handlers R2))" "?S \<inter> dom (map_find (handlers R2)) = {}"
      by (simp_all add: reactor_inv_def)
    then show ?thesis unfolding open_fds_append o(1) q(3) using o(2,3) m(2) by auto
  qed
  then show ?thesis
    unfolding dom using k(1) m(1) q(1,2) by (intro conjI exI [of _ "k @ m @ q"]) auto
qed

lemma reactor_whole_run_witness:
  "\<exists>R1 l1 t2 R2 l2 R3 l3.
     TcpReactor_do_init one_round_os (Some StTcpReactorAgrs) (TcpReactor_new (Some 1)) [] = (0, R1, l1)
     \<and> thread_proc one_round_os (TcpReactor_svc one_round_os) (\<lambda>n. True) Thread_new R1 l1 = Some (t2, R2, l2)
     \<and> TcpReactor_release one_round_os R2 l2 = (R3, l3) \<and> open_fds l3 {0} = {0, 6, 9}"
proof -
  obtain ret R1 l1 where i:
      "TcpReactor_do_init one_round_os (Some StTcpReactorAgrs) (TcpReactor_new (Some 1)) [] = (ret, R1, l1)"
    by (metis prod_cases3)
  have k: "ret = 0" "listen_fd R1 = 6" "epfd R1 = 5" "handlers R1 = []" "t_handler R1 = Some 1"
    and f: "fresh_fds {0} l1" "open_fds l1 {0} = {0, 5, 6}"
    using i by (auto simp: TcpReactor_do_init_def StTcpReactorAgrs_def get_rlimit_def epoller_create_def
        do_listen_def set_reuseaddr_def set_non_bolck_def set_nodelay_def epoller_ctl_def syscall_def Let_def
        one_round_os_def ok_reply_def TcpReactor_new_def TMapInt_new_def new_fd_def fd_effect_def)
  obtain t2 R2 m where p: "thread_proc one_round_os (TcpReactor_svc one_round_os) (\<lambda>n. True) Thread_new R1 l1
      = Some (t2, R2, l1 @ m)" and R2: "handlers R2 = [(9, 50)]" "epfd R2 = 5" and m: "fresh_fds {0, 5, 6} m"
    using k by (simp add: thread_proc_def svc_loop.simps TcpReactor_svc_def on_event_def on_accept_def
        set_snd_timeout_def epoller_ctl_def syscall_def do_call_eq Let_def Thread_clean_up_def
        one_round_os_def ok_reply_def TMapInt_insert_def map_insert_def new_fd_def fd_effect_def
        EPOLLIN_def EPOLLOUT_def)
  obtain R3 l3 where r: "TcpReactor_release one_round_os R2 (l1 @ m) = (R3, l3)" by fastforce
  have "\<forall>n sz. - 1 \<le> rv (one_round_os n (C_epoll_create sz))" by (simp add: one_round_os_def ok_reply_def)
  from reactor_whole_run [OF i [unfolded k(1)] p r this] obtain q where q: "l3 = q"
      "\<And>S. fresh_fds S q \<Longrightarrow> \<forall>f \<in> S. 0 \<le> f \<Longrightarrow> open_fds q S = S \<union> {6} \<union> {fd. \<exists>hd. TMapInt_get (handlers R2) fd = (True, Some hd)}"
    using k(2) by auto
  have "fresh_fds {0} l3"
    using r f m by (auto simp: TcpReactor_release_def do_call_eq Let_def fresh_fds_append new_fd_def fd_effect_def
        split: option.splits)
  with q have "open_fds l3 {0} = {0, 6, 9}" by (auto simp: R2 TMapInt_get_def split: if_splits)
  with i k(1) p r show ?thesis by blast
qed

end
